(* ===== verification/Prelude.thy ===== *)
theory Prelude
  imports Main "HOL-Library.Word" "HOL-Library.Monad_Syntax"
begin

unbundle bit_operations_syntax

text \<open>
  Shared vocabulary of the development: machine integers, byte slices, the panic monad and
  the generic lemmas the component theories rely on.

  A Go computation that may hit a run-time panic (index or slice bounds out of range, division
  by zero, nil dereference) or that may not terminate is a value of type \<open>'a go\<close>: \<open>Some v\<close> is a
  normal return of \<open>v\<close>, \<open>None\<close> means that the code does not return. Go's \<open>int\<close> is 64 bits wide
  and only ever holds lengths, offsets and counters here, so it is modelled by \<open>int\<close> or \<open>nat\<close>;
  the fixed-width types keep their width.
\<close>

named_theorems go_simps \<open>evaluation of bounds-checked byte operations\<close>
named_theorems len_simps \<open>lengths of written buffers\<close>

type_synonym u8 = "8 word"
type_synonym u16 = "16 word"
type_synonym u32 = "32 word"
type_synonym u64 = "64 word"
type_synonym bytes = "u8 list"
type_synonym 'a go = "'a option"

abbreviation panic :: "'a go" where
  "panic \<equiv> None"

section \<open>The panic monad\<close>

lemma bind_Some_iff [go_simps]: "(m \<bind> f = Some y) \<longleftrightarrow> (\<exists>x. m = Some x \<and> f x = Some y)"
  by (cases m) auto

lemma bind_SomeE:
  assumes "m \<bind> f = Some y"
  obtains x where "m = Some x" and "f x = Some y"
  using assms by (cases m) auto

section \<open>Machine integers\<close>

lemma unat_u8_less: "unat (x :: u8) < 256"
  using unsigned_less [of x] by simp

lemma unat_u16_less: "unat (x :: u16) < 65536"
  using unsigned_less [of x] by simp

lemma unat_u32_less: "unat (x :: u32) < 4294967296"
  using unsigned_less [of x] by simp

lemma unat_ucast_up: "LENGTH('a) \<le> LENGTH('b) \<Longrightarrow> unat (ucast w :: 'b :: len word) = unat w"
  for w :: "'a :: len word"
  by (simp add: unsigned_ucast_eq take_bit_nat_eq_self_iff less_le_trans [OF unsigned_less])

lemma unat_ucast_simps [simp]:
  "unat (ucast (x :: u8) :: u16) = unat x"
  "unat (ucast (x :: u8) :: u32) = unat x"
  "unat (ucast (y :: u16) :: u32) = unat y"
  by (simp_all add: unat_ucast_up)

lemma unat_of_nat_u8: "n < 256 \<Longrightarrow> unat (of_nat n :: u8) = n"
  by (simp add: unat_of_nat)

lemma unat_of_nat_u16: "n < 65536 \<Longrightarrow> unat (of_nat n :: u16) = n"
  by (simp add: unat_of_nat)

lemma unat_of_nat_u32: "n < 4294967296 \<Longrightarrow> unat (of_nat n :: u32) = n"
  by (simp add: unat_of_nat)

lemma minus1_le_uint [simp]: "- 1 \<le> uint x"
  by (rule order_trans [of _ 0]) simp_all

lemma unat_not16: "unat (NOT x) = 65535 - unat x" for x :: u16
proof -
  have "NOT x = 0xffff - x"
    by (simp add: not_eq_complement)
  moreover have "x \<le> 0xffff"
    using unat_u16_less [of x] by (simp add: word_le_nat_alt)
  ultimately show ?thesis
    by (simp add: unat_sub)
qed

section \<open>Slices\<close>

text \<open>\<open>b[i]\<close>, \<open>b[i] = v\<close> and \<open>b[lo:hi]\<close> with Go's bounds checks (a slice whose length is its capacity).\<close>

definition index :: "'a list \<Rightarrow> nat \<Rightarrow> 'a go" where
  "index b i = (if i < length b then Some (b ! i) else panic)"

definition store :: "'a list \<Rightarrow> nat \<Rightarrow> 'a \<Rightarrow> 'a list go" where
  "store b i v = (if i < length b then Some (b[i := v]) else panic)"

definition subslice :: "'a list \<Rightarrow> nat \<Rightarrow> nat \<Rightarrow> 'a list go" where
  "subslice b lo hi = (if lo \<le> hi \<and> hi \<le> length b then Some (take (hi - lo) (drop lo b)) else panic)"

abbreviation slice_from :: "'a list \<Rightarrow> nat \<Rightarrow> 'a list go" where
  "slice_from b lo \<equiv> subslice b lo (length b)"

text \<open>\<open>copy(dst[off:], src)\<close>: as many bytes as fit; the slice expression panics past the end.\<close>

definition overwrite :: "'a list \<Rightarrow> nat \<Rightarrow> 'a list \<Rightarrow> 'a list" where
  "overwrite dst off src =
     take off dst @ take (length dst - off) src @ drop (off + length src) dst"

definition copy_at :: "'a list \<Rightarrow> nat \<Rightarrow> 'a list \<Rightarrow> 'a list go" where
  "copy_at dst off src = (if off \<le> length dst then Some (overwrite dst off src) else panic)"

lemma index_Some [simp]: "i < length b \<Longrightarrow> index b i = Some (b ! i)"
  by (simp add: index_def)

lemma store_Some [simp]: "i < length b \<Longrightarrow> store b i v = Some (b[i := v])"
  by (simp add: store_def)

lemma subslice_Some [simp]:
  "lo \<le> hi \<Longrightarrow> hi \<le> length b \<Longrightarrow> subslice b lo hi = Some (take (hi - lo) (drop lo b))"
  by (simp add: subslice_def)

lemma index_eq_Some_iff: "index b i = Some v \<longleftrightarrow> i < length b \<and> v = b ! i"
  by (auto simp: index_def)

lemma subslice_eq_Some_iff:
  "subslice b lo hi = Some v \<longleftrightarrow> lo \<le> hi \<and> hi \<le> length b \<and> v = take (hi - lo) (drop lo b)"
  by (auto simp: subslice_def)

lemma length_subslice: "subslice b lo hi = Some v \<Longrightarrow> length v = hi - lo"
  by (auto simp: subslice_eq_Some_iff)

lemma copy_at_Some [simp]: "off \<le> length dst \<Longrightarrow> copy_at dst off src = Some (overwrite dst off src)"
  by (simp add: copy_at_def)

lemma length_overwrite [simp, len_simps]: "off \<le> length dst \<Longrightarrow> length (overwrite dst off src) = length dst"
  by (auto simp: overwrite_def)

lemma overwrite_fits:
  "off + length src \<le> length dst \<Longrightarrow>
   overwrite dst off src = take off dst @ src @ drop (off + length src) dst"
  by (simp add: overwrite_def)

lemma overwrite_0_all [simp]: "length src = length dst \<Longrightarrow> overwrite dst 0 src = src"
  by (simp add: overwrite_def)

lemma nth_overwrite_inside:
  "off + length src \<le> length dst \<Longrightarrow> off \<le> i \<Longrightarrow> i < off + length src \<Longrightarrow>
   overwrite dst off src ! i = src ! (i - off)"
  by (subst overwrite_fits, assumption) (simp add: nth_append less_diff_conv2 add.commute)

lemma nth_overwrite_outside:
  "off + length src \<le> length dst \<Longrightarrow> i < off \<or> off + length src \<le> i \<Longrightarrow> i < length dst \<Longrightarrow>
   overwrite dst off src ! i = dst ! i"
  by (auto simp: overwrite_fits nth_append)

lemma list_update_Cons_numeral [simp]: "(x # xs)[numeral n := v] = x # xs[pred_numeral n := v]"
  by (simp add: numeral_eq_Suc)

lemma numeral_le_length_iff:
  "numeral n \<le> length xs \<longleftrightarrow> (\<exists>y ys. xs = y # ys \<and> pred_numeral n \<le> length ys)"
  by (simp add: numeral_eq_Suc Suc_le_length_iff)

section \<open>Big-endian integers in byte slices\<close>

definition be16 :: "u8 \<Rightarrow> u8 \<Rightarrow> u16" where
  "be16 hi lo = push_bit 8 (ucast hi) OR ucast lo"

definition be32 :: "u8 \<Rightarrow> u8 \<Rightarrow> u8 \<Rightarrow> u8 \<Rightarrow> u32" where
  "be32 a b c d =
     push_bit 24 (ucast a) OR push_bit 16 (ucast b) OR push_bit 8 (ucast c) OR ucast d"

text \<open>\<open>binary.BigEndian.Uint16(b[off:])\<close> and its siblings.\<close>

definition get16 :: "bytes \<Rightarrow> nat \<Rightarrow> u16 go" where
  "get16 b off = (if off + 2 \<le> length b then Some (be16 (b ! off) (b ! (off + 1))) else panic)"

definition get32 :: "bytes \<Rightarrow> nat \<Rightarrow> u32 go" where
  "get32 b off = (if off + 4 \<le> length b
     then Some (be32 (b ! off) (b ! (off + 1)) (b ! (off + 2)) (b ! (off + 3))) else panic)"

definition put16 :: "bytes \<Rightarrow> nat \<Rightarrow> u16 \<Rightarrow> bytes go" where
  "put16 b off v = (if off + 2 \<le> length b
     then Some (b[off := ucast (drop_bit 8 v), off + 1 := ucast v]) else panic)"

definition put32 :: "bytes \<Rightarrow> nat \<Rightarrow> u32 \<Rightarrow> bytes go" where
  "put32 b off v = (if off + 4 \<le> length b
     then Some (b[off := ucast (drop_bit 24 v), off + 1 := ucast (drop_bit 16 v),
                  off + 2 := ucast (drop_bit 8 v), off + 3 := ucast v]) else panic)"

lemma be16_split [simp]: "be16 (ucast (drop_bit 8 v)) (ucast v) = v"
  by (rule bit_word_eqI) (auto simp: be16_def bit_simps)

lemma be32_split [simp]:
  "be32 (ucast (drop_bit 24 v)) (ucast (drop_bit 16 v)) (ucast (drop_bit 8 v)) (ucast v) = v"
proof (rule bit_word_eqI)
  fix n
  assume "n < LENGTH(32)"
  then consider "n < 8" | "8 \<le> n \<and> n < 16" | "16 \<le> n \<and> n < 24" | "24 \<le> n \<and> n < 32"
    by fastforce
  then show "bit (be32 (ucast (drop_bit 24 v)) (ucast (drop_bit 16 v)) (ucast (drop_bit 8 v)) (ucast v)) n
             \<longleftrightarrow> bit v n"
    by cases (auto simp: be32_def bit_simps)
qed

lemma be16_hi [simp]: "ucast (drop_bit 8 (be16 a b)) = a"
  by (rule bit_word_eqI) (auto simp: be16_def bit_simps dest: bit_imp_le_length)

lemma be16_lo [simp]: "ucast (be16 a b) = b"
  by (rule bit_word_eqI) (auto simp: be16_def bit_simps)

lemma be32_bytes [simp]:
  "ucast (drop_bit 24 (be32 a b c d)) = a"
  "ucast (drop_bit 16 (be32 a b c d)) = b"
  "ucast (drop_bit 8 (be32 a b c d)) = c"
  "ucast (be32 a b c d) = d"
  by (rule bit_word_eqI, auto simp: be32_def bit_simps dest: bit_imp_le_length)+

lemma get16_Some [simp]: "off + 2 \<le> length b \<Longrightarrow> get16 b off = Some (be16 (b ! off) (b ! (off + 1)))"
  by (simp add: get16_def)

lemma get32_Some [simp]:
  "off + 4 \<le> length b \<Longrightarrow>
   get32 b off = Some (be32 (b ! off) (b ! (off + 1)) (b ! (off + 2)) (b ! (off + 3)))"
  by (simp add: get32_def)

lemma put16_Some [simp]:
  "off + 2 \<le> length b \<Longrightarrow> put16 b off v = Some (b[off := ucast (drop_bit 8 v), off + 1 := ucast v])"
  by (simp add: put16_def)

lemma put32_Some [simp]:
  "off + 4 \<le> length b \<Longrightarrow>
   put32 b off v = Some (b[off := ucast (drop_bit 24 v), off + 1 := ucast (drop_bit 16 v),
                          off + 2 := ucast (drop_bit 8 v), off + 3 := ucast v])"
  by (simp add: put32_def)

lemma length_put16: "put16 b off v = Some b' \<Longrightarrow> length b' = length b"
  by (auto simp: put16_def split: if_splits)

lemma length_put32: "put32 b off v = Some b' \<Longrightarrow> length b' = length b"
  by (auto simp: put32_def split: if_splits)

end
