(* ===== verification/Tcpip.thy ===== *)
theory Tcpip
  imports Prelude
begin

unbundle bit_operations_syntax

text \<open>
  Addresses and protocol numbers: \<open>src/tcpip/address.go\<close> and \<open>src/tcpip/protocol.go\<close>. The
  dotted-decimal printers are modelled on strings; \<open>%d\<close> is the usual decimal expansion.
\<close>

type_synonym Address = u32
type_synonym TransportProtocolNumber = u8

definition ICMPv4ProtocolNumber :: TransportProtocolNumber where
  "ICMPv4ProtocolNumber = 1"

definition TCPProtocolNumber :: TransportProtocolNumber where
  "TCPProtocolNumber = 6"

definition UDPProtocolNumber :: TransportProtocolNumber where
  "UDPProtocolNumber = 17"

definition From4 :: "u8 \<Rightarrow> u8 \<Rightarrow> u8 \<Rightarrow> u8 \<Rightarrow> Address" where
  "From4 a b c d =
     push_bit 24 (ucast a) OR push_bit 16 (ucast b) OR push_bit 8 (ucast c) OR ucast d"

definition To4 :: "Address \<Rightarrow> bytes" where
  "To4 a = [ucast (drop_bit 24 a), ucast (drop_bit 16 a), ucast (drop_bit 8 a), ucast a]"

text \<open>\<open>fmt\<close>'s \<open>%d\<close> on a natural number.\<close>

fun show_nat :: "nat \<Rightarrow> string" where
  "show_nat n = (if n < 10 then [char_of (48 + n)] else show_nat (n div 10) @ [char_of (48 + n mod 10)])"

declare show_nat.simps [simp del]

definition Address_String :: "Address \<Rightarrow> string" where
  "Address_String a = (let b = To4 a in
     show_nat (unat (b ! 0)) @ ''.'' @ show_nat (unat (b ! 1)) @ ''.'' @
     show_nat (unat (b ! 2)) @ ''.'' @ show_nat (unat (b ! 3)))"

record FullAddress =
  fa_Addr :: Address
  fa_Port :: u16

definition FullAddress_String :: "FullAddress \<Rightarrow> string" where
  "FullAddress_String fa = Address_String (fa_Addr fa) @ '':'' @ show_nat (unat (fa_Port fa))"

lemma length_To4 [simp]: "length (To4 a) = 4"
  by (simp add: To4_def)

lemma From4_be32: "From4 a b c d = be32 a b c d"
  by (simp add: From4_def be32_def)

lemma From4_To4: "From4 (To4 x ! 0) (To4 x ! 1) (To4 x ! 2) (To4 x ! 3) = x"
  by (simp add: From4_be32 To4_def)

lemma To4_From4: "To4 (From4 a b c d) = [a, b, c, d]"
  by (simp add: From4_be32 To4_def)

end
