(* ===== verification/Checksum.thy ===== *)
theory Checksum
  imports Tcpip
begin

unbundle bit_operations_syntax

text \<open>
  The internet checksum of \<open>src/header/checksum.go\<close>: the 32-bit accumulator loop, the fold to
  16 bits and the TCP/UDP pseudo header. The lemmas relate the accumulator to the sum of the
  16-bit words of the slice over the natural numbers and show that a slice whose checksum field
  was filled with the computed value sums to zero.
\<close>

section \<open>The code\<close>

fun checksum_sum :: "bytes \<Rightarrow> u32 \<Rightarrow> u32" where
  "checksum_sum (a # b # bs) acc = checksum_sum bs (acc + ucast (be16 a b))"
| "checksum_sum [a] acc = acc + push_bit 8 (ucast a)"
| "checksum_sum [] acc = acc"

function checksum_fold :: "u32 \<Rightarrow> u32" where
  "checksum_fold acc =
     (if acc > 0xffff then checksum_fold (drop_bit 16 acc + (acc AND 0xffff)) else acc)"
  by pat_completeness auto

text \<open>One round of the fold keeps the value modulo 65535 and makes it smaller.\<close>

lemma unat_fold_step:
  "unat (drop_bit 16 s + (s AND 0xffff)) = unat s div 65536 + unat s mod 65536" for s :: u32
proof -
  have hi: "unat (drop_bit 16 s) = unat s div 65536"
    by (simp add: drop_bit_eq_div unat_div)
  have lo: "unat (s AND 0xffff) = unat s mod 65536"
  proof -
    have "s AND 0xffff = s mod 65536"
      using take_bit_eq_mask [of 16 s] by (simp add: mask_eq_exp_minus_1 take_bit_eq_mod)
    then show ?thesis
      by (simp add: unat_mod)
  qed
  have "unat s div 65536 + unat s mod 65536 < 4294967296"
    using div_mult_mod_eq [of "unat s" 65536] unat_u32_less [of s] by linarith
  then show ?thesis
    by (simp add: unat_word_ariths hi lo)
qed

termination checksum_fold
proof (relation "measure unat")
  fix s :: u32
  assume "s > 0xffff"
  then have "unat s > 65535"
    by (simp add: word_less_nat_alt)
  then have "unat s div 65536 + unat s mod 65536 < unat s"
    using div_mult_mod_eq [of "unat s" 65536] mod_less_divisor [of 65536 "unat s"] by linarith
  then show "(drop_bit 16 s + (s AND 0xffff), s) \<in> measure unat"
    by (simp add: unat_fold_step)
qed simp

declare checksum_fold.simps [simp del]

definition Checksum :: "bytes \<Rightarrow> u16 \<Rightarrow> u16" where
  "Checksum b initial = NOT (ucast (checksum_fold (checksum_sum b (ucast initial))))"

text \<open>
  The pseudo header: the 12 bytes are written into a zeroed array, summed, and the complement of
  the sum is undone before it is returned.
\<close>

definition pseudo_header :: "TransportProtocolNumber \<Rightarrow> Address \<Rightarrow> Address \<Rightarrow> u16 \<Rightarrow> bytes go" where
  "pseudo_header proto src dst totalLen = do {
     buf \<leftarrow> copy_at (replicate 12 0) 0 (To4 src);
     buf \<leftarrow> copy_at buf 4 (To4 dst);
     buf \<leftarrow> store buf 8 0;
     buf \<leftarrow> store buf 9 proto;
     put16 buf 10 totalLen }"

definition PseudoHeaderChecksum ::
    "TransportProtocolNumber \<Rightarrow> Address \<Rightarrow> Address \<Rightarrow> u16 \<Rightarrow> u16 go" where
  "PseudoHeaderChecksum proto src dst totalLen = do {
     buf \<leftarrow> pseudo_header proto src dst totalLen;
     let csum = Checksum buf 0;
     Some (NOT csum) }"

section \<open>The sum over the natural numbers\<close>

fun word_sum :: "bytes \<Rightarrow> nat" where
  "word_sum (a # b # bs) = unat a * 256 + unat b + word_sum bs"
| "word_sum [a] = unat a * 256"
| "word_sum [] = 0"

text \<open>One's complement reduction to 16 bits: zero stays zero, other multiples of 65535 become 65535.\<close>

definition oc_fold :: "nat \<Rightarrow> nat" where
  "oc_fold n = (if n = 0 then 0 else if n mod 65535 = 0 then 65535 else n mod 65535)"

lemma unat_be16: "unat (be16 a b) = unat a * 256 + unat b"
proof -
  have "be16 a b = push_bit 8 (ucast a) + ucast b"
    unfolding be16_def
    by (rule disjunctive_add_eq_or [symmetric], rule bit_word_eqI)
       (auto simp: bit_simps dest: bit_imp_le_length)
  also have "\<dots> = ucast a * 256 + ucast b"
    by (simp add: push_bit_eq_mult mult.commute)
  finally show ?thesis
    using unat_u8_less [of a] unat_u8_less [of b] by (simp add: unat_word_ariths)
qed

lemma unat_hi_byte: "unat (push_bit 8 (ucast a) :: u32) = unat a * 256" for a :: u8
  using unat_u8_less [of a] by (simp add: push_bit_eq_mult unat_word_ariths mult.commute)

lemma checksum_sum_exact:
  "unat acc + word_sum b < 2 ^ 32 \<Longrightarrow> unat (checksum_sum b acc) = unat acc + word_sum b"
proof (induction b acc rule: checksum_sum.induct)
  case (1 a b bs acc)
  have up: "unat (ucast (be16 a b) :: u32) = unat a * 256 + unat b"
    by (simp add: unat_be16)
  have "unat (acc + ucast (be16 a b)) = unat acc + (unat a * 256 + unat b)"
    using "1.prems" up by (simp add: unat_word_ariths)
  with 1 show ?case
    by simp
next
  case (2 a acc)
  then show ?case
    by (simp add: unat_word_ariths unat_hi_byte)
qed simp

lemma word_sum_bound: "2 * word_sum b \<le> 65535 * (length b + 1)"
proof (induction b rule: word_sum.induct)
  case (1 a b bs)
  then show ?case
    using unat_u8_less [of a] unat_u8_less [of b] by simp
next
  case (2 a)
  then show ?case
    using unat_u8_less [of a] by simp
qed simp

lemma word_sum_append: "even (length xs) \<Longrightarrow> word_sum (xs @ ys) = word_sum xs + word_sum ys"
  by (induction xs rule: word_sum.induct) auto

lemma word_sum_update:
  "even off \<Longrightarrow> off + 1 < length b \<Longrightarrow> b ! off = 0 \<Longrightarrow> b ! (off + 1) = 0 \<Longrightarrow>
   word_sum (b[off := x, off + 1 := y]) = word_sum b + unat x * 256 + unat y"
proof (induction b arbitrary: off rule: word_sum.induct)
  case (1 p q bs)
  show ?case
  proof (cases "off = 0")
    case True
    with 1 show ?thesis by simp
  next
    case False
    with "1.prems"(1) obtain m where "off = 2 * m" "m \<noteq> 0"
      by (auto elim: evenE)
    then obtain k where k: "off = Suc (Suc k)" "even k"
      by (cases m) auto
    have "word_sum (bs[k := x, k + 1 := y]) = word_sum bs + unat x * 256 + unat y"
      using "1.prems" k by (intro "1.IH") auto
    then show ?thesis by (simp add: k)
  qed
qed simp_all

lemma mod_65535_split: "(h * 65536 + l) mod 65535 = (h + l) mod 65535" for h l :: nat
proof -
  have "h * 65536 + l = (h + l) + h * 65535"
    by simp
  then show ?thesis
    by (simp only: mod_mult_self1)
qed

lemma oc_fold_cong: "a mod 65535 = b mod 65535 \<Longrightarrow> (a = 0 \<longleftrightarrow> b = 0) \<Longrightarrow> oc_fold a = oc_fold b"
  by (simp add: oc_fold_def)

lemma oc_fold_step: "n > 65535 \<Longrightarrow> oc_fold (n div 65536 + n mod 65536) = oc_fold n"
proof -
  assume n: "n > 65535"
  have "(n div 65536 + n mod 65536) mod 65535 = n mod 65535"
    using mod_65535_split [of "n div 65536" "n mod 65536"] by simp
  moreover have "n div 65536 + n mod 65536 \<noteq> 0"
    using n div_mult_mod_eq [of n 65536] by linarith
  ultimately show ?thesis
    using n by (intro oc_fold_cong) auto
qed

lemma checksum_fold_eq: "unat (checksum_fold s) = oc_fold (unat s)"
proof (induction s rule: checksum_fold.induct)
  case (1 s)
  show ?case
  proof (cases "s > 0xffff")
    case True
    then have "unat s > 65535"
      by (simp add: word_less_nat_alt)
    with True 1 show ?thesis
      by (simp add: checksum_fold.simps [of s] unat_fold_step oc_fold_step)
  next
    case False
    then have "unat s \<le> 65535"
      by (simp add: word_less_nat_alt)
    with False show ?thesis
      by (auto simp: checksum_fold.simps [of s] oc_fold_def le_less)
  qed
qed

lemma oc_fold_le: "oc_fold n \<le> 65535"
  using mod_less_divisor [of 65535 n] by (simp add: oc_fold_def less_imp_le)

lemma oc_fold_mod: "oc_fold n mod 65535 = n mod 65535"
  by (simp add: oc_fold_def)

lemma oc_fold_0_iff: "oc_fold n = 0 \<longleftrightarrow> n = 0"
  by (auto simp: oc_fold_def)

lemma oc_fold_add: "oc_fold (oc_fold a + b) = oc_fold (a + b)"
proof (rule oc_fold_cong)
  have "(oc_fold a + b) mod 65535 = (oc_fold a mod 65535 + b) mod 65535"
    by (simp only: mod_add_left_eq)
  also have "\<dots> = (a + b) mod 65535"
    by (simp only: oc_fold_mod mod_add_left_eq)
  finally show "(oc_fold a + b) mod 65535 = (a + b) mod 65535" .
qed (simp add: oc_fold_0_iff)

section \<open>What the checksum computes\<close>

lemma Checksum_exact:
  assumes "length b \<le> 131068"
  shows "unat (Checksum b initial) = 65535 - oc_fold (unat initial + word_sum b)"
proof -
  have "unat initial + word_sum b < 2 ^ 32"
    using word_sum_bound [of b] unat_u16_less [of initial] assms by simp
  then have "unat (checksum_sum b (ucast initial)) = unat initial + word_sum b"
    using checksum_sum_exact [of "ucast initial" b] by simp
  then have f: "unat (checksum_fold (checksum_sum b (ucast initial))) = oc_fold (unat initial + word_sum b)"
    by (simp add: checksum_fold_eq)
  have "unat (ucast (checksum_fold (checksum_sum b (ucast initial))) :: u16)
        = oc_fold (unat initial + word_sum b)"
    using oc_fold_le [of "unat initial + word_sum b"]
    by (simp add: unsigned_ucast_eq f take_bit_nat_eq_self_iff)
  then show ?thesis
    by (simp add: Checksum_def unat_not16)
qed

lemma unat_hi_lo: "unat (ucast (drop_bit 8 v) :: u8) * 256 + unat (ucast v :: u8) = unat v" for v :: u16
  using unat_be16 [of "ucast (drop_bit 8 v)" "ucast v"] by simp

lemma Checksum_0_iff:
  assumes "length b \<le> 131068"
  shows "Checksum b initial = 0 \<longleftrightarrow>
     unat initial + word_sum b \<noteq> 0 \<and> (unat initial + word_sum b) mod 65535 = 0"
proof -
  have "Checksum b initial = 0 \<longleftrightarrow> unat (Checksum b initial) = 0"
    by (simp add: unat_eq_zero)
  also have "\<dots> \<longleftrightarrow> oc_fold (unat initial + word_sum b) = 65535"
    using oc_fold_le [of "unat initial + word_sum b"] unfolding Checksum_exact [OF assms] by auto
  also have "\<dots> \<longleftrightarrow> unat initial + word_sum b \<noteq> 0 \<and> (unat initial + word_sum b) mod 65535 = 0"
    using mod_less_divisor [of 65535 "unat initial + word_sum b"] by (auto simp: oc_fold_def)
  finally show ?thesis .
qed

text \<open>Filling a zeroed checksum field with the checksum of the slice makes the slice sum to zero.\<close>

lemma Checksum_fill:
  assumes off: "even off" "off + 2 \<le> length b" and len: "length b \<le> 131068"
    and zero: "b ! off = 0" "b ! (off + 1) = 0"
  shows "put16 b off (Checksum b initial) \<bind> (\<lambda>b'. Some (Checksum b' initial)) = Some 0"
proof -
  let ?n = "unat initial + word_sum b" and ?c = "Checksum b initial"
  let ?b = "b[off := ucast (drop_bit 8 ?c), off + 1 := ucast ?c]"
  have "word_sum ?b = word_sum b + unat ?c"
    using word_sum_update [of off b] off zero unat_hi_lo [of ?c] by simp
  then have n: "unat initial + word_sum ?b = ?n + (65535 - oc_fold ?n)"
    by (simp add: Checksum_exact [OF len])
  have "(?n + (65535 - oc_fold ?n)) mod 65535 = (oc_fold ?n + (65535 - oc_fold ?n)) mod 65535"
    by (subst (1 2) mod_add_left_eq [symmetric]) (simp only: oc_fold_mod)
  also have "\<dots> = 0"
    using oc_fold_le [of ?n] by simp
  finally have "(unat initial + word_sum ?b) mod 65535 = 0"
    by (simp only: n)
  moreover have "unat initial + word_sum ?b \<noteq> 0"
    unfolding n using oc_fold_0_iff [of ?n] by auto
  ultimately have "Checksum ?b initial = 0"
    using len by (simp add: Checksum_0_iff)
  with off show ?thesis
    by simp
qed


section \<open>The pseudo header\<close>

lemma pseudo_header_eq:
  "pseudo_header proto src dst totalLen =
     Some (To4 src @ To4 dst @ [0, proto, ucast (drop_bit 8 totalLen), ucast totalLen])"
  by (simp add: pseudo_header_def To4_def overwrite_def numeral_eq_Suc)

lemma PseudoHeaderChecksum_Some:
  "\<exists>v. PseudoHeaderChecksum proto src dst totalLen = Some v"
  by (simp add: PseudoHeaderChecksum_def pseudo_header_eq)

lemma unat_PseudoHeaderChecksum:
  assumes "PseudoHeaderChecksum proto src dst totalLen = Some v"
    and "pseudo_header proto src dst totalLen = Some ph"
  shows "unat v = oc_fold (word_sum ph)"
proof -
  have "length ph = 12"
    using assms(2) by (auto simp: pseudo_header_eq To4_def)
  moreover have "v = NOT (Checksum ph 0)"
    using assms by (simp add: PseudoHeaderChecksum_def)
  ultimately show ?thesis
    using oc_fold_le [of "word_sum ph"] by (simp add: unat_not16 Checksum_exact)
qed

text \<open>
  Seeding the segment's checksum with the pseudo-header value is the checksum of the pseudo
  header followed by the segment.
\<close>

lemma Checksum_pseudo:
  assumes "PseudoHeaderChecksum proto src dst totalLen = Some v"
    and "pseudo_header proto src dst totalLen = Some ph"
    and "length b \<le> 131000"
  shows "Checksum b v = Checksum (ph @ b) 0"
proof -
  have len: "length ph = 12"
    using assms(2) by (auto simp: pseudo_header_eq To4_def)
  have "unat (Checksum b v) = 65535 - oc_fold (oc_fold (word_sum ph) + word_sum b)"
    using assms(3) by (simp add: Checksum_exact unat_PseudoHeaderChecksum [OF assms(1,2)])
  also have "\<dots> = 65535 - oc_fold (word_sum (ph @ b))"
    by (simp add: oc_fold_add word_sum_append len)
  also have "\<dots> = unat (Checksum (ph @ b) 0)"
    using assms(3) len by (simp add: Checksum_exact)
  finally show ?thesis
    by (simp add: unsigned_word_eqI)
qed

end
