(* ===== verification/Codec.thy ===== *)
theory Codec
  imports Prelude
begin

text \<open>
  The contract of a fixed-size header codec: \<open>enc b f\<close> writes the fields \<open>f\<close> over the first \<open>size\<close>
  bytes of \<open>b\<close>, \<open>dec\<close> reads them back through the accessors. The buffers come out of a pool with
  stale contents, so a client relies on every header byte being overwritten and on no byte behind
  the header being touched.
\<close>

locale header_codec =
  fixes size :: nat
    and enc :: "bytes \<Rightarrow> 'f \<Rightarrow> bytes go"
    and dec :: "bytes \<Rightarrow> 'f go"
    and wire :: "'f \<Rightarrow> bytes"
    and valid :: "'f \<Rightarrow> bool"
  assumes length_wire: "length (wire f) = size"
    and enc_wire: "size \<le> length b \<Longrightarrow> enc b f = Some (wire f @ drop size b)"
    and enc_short: "length b < size \<Longrightarrow> enc b f = panic"
    and dec_wire: "valid f \<Longrightarrow> dec (wire f @ r) = Some f"
begin

lemma enc_dec:
  assumes "valid f" and "enc b f = Some b'"
  shows "dec b' = Some f"
proof -
  have "size \<le> length b"
    using assms(2) enc_short by (cases "size \<le> length b") auto
  with assms show ?thesis
    by (auto simp: enc_wire dec_wire)
qed

lemma enc_length: "enc b f = Some b' \<Longrightarrow> length b' = length b"
  by (cases "size \<le> length b") (auto simp: enc_wire enc_short length_wire)

lemma enc_frame: "enc b f = Some b' \<Longrightarrow> drop size b' = drop size b"
  by (cases "size \<le> length b") (auto simp: enc_wire enc_short length_wire)

lemma enc_overwrites:
  "length b = size \<Longrightarrow> length c = size \<Longrightarrow> enc b f = enc c f"
  by (simp add: enc_wire)

lemma enc_total: "(\<exists>b'. enc b f = Some b') \<longleftrightarrow> size \<le> length b"
  by (cases "size \<le> length b") (auto simp: enc_wire enc_short)

lemma enc_enc: "enc b f = Some b' \<Longrightarrow> enc b' g = enc b g"
  by (cases "size \<le> length b") (auto simp: enc_wire enc_short length_wire)

end

end
