(* ===== verification/IPv4.thy ===== *)
theory IPv4
  imports Checksum Codec
begin

unbundle bit_operations_syntax

text \<open>
  The IPv4 header view of \<open>src/header/ipv4.go\<close>: accessors, setters and \<open>Encode\<close>. Every accessor
  keeps Go's bounds checks, so reading past a short slice is a panic.
\<close>

definition IPv4MinHeaderSize :: nat where
  "IPv4MinHeaderSize = 20"

definition IPv4FlagMoreFragments :: u8 where
  "IPv4FlagMoreFragments = 1"

definition IPv4FlagDontFragment :: u8 where
  "IPv4FlagDontFragment = 2"

record IPv4Fields =
  ip_TOS :: u8
  ip_TotalLength :: u16
  ip_ID :: u16
  ip_Flags :: u8
  ip_FragmentOffset :: u16
  ip_TTL :: u8
  ip_Protocol :: TransportProtocolNumber
  ip_Checksum :: u16
  ip_SrcAddr :: Address
  ip_DstAddr :: Address

section \<open>Accessors\<close>

definition IPv4_HeaderLength :: "bytes \<Rightarrow> nat go" where
  "IPv4_HeaderLength b = do { x \<leftarrow> index b 0; Some (unat (x AND 0x0f) * 4) }"

definition IPv4_TotalLength :: "bytes \<Rightarrow> u16 go" where
  "IPv4_TotalLength b = get16 b 2"

definition IPv4_Protocol :: "bytes \<Rightarrow> TransportProtocolNumber go" where
  "IPv4_Protocol b = index b 9"

definition IPv4_SourceAddress :: "bytes \<Rightarrow> Address go" where
  "IPv4_SourceAddress b = get32 b 12"

definition IPv4_DestinationAddress :: "bytes \<Rightarrow> Address go" where
  "IPv4_DestinationAddress b = get32 b 16"

definition IPv4_TTL :: "bytes \<Rightarrow> u8 go" where
  "IPv4_TTL b = index b 8"

definition IPv4_Checksum :: "bytes \<Rightarrow> u16 go" where
  "IPv4_Checksum b = get16 b 10"

definition IPv4_ID :: "bytes \<Rightarrow> u16 go" where
  "IPv4_ID b = get16 b 4"

definition IPv4_Flags :: "bytes \<Rightarrow> u8 go" where
  "IPv4_Flags b = do { x \<leftarrow> index b 6; Some (drop_bit 5 x) }"

definition IPv4_More :: "bytes \<Rightarrow> bool go" where
  "IPv4_More b = do { f \<leftarrow> IPv4_Flags b; Some (f AND IPv4FlagMoreFragments \<noteq> 0) }"

definition IPv4_FragmentOffset :: "bytes \<Rightarrow> u16 go" where
  "IPv4_FragmentOffset b = do { x \<leftarrow> get16 b 6; Some (x AND 0x1fff) }"

definition IPv4_TOS :: "bytes \<Rightarrow> u8 go" where
  "IPv4_TOS b = index b 1"

section \<open>Setters\<close>

definition IPv4_SetTotalLength :: "bytes \<Rightarrow> u16 \<Rightarrow> bytes go" where
  "IPv4_SetTotalLength b len = put16 b 2 len"

definition IPv4_SetProtocol :: "bytes \<Rightarrow> TransportProtocolNumber \<Rightarrow> bytes go" where
  "IPv4_SetProtocol b proto = store b 9 proto"

definition IPv4_SetSourceAddress :: "bytes \<Rightarrow> Address \<Rightarrow> bytes go" where
  "IPv4_SetSourceAddress b addr = put32 b 12 addr"

definition IPv4_SetDestinationAddress :: "bytes \<Rightarrow> Address \<Rightarrow> bytes go" where
  "IPv4_SetDestinationAddress b addr = put32 b 16 addr"

definition IPv4_SetTTL :: "bytes \<Rightarrow> u8 \<Rightarrow> bytes go" where
  "IPv4_SetTTL b ttl = store b 8 ttl"

definition IPv4_SetChecksum :: "bytes \<Rightarrow> u16 \<Rightarrow> bytes go" where
  "IPv4_SetChecksum b v = put16 b 10 v"

definition IPv4_SetID :: "bytes \<Rightarrow> u16 \<Rightarrow> bytes go" where
  "IPv4_SetID b i = put16 b 4 i"

definition IPv4_SetFlags :: "bytes \<Rightarrow> u8 \<Rightarrow> bytes go" where
  "IPv4_SetFlags b flags = do {
     x \<leftarrow> index b 6;
     store b 6 (push_bit 5 flags OR (x AND 0x1f)) }"

text \<open>The expression \<open>uint16(flags)<<13 | (offset & 0x1fff)\<close> of the two writers below.\<close>

definition flagsFrag :: "u8 \<Rightarrow> u16 \<Rightarrow> u16" where
  "flagsFrag flags off = push_bit 13 (ucast flags) OR (off AND 0x1fff)"

definition IPv4_SetFlagsFragmentOffset :: "bytes \<Rightarrow> u8 \<Rightarrow> u16 \<Rightarrow> bytes go" where
  "IPv4_SetFlagsFragmentOffset b flags off =
     put16 b 6 (flagsFrag flags off)"

definition IPv4_Encode :: "bytes \<Rightarrow> IPv4Fields \<Rightarrow> bytes go" where
  "IPv4_Encode b f = do {
     b \<leftarrow> store b 0 (push_bit 4 4 OR 5);
     b \<leftarrow> store b 1 (ip_TOS f);
     b \<leftarrow> put16 b 2 (ip_TotalLength f);
     b \<leftarrow> put16 b 4 (ip_ID f);
     b \<leftarrow> put16 b 6 (flagsFrag (ip_Flags f) (ip_FragmentOffset f));
     b \<leftarrow> store b 8 (ip_TTL f);
     b \<leftarrow> store b 9 (ip_Protocol f);
     b \<leftarrow> put16 b 10 (ip_Checksum f);
     b \<leftarrow> put32 b 12 (ip_SrcAddr f);
     put32 b 16 (ip_DstAddr f) }"

definition IPv4_Payload :: "bytes \<Rightarrow> bytes go" where
  "IPv4_Payload b = do { hdrLen \<leftarrow> IPv4_HeaderLength b; slice_from b hdrLen }"

lemmas IPv4_get_defs =
  IPv4_HeaderLength_def IPv4_TotalLength_def IPv4_Protocol_def IPv4_SourceAddress_def
  IPv4_DestinationAddress_def IPv4_TTL_def IPv4_Checksum_def IPv4_ID_def IPv4_Flags_def
  IPv4_More_def IPv4_FragmentOffset_def IPv4_TOS_def

lemmas IPv4_set_defs =
  IPv4_SetTotalLength_def IPv4_SetProtocol_def IPv4_SetSourceAddress_def
  IPv4_SetDestinationAddress_def IPv4_SetTTL_def IPv4_SetChecksum_def IPv4_SetID_def
  IPv4_SetFlags_def IPv4_SetFlagsFragmentOffset_def

section \<open>Flags and fragment offset\<close>

lemma low13_mask: "(0x1fff :: u16) = mask 13"
  by (simp add: mask_eq_exp_minus_1)

lemma flags_of_word:
  "drop_bit 5 (ucast (drop_bit 8 (flagsFrag flags off)) :: u8) = take_bit 3 flags"
  unfolding flagsFrag_def low13_mask by (rule bit_word_eqI) (auto simp: bit_simps)

lemma offset_of_word: "flagsFrag flags off AND 0x1fff = off AND 0x1fff"
  unfolding flagsFrag_def low13_mask by (rule bit_word_eqI) (auto simp: bit_simps)

section \<open>Reading back what Encode wrote\<close>

definition IPv4_fields :: "bytes \<Rightarrow> IPv4Fields go" where
  "IPv4_fields b = do {
     tos \<leftarrow> IPv4_TOS b; tl \<leftarrow> IPv4_TotalLength b; i \<leftarrow> IPv4_ID b; fl \<leftarrow> IPv4_Flags b;
     fo \<leftarrow> IPv4_FragmentOffset b; ttl \<leftarrow> IPv4_TTL b; p \<leftarrow> IPv4_Protocol b; ck \<leftarrow> IPv4_Checksum b;
     s \<leftarrow> IPv4_SourceAddress b; d \<leftarrow> IPv4_DestinationAddress b;
     Some \<lparr>ip_TOS = tos, ip_TotalLength = tl, ip_ID = i, ip_Flags = fl, ip_FragmentOffset = fo,
           ip_TTL = ttl, ip_Protocol = p, ip_Checksum = ck, ip_SrcAddr = s, ip_DstAddr = d\<rparr> }"

definition IPv4_valid :: "IPv4Fields \<Rightarrow> bool" where
  "IPv4_valid f \<longleftrightarrow> take_bit 3 (ip_Flags f) = ip_Flags f \<and> ip_FragmentOffset f AND 0x1fff = ip_FragmentOffset f"

definition IPv4_wire :: "IPv4Fields \<Rightarrow> bytes" where
  "IPv4_wire f = (let ff = flagsFrag (ip_Flags f) (ip_FragmentOffset f) in
     [0x45, ip_TOS f, ucast (drop_bit 8 (ip_TotalLength f)), ucast (ip_TotalLength f),
      ucast (drop_bit 8 (ip_ID f)), ucast (ip_ID f), ucast (drop_bit 8 ff), ucast ff,
      ip_TTL f, ip_Protocol f, ucast (drop_bit 8 (ip_Checksum f)), ucast (ip_Checksum f)]
     @ To4 (ip_SrcAddr f) @ To4 (ip_DstAddr f))"

lemma length_IPv4_wire [simp]: "length (IPv4_wire f) = 20"
  by (simp add: IPv4_wire_def Let_def)

lemma IPv4_Encode_wire: "20 \<le> length b \<Longrightarrow> IPv4_Encode b f = Some (IPv4_wire f @ drop 20 b)"
  by (auto simp: numeral_le_length_iff Suc_le_length_iff IPv4_Encode_def IPv4_wire_def To4_def Let_def)

lemma IPv4_Encode_short: "length b < 20 \<Longrightarrow> IPv4_Encode b f = panic"
  by (simp add: IPv4_Encode_def store_def put16_def put32_def)

lemma IPv4_fields_wire: "IPv4_valid f \<Longrightarrow> IPv4_fields (IPv4_wire f @ r) = Some f"
  by (simp add: IPv4_fields_def IPv4_get_defs IPv4_wire_def To4_def Let_def flags_of_word offset_of_word
      IPv4_valid_def)

interpretation ipv4_codec: header_codec 20 IPv4_Encode IPv4_fields IPv4_wire IPv4_valid
  by unfold_locales (simp_all add: IPv4_Encode_wire IPv4_Encode_short IPv4_fields_wire)

lemma IPv4_HeaderLength_wire: "IPv4_HeaderLength (IPv4_wire f @ r) = Some 20"
  by (simp add: IPv4_HeaderLength_def IPv4_wire_def Let_def)

end
