(* ===== verification/UDPHeader.thy ===== *)
theory UDPHeader
  imports Codec
begin

unbundle bit_operations_syntax

text \<open>The UDP and ICMPv4 header views: \<open>src/header/udp.go\<close> and \<open>src/header/icmp.go\<close>.\<close>

section \<open>UDP\<close>

definition UDPHeaderSize :: nat where
  "UDPHeaderSize = 8"

record UDPFields =
  udp_SrcPort :: u16
  udp_DstPort :: u16
  udp_Length :: u16
  udp_Checksum :: u16

definition UDP_SourcePort :: "bytes \<Rightarrow> u16 go" where
  "UDP_SourcePort b = get16 b 0"

definition UDP_DestinationPort :: "bytes \<Rightarrow> u16 go" where
  "UDP_DestinationPort b = get16 b 2"

definition UDP_Length :: "bytes \<Rightarrow> u16 go" where
  "UDP_Length b = get16 b 4"

definition UDP_Checksum :: "bytes \<Rightarrow> u16 go" where
  "UDP_Checksum b = get16 b 6"

definition UDP_SetSourcePort :: "bytes \<Rightarrow> u16 \<Rightarrow> bytes go" where
  "UDP_SetSourcePort b port = put16 b 0 port"

definition UDP_SetDestinationPort :: "bytes \<Rightarrow> u16 \<Rightarrow> bytes go" where
  "UDP_SetDestinationPort b port = put16 b 2 port"

definition UDP_SetLength :: "bytes \<Rightarrow> u16 \<Rightarrow> bytes go" where
  "UDP_SetLength b len = put16 b 4 len"

definition UDP_SetChecksum :: "bytes \<Rightarrow> u16 \<Rightarrow> bytes go" where
  "UDP_SetChecksum b v = put16 b 6 v"

definition UDP_Payload :: "bytes \<Rightarrow> bytes go" where
  "UDP_Payload b = slice_from b UDPHeaderSize"

definition UDP_Encode :: "bytes \<Rightarrow> UDPFields \<Rightarrow> bytes go" where
  "UDP_Encode b f = do {
     b \<leftarrow> put16 b 0 (udp_SrcPort f);
     b \<leftarrow> put16 b 2 (udp_DstPort f);
     b \<leftarrow> put16 b 4 (udp_Length f);
     put16 b 6 (udp_Checksum f) }"

lemmas UDP_get_defs = UDP_SourcePort_def UDP_DestinationPort_def UDP_Length_def UDP_Checksum_def

definition UDP_fields :: "bytes \<Rightarrow> UDPFields go" where
  "UDP_fields b = do {
     s \<leftarrow> UDP_SourcePort b; d \<leftarrow> UDP_DestinationPort b; l \<leftarrow> UDP_Length b; c \<leftarrow> UDP_Checksum b;
     Some \<lparr>udp_SrcPort = s, udp_DstPort = d, udp_Length = l, udp_Checksum = c\<rparr> }"

definition UDP_wire :: "UDPFields \<Rightarrow> bytes" where
  "UDP_wire f =
     [ucast (drop_bit 8 (udp_SrcPort f)), ucast (udp_SrcPort f),
      ucast (drop_bit 8 (udp_DstPort f)), ucast (udp_DstPort f),
      ucast (drop_bit 8 (udp_Length f)), ucast (udp_Length f),
      ucast (drop_bit 8 (udp_Checksum f)), ucast (udp_Checksum f)]"

lemma length_UDP_wire [simp]: "length (UDP_wire f) = 8"
  by (simp add: UDP_wire_def)

lemma UDP_Encode_wire: "8 \<le> length b \<Longrightarrow> UDP_Encode b f = Some (UDP_wire f @ drop 8 b)"
  by (auto simp: numeral_le_length_iff Suc_le_length_iff UDP_Encode_def UDP_wire_def)

lemma UDP_Encode_short: "length b < 8 \<Longrightarrow> UDP_Encode b f = panic"
  by (simp add: UDP_Encode_def put16_def)

lemma UDP_fields_wire: "UDP_fields (UDP_wire f @ r) = Some f"
  by (simp add: UDP_fields_def UDP_get_defs UDP_wire_def)

interpretation udp_codec: header_codec 8 UDP_Encode UDP_fields UDP_wire "\<lambda>_. True"
  by unfold_locales (simp_all add: UDP_Encode_wire UDP_Encode_short UDP_fields_wire)

section \<open>ICMPv4\<close>

definition ICMPv4HeaderSize :: nat where
  "ICMPv4HeaderSize = 8"

definition ICMPv4EchoReply :: u8 where
  "ICMPv4EchoReply = 0"

definition ICMPv4Echo :: u8 where
  "ICMPv4Echo = 8"

record ICMPv4Fields =
  icmp_Type :: u8
  icmp_Code :: u8
  icmp_Checksum :: u16
  icmp_Ident :: u16
  icmp_Sequence :: u16

definition ICMPv4_Type :: "bytes \<Rightarrow> u8 go" where
  "ICMPv4_Type b = index b 0"

definition ICMPv4_Code :: "bytes \<Rightarrow> u8 go" where
  "ICMPv4_Code b = index b 1"

definition ICMPv4_Checksum :: "bytes \<Rightarrow> u16 go" where
  "ICMPv4_Checksum b = get16 b 2"

definition ICMPv4_Ident :: "bytes \<Rightarrow> u16 go" where
  "ICMPv4_Ident b = get16 b 4"

definition ICMPv4_Sequence :: "bytes \<Rightarrow> u16 go" where
  "ICMPv4_Sequence b = get16 b 6"

definition ICMPv4_SetType :: "bytes \<Rightarrow> u8 \<Rightarrow> bytes go" where
  "ICMPv4_SetType b typ = store b 0 typ"

definition ICMPv4_SetCode :: "bytes \<Rightarrow> u8 \<Rightarrow> bytes go" where
  "ICMPv4_SetCode b code = store b 1 code"

definition ICMPv4_SetChecksum :: "bytes \<Rightarrow> u16 \<Rightarrow> bytes go" where
  "ICMPv4_SetChecksum b v = put16 b 2 v"

definition ICMPv4_SetIdent :: "bytes \<Rightarrow> u16 \<Rightarrow> bytes go" where
  "ICMPv4_SetIdent b i = put16 b 4 i"

definition ICMPv4_SetSequence :: "bytes \<Rightarrow> u16 \<Rightarrow> bytes go" where
  "ICMPv4_SetSequence b s = put16 b 6 s"

definition ICMPv4_Payload :: "bytes \<Rightarrow> bytes go" where
  "ICMPv4_Payload b = slice_from b ICMPv4HeaderSize"

definition ICMPv4_Encode :: "bytes \<Rightarrow> ICMPv4Fields \<Rightarrow> bytes go" where
  "ICMPv4_Encode b f = do {
     b \<leftarrow> store b 0 (icmp_Type f);
     b \<leftarrow> store b 1 (icmp_Code f);
     b \<leftarrow> put16 b 2 (icmp_Checksum f);
     b \<leftarrow> put16 b 4 (icmp_Ident f);
     put16 b 6 (icmp_Sequence f) }"

lemmas ICMPv4_get_defs =
  ICMPv4_Type_def ICMPv4_Code_def ICMPv4_Checksum_def ICMPv4_Ident_def ICMPv4_Sequence_def

definition ICMPv4_fields :: "bytes \<Rightarrow> ICMPv4Fields go" where
  "ICMPv4_fields b = do {
     t \<leftarrow> ICMPv4_Type b; c \<leftarrow> ICMPv4_Code b; k \<leftarrow> ICMPv4_Checksum b; i \<leftarrow> ICMPv4_Ident b;
     s \<leftarrow> ICMPv4_Sequence b;
     Some \<lparr>icmp_Type = t, icmp_Code = c, icmp_Checksum = k, icmp_Ident = i, icmp_Sequence = s\<rparr> }"

definition ICMPv4_wire :: "ICMPv4Fields \<Rightarrow> bytes" where
  "ICMPv4_wire f =
     [icmp_Type f, icmp_Code f, ucast (drop_bit 8 (icmp_Checksum f)), ucast (icmp_Checksum f),
      ucast (drop_bit 8 (icmp_Ident f)), ucast (icmp_Ident f),
      ucast (drop_bit 8 (icmp_Sequence f)), ucast (icmp_Sequence f)]"

lemma length_ICMPv4_wire [simp]: "length (ICMPv4_wire f) = 8"
  by (simp add: ICMPv4_wire_def)

lemma ICMPv4_Encode_wire: "8 \<le> length b \<Longrightarrow> ICMPv4_Encode b f = Some (ICMPv4_wire f @ drop 8 b)"
  by (auto simp: numeral_le_length_iff Suc_le_length_iff ICMPv4_Encode_def ICMPv4_wire_def)

lemma ICMPv4_Encode_short: "length b < 8 \<Longrightarrow> ICMPv4_Encode b f = panic"
  by (simp add: ICMPv4_Encode_def store_def put16_def)

lemma ICMPv4_fields_wire: "ICMPv4_fields (ICMPv4_wire f @ r) = Some f"
  by (simp add: ICMPv4_fields_def ICMPv4_get_defs ICMPv4_wire_def)

interpretation icmp_codec: header_codec 8 ICMPv4_Encode ICMPv4_fields ICMPv4_wire "\<lambda>_. True"
  by unfold_locales (simp_all add: ICMPv4_Encode_wire ICMPv4_Encode_short ICMPv4_fields_wire)

end
