(* ===== verification/TCPHeader.thy ===== *)
theory TCPHeader
  imports Checksum Codec
begin

unbundle bit_operations_syntax

text \<open>
  The TCP header view and the option codecs of \<open>src/header/tcp.go\<close>. The option parsers are
  modelled with the index variable of the loop; the encoders take the target slice and return it
  updated together with the number of bytes written.
\<close>

definition TCPMinHeaderSize :: nat where
  "TCPMinHeaderSize = 20"

definition TCPMaxSACKBlocks :: nat where
  "TCPMaxSACKBlocks = 4"

definition MaxWndScale :: nat where
  "MaxWndScale = 14"

section \<open>Flags\<close>

definition TCPFlagFIN :: u8 where "TCPFlagFIN = 1"
definition TCPFlagSYN :: u8 where "TCPFlagSYN = 2"
definition TCPFlagRST :: u8 where "TCPFlagRST = 4"
definition TCPFlagPSH :: u8 where "TCPFlagPSH = 8"
definition TCPFlagACK :: u8 where "TCPFlagACK = 16"
definition TCPFlagURG :: u8 where "TCPFlagURG = 32"

lemmas TCPFlag_defs =
  TCPFlagFIN_def TCPFlagSYN_def TCPFlagRST_def TCPFlagPSH_def TCPFlagACK_def TCPFlagURG_def

definition Has :: "u8 \<Rightarrow> u8 \<Rightarrow> bool" where
  "Has f m \<longleftrightarrow> f AND m = m"

definition Contains :: "u8 \<Rightarrow> u8 \<Rightarrow> bool" where
  "Contains f m = Has f m"

fun join :: "string \<Rightarrow> string list \<Rightarrow> string" where
  "join sep [] = ''''"
| "join sep [p] = p"
| "join sep (p # ps) = p @ sep @ join sep ps"

definition TCPFlags_String :: "u8 \<Rightarrow> string" where
  "TCPFlags_String f =
     (let parts = (if Has f TCPFlagFIN then [''FIN''] else [])
                @ (if Has f TCPFlagSYN then [''SYN''] else [])
                @ (if Has f TCPFlagRST then [''RST''] else [])
                @ (if Has f TCPFlagPSH then [''PSH''] else [])
                @ (if Has f TCPFlagACK then [''ACK''] else [])
                @ (if Has f TCPFlagURG then [''URG''] else [])
      in if parts = [] then ''none'' else join ''|'' parts)"

section \<open>The fixed header\<close>

record TCPFields =
  tcp_SrcPort :: u16
  tcp_DstPort :: u16
  tcp_SeqNum :: u32
  tcp_AckNum :: u32
  tcp_DataOffset :: u8
  tcp_Flags :: u8
  tcp_WindowSize :: u16
  tcp_Checksum :: u16
  tcp_UrgentPointer :: u16

definition TCP_SourcePort :: "bytes \<Rightarrow> u16 go" where
  "TCP_SourcePort b = get16 b 0"

definition TCP_DestinationPort :: "bytes \<Rightarrow> u16 go" where
  "TCP_DestinationPort b = get16 b 2"

definition TCP_SequenceNumber :: "bytes \<Rightarrow> u32 go" where
  "TCP_SequenceNumber b = get32 b 4"

definition TCP_AckNumber :: "bytes \<Rightarrow> u32 go" where
  "TCP_AckNumber b = get32 b 8"

definition TCP_DataOffset :: "bytes \<Rightarrow> u8 go" where
  "TCP_DataOffset b = do { x \<leftarrow> index b 12; Some (drop_bit 4 x * 4) }"

definition TCP_Flags :: "bytes \<Rightarrow> u8 go" where
  "TCP_Flags b = do { x \<leftarrow> index b 13; Some (x AND 0x3f) }"

definition TCP_WindowSize :: "bytes \<Rightarrow> u16 go" where
  "TCP_WindowSize b = get16 b 14"

definition TCP_Checksum :: "bytes \<Rightarrow> u16 go" where
  "TCP_Checksum b = get16 b 16"

definition TCP_UrgentPointer :: "bytes \<Rightarrow> u16 go" where
  "TCP_UrgentPointer b = get16 b 18"

definition TCP_SetSourcePort :: "bytes \<Rightarrow> u16 \<Rightarrow> bytes go" where
  "TCP_SetSourcePort b port = put16 b 0 port"

definition TCP_SetDestinationPort :: "bytes \<Rightarrow> u16 \<Rightarrow> bytes go" where
  "TCP_SetDestinationPort b port = put16 b 2 port"

definition TCP_SetChecksum :: "bytes \<Rightarrow> u16 \<Rightarrow> bytes go" where
  "TCP_SetChecksum b v = put16 b 16 v"

definition TCP_Payload :: "bytes \<Rightarrow> bytes go" where
  "TCP_Payload b = do { off \<leftarrow> TCP_DataOffset b; slice_from b (unat off) }"

text \<open>\<open>Options\<close> returns nil when the data offset leaves no room for options or points past the slice.\<close>

definition TCP_Options :: "bytes \<Rightarrow> bytes go" where
  "TCP_Options b = do {
     off \<leftarrow> TCP_DataOffset b;
     let offset = unat off;
     if offset \<le> TCPMinHeaderSize \<or> offset > length b then Some []
     else subslice b TCPMinHeaderSize offset }"

definition TCP_Encode :: "bytes \<Rightarrow> TCPFields \<Rightarrow> bytes go" where
  "TCP_Encode b f = do {
     b \<leftarrow> put16 b 0 (tcp_SrcPort f);
     b \<leftarrow> put16 b 2 (tcp_DstPort f);
     b \<leftarrow> put32 b 4 (tcp_SeqNum f);
     b \<leftarrow> put32 b 8 (tcp_AckNum f);
     b \<leftarrow> store b 12 (push_bit 4 (tcp_DataOffset f));
     b \<leftarrow> store b 13 (tcp_Flags f);
     b \<leftarrow> put16 b 14 (tcp_WindowSize f);
     b \<leftarrow> put16 b 16 (tcp_Checksum f);
     put16 b 18 (tcp_UrgentPointer f) }"

lemmas TCP_get_defs =
  TCP_SourcePort_def TCP_DestinationPort_def TCP_SequenceNumber_def TCP_AckNumber_def
  TCP_DataOffset_def TCP_Flags_def TCP_WindowSize_def TCP_Checksum_def TCP_UrgentPointer_def

text \<open>The fields read back through the accessors; \<open>DataOffset()\<close> returns bytes, the field holds words.\<close>

definition TCP_fields :: "bytes \<Rightarrow> TCPFields go" where
  "TCP_fields b = do {
     s \<leftarrow> TCP_SourcePort b; d \<leftarrow> TCP_DestinationPort b; sq \<leftarrow> TCP_SequenceNumber b;
     ak \<leftarrow> TCP_AckNumber b; off \<leftarrow> TCP_DataOffset b; fl \<leftarrow> TCP_Flags b; w \<leftarrow> TCP_WindowSize b;
     ck \<leftarrow> TCP_Checksum b; u \<leftarrow> TCP_UrgentPointer b;
     Some \<lparr>tcp_SrcPort = s, tcp_DstPort = d, tcp_SeqNum = sq, tcp_AckNum = ak,
           tcp_DataOffset = drop_bit 2 off, tcp_Flags = fl, tcp_WindowSize = w, tcp_Checksum = ck,
           tcp_UrgentPointer = u\<rparr> }"

definition TCP_valid :: "TCPFields \<Rightarrow> bool" where
  "TCP_valid f \<longleftrightarrow> take_bit 4 (tcp_DataOffset f) = tcp_DataOffset f \<and> take_bit 6 (tcp_Flags f) = tcp_Flags f"

definition TCP_wire :: "TCPFields \<Rightarrow> bytes" where
  "TCP_wire f =
     [ucast (drop_bit 8 (tcp_SrcPort f)), ucast (tcp_SrcPort f),
      ucast (drop_bit 8 (tcp_DstPort f)), ucast (tcp_DstPort f)]
     @ To4 (tcp_SeqNum f) @ To4 (tcp_AckNum f)
     @ [push_bit 4 (tcp_DataOffset f), tcp_Flags f,
      ucast (drop_bit 8 (tcp_WindowSize f)), ucast (tcp_WindowSize f),
      ucast (drop_bit 8 (tcp_Checksum f)), ucast (tcp_Checksum f),
      ucast (drop_bit 8 (tcp_UrgentPointer f)), ucast (tcp_UrgentPointer f)]"

lemma length_TCP_wire [simp]: "length (TCP_wire f) = 20"
  by (simp add: TCP_wire_def)

lemma TCP_Encode_wire: "20 \<le> length b \<Longrightarrow> TCP_Encode b f = Some (TCP_wire f @ drop 20 b)"
  by (auto simp: numeral_le_length_iff Suc_le_length_iff TCP_Encode_def TCP_wire_def To4_def)

lemma TCP_Encode_short: "length b < 20 \<Longrightarrow> TCP_Encode b f = panic"
  by (simp add: TCP_Encode_def store_def put16_def put32_def)

lemma data_offset_words: "drop_bit 4 (push_bit 4 w) * 4 = push_bit 2 (take_bit 4 w)" for w :: u8
proof -
  have "drop_bit 4 (push_bit 4 w) = take_bit 4 w"
    by (rule bit_word_eqI) (auto simp: bit_simps)
  then show ?thesis
    by (simp add: push_bit_eq_mult)
qed

lemma low6_mask: "(0x3f :: u8) = mask 6"
  by (simp add: mask_eq_exp_minus_1)

lemma and_low6: "x AND 0x3f = take_bit 6 x" for x :: u8
  unfolding low6_mask by (simp add: take_bit_eq_mask)

lemma drop_push_words: "drop_bit 2 (push_bit 2 (take_bit 4 w)) = take_bit 4 w" for w :: u8
  by (rule bit_word_eqI) (auto simp: bit_simps)

lemma data_offset_field: "drop_bit 2 (drop_bit 4 (push_bit 4 w) * 4) = take_bit 4 w" for w :: u8
  by (simp only: data_offset_words drop_push_words)

lemma TCP_fields_wire: "TCP_valid f \<Longrightarrow> TCP_fields (TCP_wire f @ r) = Some f"
  by (simp add: TCP_fields_def TCP_get_defs TCP_wire_def To4_def data_offset_field and_low6
      TCP_valid_def)

interpretation tcp_codec: header_codec 20 TCP_Encode TCP_fields TCP_wire TCP_valid
  by unfold_locales (simp_all add: TCP_Encode_wire TCP_Encode_short TCP_fields_wire)

section \<open>Options: data\<close>

record SACKBlock =
  sb_Start :: u32
  sb_End :: u32

record SynOptions =
  syn_MSS :: u16
  syn_WS :: int
  syn_SACKPermit :: bool
  syn_TSEnabled :: bool
  syn_TSVal :: u32

record SegmentOptions =
  so_SACKBlocks :: "SACKBlock list"
  so_TSEnabled :: bool
  so_TSVal :: u32
  so_TSecr :: u32

section \<open>Options: parsers\<close>

text \<open>The inner \<open>switch\<close> of \<open>ParseSynOptions\<close>: one option of kind \<open>k\<close> at index \<open>i\<close>.\<close>

definition syn_option :: "bytes \<Rightarrow> nat \<Rightarrow> u8 \<Rightarrow> nat \<Rightarrow> SynOptions \<Rightarrow> SynOptions go" where
  "syn_option opts i k optLen so =
     (if k = 2 then
        (if optLen = 4 then do { m \<leftarrow> get16 opts (i + 2); Some (so\<lparr>syn_MSS := m\<rparr>) } else Some so)
      else if k = 3 then
        (if optLen = 3 then do { w \<leftarrow> index opts (i + 2);
           Some (so\<lparr>syn_WS := min (int (unat w)) (int MaxWndScale)\<rparr>) } else Some so)
      else if k = 4 then
        (if optLen = 2 then Some (so\<lparr>syn_SACKPermit := True\<rparr>) else Some so)
      else if k = 8 then
        (if optLen = 10 then do { v \<leftarrow> get32 opts (i + 2);
           Some (so\<lparr>syn_TSEnabled := True, syn_TSVal := v\<rparr>) } else Some so)
      else Some so)"

function ParseSynOptions_loop :: "bytes \<Rightarrow> nat \<Rightarrow> SynOptions \<Rightarrow> SynOptions go" where
  "ParseSynOptions_loop opts i so =
     (if i < length opts then do {
        k \<leftarrow> index opts i;
        if k = 0 then Some so
        else if k = 1 then ParseSynOptions_loop opts (i + 1) so
        else if i + 1 \<ge> length opts then Some so
        else do {
          l \<leftarrow> index opts (i + 1);
          let optLen = unat l;
          if optLen < 2 \<or> i + optLen > length opts then Some so
          else do {
            so' \<leftarrow> syn_option opts i k optLen so;
            ParseSynOptions_loop opts (i + optLen) so' } } }
      else Some so)"
  by pat_completeness auto
termination
  by (relation "measure (\<lambda>(opts, i, so). length opts - i)") auto

declare ParseSynOptions_loop.simps [simp del]

definition ParseSynOptions :: "bytes \<Rightarrow> SynOptions go" where
  "ParseSynOptions opts = ParseSynOptions_loop opts 0
     \<lparr>syn_MSS = 0, syn_WS = -1, syn_SACKPermit = False, syn_TSEnabled = False, syn_TSVal = 0\<rparr>"

text \<open>The block loop \<open>for j := range numBlocks\<close>.\<close>

fun sack_blocks_at :: "bytes \<Rightarrow> nat \<Rightarrow> nat \<Rightarrow> SACKBlock list go" where
  "sack_blocks_at opts off 0 = Some []"
| "sack_blocks_at opts off (Suc n) = do {
     s \<leftarrow> get32 opts off;
     e \<leftarrow> get32 opts (off + 4);
     bs \<leftarrow> sack_blocks_at opts (off + 8) n;
     Some (\<lparr>sb_Start = s, sb_End = e\<rparr> # bs) }"

definition segment_option :: "bytes \<Rightarrow> nat \<Rightarrow> u8 \<Rightarrow> nat \<Rightarrow> SegmentOptions \<Rightarrow> SegmentOptions go" where
  "segment_option opts i k optLen so =
     (if k = 5 then
        (let payload = optLen - 2 in
         if payload mod 8 = 0 then do {
           let numBlocks = min (payload div 8) TCPMaxSACKBlocks;
           bs \<leftarrow> sack_blocks_at opts (i + 2) numBlocks;
           Some (so\<lparr>so_SACKBlocks := bs\<rparr>) }
         else Some so)
      else if k = 8 then
        (if optLen = 10 then do {
           v \<leftarrow> get32 opts (i + 2);
           e \<leftarrow> get32 opts (i + 6);
           Some (so\<lparr>so_TSEnabled := True, so_TSVal := v, so_TSecr := e\<rparr>) }
         else Some so)
      else Some so)"

function ParseSegmentOptions_loop :: "bytes \<Rightarrow> nat \<Rightarrow> SegmentOptions \<Rightarrow> SegmentOptions go" where
  "ParseSegmentOptions_loop opts i so =
     (if i < length opts then do {
        k \<leftarrow> index opts i;
        if k = 0 then Some so
        else if k = 1 then ParseSegmentOptions_loop opts (i + 1) so
        else if i + 1 \<ge> length opts then Some so
        else do {
          l \<leftarrow> index opts (i + 1);
          let optLen = unat l;
          if optLen < 2 \<or> i + optLen > length opts then Some so
          else do {
            so' \<leftarrow> segment_option opts i k optLen so;
            ParseSegmentOptions_loop opts (i + optLen) so' } } }
      else Some so)"
  by pat_completeness auto
termination
  by (relation "measure (\<lambda>(opts, i, so). length opts - i)") auto

declare ParseSegmentOptions_loop.simps [simp del]

definition no_segment_options :: SegmentOptions where
  "no_segment_options = \<lparr>so_SACKBlocks = [], so_TSEnabled = False, so_TSVal = 0, so_TSecr = 0\<rparr>"

definition ParseSegmentOptions :: "bytes \<Rightarrow> SegmentOptions go" where
  "ParseSegmentOptions opts = ParseSegmentOptions_loop opts 0 no_segment_options"

section \<open>Options: encoders\<close>

definition EncodeMSSOption :: "bytes \<Rightarrow> u16 \<Rightarrow> (bytes \<times> nat) go" where
  "EncodeMSSOption buf mss =
     (if length buf < 4 then Some (buf, 0) else do {
        buf \<leftarrow> store buf 0 2;
        buf \<leftarrow> store buf 1 4;
        buf \<leftarrow> put16 buf 2 mss;
        Some (buf, 4) })"

definition EncodeWSOption :: "bytes \<Rightarrow> int \<Rightarrow> (bytes \<times> nat) go" where
  "EncodeWSOption buf ws =
     (if length buf < 3 then Some (buf, 0) else do {
        buf \<leftarrow> store buf 0 3;
        buf \<leftarrow> store buf 1 3;
        buf \<leftarrow> store buf 2 (word_of_int ws);
        Some (buf, 3) })"

definition EncodeSACKPermittedOption :: "bytes \<Rightarrow> (bytes \<times> nat) go" where
  "EncodeSACKPermittedOption buf =
     (if length buf < 2 then Some (buf, 0) else do {
        buf \<leftarrow> store buf 0 4;
        buf \<leftarrow> store buf 1 2;
        Some (buf, 2) })"

definition EncodeTimestampOption :: "bytes \<Rightarrow> u32 \<Rightarrow> u32 \<Rightarrow> (bytes \<times> nat) go" where
  "EncodeTimestampOption buf tsval tsecr =
     (if length buf < 12 then Some (buf, 0) else do {
        buf \<leftarrow> store buf 0 1;
        buf \<leftarrow> store buf 1 1;
        buf \<leftarrow> store buf 2 8;
        buf \<leftarrow> store buf 3 10;
        buf \<leftarrow> put32 buf 4 tsval;
        buf \<leftarrow> put32 buf 8 tsecr;
        Some (buf, 12) })"

text \<open>The loop that lowers the number of blocks until they fit, and the loop that writes them.\<close>

fun sack_fit :: "nat \<Rightarrow> nat \<Rightarrow> nat" where
  "sack_fit len 0 = 0"
| "sack_fit len (Suc n) = (if 2 + Suc n * 8 > len then sack_fit len n else Suc n)"

fun put_sack_blocks :: "bytes \<Rightarrow> nat \<Rightarrow> SACKBlock list \<Rightarrow> bytes go" where
  "put_sack_blocks buf off [] = Some buf"
| "put_sack_blocks buf off (b # bs) = do {
     buf \<leftarrow> put32 buf off (sb_Start b);
     buf \<leftarrow> put32 buf (off + 4) (sb_End b);
     put_sack_blocks buf (off + 8) bs }"

definition EncodeSACKBlocks :: "bytes \<Rightarrow> SACKBlock list \<Rightarrow> (bytes \<times> nat) go" where
  "EncodeSACKBlocks buf blocks =
     (let n = sack_fit (length buf) (min (length blocks) TCPMaxSACKBlocks);
          needed = 2 + n * 8
      in if n = 0 then Some (buf, 0) else do {
        buf \<leftarrow> store buf 0 5;
        buf \<leftarrow> store buf 1 (of_nat needed);
        buf \<leftarrow> put_sack_blocks buf 2 (take n blocks);
        Some (buf, needed) })"

section \<open>Reading at an offset\<close>

lemma index_append [simp]: "index (xs @ ys) (length xs + i) = index ys i"
  by (simp add: index_def nth_append)

lemma get16_append: "get16 (xs @ ys) (length xs + i) = get16 ys i"
  by (simp add: get16_def nth_append)

lemma get32_append: "get32 (xs @ ys) (length xs + i) = get32 ys i"
  by (simp add: get32_def nth_append)

lemma sack_blocks_at_append: "sack_blocks_at (xs @ ys) (length xs + i) n = sack_blocks_at ys i n"
proof (induction n arbitrary: i)
  case (Suc n)
  from Suc [of "i + 8"] show ?case
    by (simp add: get32_append add.assoc)
qed simp

section \<open>The parsers never panic\<close>

lemma syn_option_total:
  assumes "i + optLen \<le> length opts" and "-1 \<le> syn_WS so" and "syn_WS so \<le> 14"
  shows "\<exists>so'. syn_option opts i k optLen so = Some so' \<and> -1 \<le> syn_WS so' \<and> syn_WS so' \<le> 14"
  using assms by (simp add: syn_option_def MaxWndScale_def)

lemma ParseSynOptions_loop_total:
  "-1 \<le> syn_WS so \<Longrightarrow> syn_WS so \<le> 14 \<Longrightarrow>
   \<exists>so'. ParseSynOptions_loop opts i so = Some so' \<and> -1 \<le> syn_WS so' \<and> syn_WS so' \<le> 14"
proof (induction opts i so rule: ParseSynOptions_loop.induct)
  case (1 opts i so)
  show ?case
  proof (cases "i + 1 < length opts \<and> opts ! i \<noteq> 0 \<and> opts ! i \<noteq> 1 \<and>
      2 \<le> unat (opts ! (i + 1)) \<and> i + unat (opts ! (i + 1)) \<le> length opts")
    case True
    obtain so' where so': "syn_option opts i (opts ! i) (unat (opts ! (i + 1))) so = Some so'"
      "-1 \<le> syn_WS so'" "syn_WS so' \<le> 14"
      using syn_option_total True "1.prems" by blast
    with True "1.IH"(2) [of "opts ! i" "opts ! (i + 1)" "unat (opts ! (i + 1))" so'] show ?thesis
      by (simp add: ParseSynOptions_loop.simps [of opts i so])
  next
    case False
    with "1.prems" "1.IH"(1) [of "opts ! i"] show ?thesis
      by (auto simp: ParseSynOptions_loop.simps [of opts i so] Let_def)
  qed
qed

lemma sack_blocks_at_total:
  "off + 8 * n \<le> length opts \<Longrightarrow> \<exists>bs. sack_blocks_at opts off n = Some bs \<and> length bs = n"
proof (induction n arbitrary: off)
  case (Suc n)
  have "off + 8 + 8 * n \<le> length opts"
    using Suc.prems by simp
  from Suc.IH [OF this] obtain bs where "sack_blocks_at opts (off + 8) n = Some bs" "length bs = n"
    by blast
  with Suc.prems show ?case by simp
qed simp

lemma segment_option_total:
  assumes "2 \<le> optLen" and "i + optLen \<le> length opts" and "length (so_SACKBlocks so) \<le> 4"
  shows "\<exists>so'. segment_option opts i k optLen so = Some so' \<and> length (so_SACKBlocks so') \<le> 4"
proof (cases "k = 5 \<and> (optLen - 2) mod 8 = 0")
  case True
  let ?n = "min ((optLen - 2) div 8) 4"
  have "8 * ((optLen - 2) div 8) \<le> optLen - 2"
    by simp
  then have "i + 2 + 8 * ?n \<le> length opts"
    using assms(1,2) by linarith
  then obtain bs where "sack_blocks_at opts (i + 2) ?n = Some bs" "length bs = ?n"
    using sack_blocks_at_total by blast
  with True show ?thesis
    by (simp add: segment_option_def TCPMaxSACKBlocks_def Let_def)
next
  case False
  with assms show ?thesis
    by (auto simp: segment_option_def Let_def)
qed

lemma ParseSegmentOptions_loop_total:
  "length (so_SACKBlocks so) \<le> 4 \<Longrightarrow>
   \<exists>so'. ParseSegmentOptions_loop opts i so = Some so' \<and> length (so_SACKBlocks so') \<le> 4"
proof (induction opts i so rule: ParseSegmentOptions_loop.induct)
  case (1 opts i so)
  show ?case
  proof (cases "i + 1 < length opts \<and> opts ! i \<noteq> 0 \<and> opts ! i \<noteq> 1 \<and>
      2 \<le> unat (opts ! (i + 1)) \<and> i + unat (opts ! (i + 1)) \<le> length opts")
    case True
    obtain so' where so': "segment_option opts i (opts ! i) (unat (opts ! (i + 1))) so = Some so'"
      "length (so_SACKBlocks so') \<le> 4"
      using segment_option_total True "1.prems" by blast
    with True "1.IH"(2) [of "opts ! i" "opts ! (i + 1)" "unat (opts ! (i + 1))" so'] show ?thesis
      by (simp add: ParseSegmentOptions_loop.simps [of opts i so])
  next
    case False
    with "1.prems" "1.IH"(1) [of "opts ! i"] show ?thesis
      by (auto simp: ParseSegmentOptions_loop.simps [of opts i so] Let_def)
  qed
qed

lemma ParseSegmentOptions_total:
  "\<exists>so. ParseSegmentOptions opts = Some so \<and> length (so_SACKBlocks so) \<le> 4"
  unfolding ParseSegmentOptions_def
  by (rule ParseSegmentOptions_loop_total) (simp add: no_segment_options_def)

section \<open>Options round trips\<close>

definition ts_wire :: "u32 \<Rightarrow> u32 \<Rightarrow> bytes" where
  "ts_wire tsval tsecr = [1, 1, 8, 10] @ To4 tsval @ To4 tsecr"

definition sack_wire :: "SACKBlock list \<Rightarrow> bytes" where
  "sack_wire bs = [5, of_nat (2 + length bs * 8)] @ concat (map (\<lambda>b. To4 (sb_Start b) @ To4 (sb_End b)) bs)"

lemma length_ts_wire [simp]: "length (ts_wire v e) = 12"
  by (simp add: ts_wire_def)

lemma length_sack_wire [simp]: "length (sack_wire bs) = 2 + 8 * length bs"
  by (induction bs) (auto simp: sack_wire_def)

lemma EncodeTimestampOption_wire:
  "12 \<le> length buf \<Longrightarrow> EncodeTimestampOption buf v e = Some (ts_wire v e @ drop 12 buf, 12)"
  by (auto simp: numeral_le_length_iff Suc_le_length_iff EncodeTimestampOption_def ts_wire_def To4_def)

lemma put32_split:
  "length xs = off \<Longrightarrow> 4 \<le> length r \<Longrightarrow> put32 (xs @ r) off v = Some (xs @ To4 v @ drop 4 r)"
  by (auto simp: numeral_le_length_iff Suc_le_length_iff put32_def list_update_append To4_def
      eval_nat_numeral)

lemma put_sack_blocks_wire:
  "length xs = off \<Longrightarrow> 8 * length bs \<le> length r \<Longrightarrow>
   put_sack_blocks (xs @ r) off bs =
     Some (xs @ concat (map (\<lambda>b. To4 (sb_Start b) @ To4 (sb_End b)) bs) @ drop (8 * length bs) r)"
proof (induction bs arbitrary: xs off r)
  case (Cons b bs)
  let ?p = "To4 (sb_Start b) @ To4 (sb_End b)"
  have "put32 (xs @ r) off (sb_Start b) = Some (xs @ To4 (sb_Start b) @ drop 4 r)"
    using Cons.prems by (intro put32_split) auto
  moreover have "put32 ((xs @ To4 (sb_Start b)) @ drop 4 r) (off + 4) (sb_End b) =
      Some ((xs @ To4 (sb_Start b)) @ To4 (sb_End b) @ drop 4 (drop 4 r))"
    using Cons.prems by (intro put32_split) auto
  moreover have "put_sack_blocks ((xs @ ?p) @ drop 8 r) (off + 8) bs =
      Some ((xs @ ?p) @ concat (map (\<lambda>b. To4 (sb_Start b) @ To4 (sb_End b)) bs) @ drop (8 * length bs) (drop 8 r))"
    using Cons.prems by (intro Cons.IH) auto
  ultimately show ?case
    by (simp add: add.commute del: put32_Some)
qed simp

lemma sack_fit_spec:
  "sack_fit len n \<le> n" "sack_fit len n \<noteq> 0 \<Longrightarrow> 2 + 8 * sack_fit len n \<le> len"
  "2 + 8 * n \<le> len \<Longrightarrow> sack_fit len n = n"
  by (induction n) auto

text \<open>What the SACK encoder writes: as many of the first four blocks as fit, or nothing.\<close>

lemma EncodeSACKBlocks_wire:
  assumes n: "n = sack_fit (length buf) (min (length blocks) 4)"
  shows "EncodeSACKBlocks buf blocks =
    (if n = 0 then Some (buf, 0)
     else Some (sack_wire (take n blocks) @ drop (2 + 8 * n) buf, 2 + 8 * n))"
proof (cases "n = 0")
  case True
  then show ?thesis
    by (simp add: EncodeSACKBlocks_def TCPMaxSACKBlocks_def n)
next
  case False
  have len: "2 + 8 * n \<le> length buf" and le: "n \<le> length blocks"
    using False sack_fit_spec(1) [of "length buf" "min (length blocks) 4"]
      sack_fit_spec(2) [of "length buf" "min (length blocks) 4"] n by auto
  obtain x y r where buf: "buf = x # y # r" and r: "8 * n \<le> length r"
    using len by (auto simp: Suc_le_length_iff)
  have "put_sack_blocks ([5, of_nat (2 + 8 * n)] @ r) 2 (take n blocks) =
     Some ([5, of_nat (2 + 8 * n)] @ concat (map (\<lambda>b. To4 (sb_Start b) @ To4 (sb_End b)) (take n blocks))
           @ drop (8 * length (take n blocks)) r)"
    using r le by (intro put_sack_blocks_wire) auto
  then have "do { b \<leftarrow> store buf 0 5; b \<leftarrow> store b 1 (of_nat (2 + n * 8));
      b \<leftarrow> put_sack_blocks b 2 (take n blocks); Some (b, 2 + n * 8) }
    = Some (sack_wire (take n blocks) @ drop (2 + 8 * n) buf, 2 + 8 * n)"
    using le by (simp add: buf sack_wire_def mult.commute)
  with False show ?thesis
    by (simp add: EncodeSACKBlocks_def TCPMaxSACKBlocks_def Let_def n [symmetric])
qed

text \<open>A parser started inside the slice only sees the rest of it.\<close>

lemma segment_option_append:
  "segment_option (xs @ ys) (length xs + i) k n so = segment_option ys i k n so"
  using sack_blocks_at_append [of xs ys "i + 2"] get32_append [of xs ys "i + 2"]
    get32_append [of xs ys "i + 6"]
  by (simp add: segment_option_def Let_def add.assoc)

lemma ParseSegmentOptions_loop_append:
  "ParseSegmentOptions_loop (xs @ ys) (length xs + i) so = ParseSegmentOptions_loop ys i so"
proof (induction ys i so rule: ParseSegmentOptions_loop.induct)
  case (1 ys i so)
  show ?case
  proof (cases "i < length ys")
    case True
    have "index (xs @ ys) (length xs + i + 1) = index ys (i + 1)"
      using index_append [of xs ys "i + 1"] by (simp add: add.assoc)
    with True 1 show ?thesis
      by (simp add: ParseSegmentOptions_loop.simps [of "xs @ ys" "length xs + i"] ParseSegmentOptions_loop.simps [of ys i]
          segment_option_append add.assoc Let_def cong: Option.bind_cong if_cong)
  next
    case False
    then show ?thesis
      by (simp add: ParseSegmentOptions_loop.simps)
  qed
qed

lemma ParseSegmentOptions_loop_skip:
  "length xs = i \<Longrightarrow> ParseSegmentOptions_loop (xs @ ys) i so = ParseSegmentOptions_loop ys 0 so"
  using ParseSegmentOptions_loop_append [of xs ys 0] by simp

lemma parse_nil: "ParseSegmentOptions_loop [] 0 so = Some so"
  by (simp add: ParseSegmentOptions_loop.simps)

lemma parse_nop: "ParseSegmentOptions_loop (1 # r) 0 so = ParseSegmentOptions_loop r 0 so"
  using ParseSegmentOptions_loop_skip [of "[1]" 1 r so]
  by (simp add: ParseSegmentOptions_loop.simps [of "1 # r" 0])

lemma parse_nops: "ParseSegmentOptions_loop (replicate n 1 @ r) 0 so = ParseSegmentOptions_loop r 0 so"
  by (induction n) (simp_all add: parse_nop)

lemma parse_ts:
  "ParseSegmentOptions_loop (ts_wire v e @ r) 0 so =
   ParseSegmentOptions_loop r 0 (so\<lparr>so_TSEnabled := True, so_TSVal := v, so_TSecr := e\<rparr>)"
proof -
  let ?o = "[8, 10] @ To4 v @ To4 e"
  have "segment_option (?o @ r) 0 8 10 so = Some (so\<lparr>so_TSEnabled := True, so_TSVal := v, so_TSecr := e\<rparr>)"
    by (simp add: segment_option_def To4_def)
  moreover have "ParseSegmentOptions_loop (?o @ r) 10 so' = ParseSegmentOptions_loop r 0 so'" for so'
    by (rule ParseSegmentOptions_loop_skip) simp
  ultimately have "ParseSegmentOptions_loop (?o @ r) 0 so =
      ParseSegmentOptions_loop r 0 (so\<lparr>so_TSEnabled := True, so_TSVal := v, so_TSecr := e\<rparr>)"
    by (subst ParseSegmentOptions_loop.simps) simp
  then show ?thesis
    by (simp add: ts_wire_def parse_nop)
qed

lemma sack_blocks_at_wire:
  "sack_blocks_at (concat (map (\<lambda>b. To4 (sb_Start b) @ To4 (sb_End b)) bs) @ r) 0 (length bs) = Some bs"
proof (induction bs)
  case (Cons b bs)
  let ?p = "To4 (sb_Start b) @ To4 (sb_End b)"
  let ?q = "concat (map (\<lambda>b. To4 (sb_Start b) @ To4 (sb_End b)) bs) @ r"
  have "sack_blocks_at (?p @ ?q) (length ?p + 0) (length bs) = Some bs"
    by (simp only: sack_blocks_at_append Cons.IH)
  then have "sack_blocks_at (?p @ ?q) 8 (length bs) = Some bs"
    by simp
  then show ?case
    by (simp add: To4_def)
qed simp

lemma parse_sack:
  assumes "bs \<noteq> []" and "length bs \<le> 4"
  shows "ParseSegmentOptions_loop (sack_wire bs @ r) 0 so = ParseSegmentOptions_loop r 0 (so\<lparr>so_SACKBlocks := bs\<rparr>)"
proof -
  let ?n = "2 + length bs * 8"
  let ?q = "concat (map (\<lambda>b. To4 (sb_Start b) @ To4 (sb_End b)) bs)"
  have n: "unat (of_nat ?n :: u8) = ?n"
    using assms(2) by (intro unat_of_nat_u8) simp
  have w: "sack_wire bs @ r = [5, of_nat ?n] @ (?q @ r)"
    by (simp add: sack_wire_def)
  have "sack_blocks_at ([5, of_nat ?n] @ (?q @ r)) (length [5, of_nat ?n :: u8] + 0) (length bs) = Some bs"
    by (simp only: sack_blocks_at_append sack_blocks_at_wire)
  then have "segment_option (sack_wire bs @ r) 0 5 ?n so = Some (so\<lparr>so_SACKBlocks := bs\<rparr>)"
    using assms(2) by (simp add: w segment_option_def Let_def TCPMaxSACKBlocks_def numeral_2_eq_2)
  moreover have "ParseSegmentOptions_loop (sack_wire bs @ r) ?n so' = ParseSegmentOptions_loop r 0 so'" for so'
    by (rule ParseSegmentOptions_loop_skip) simp
  moreover have "index (sack_wire bs @ r) 0 = Some 5" "index (sack_wire bs @ r) 1 = Some (of_nat ?n)"
    by (simp_all add: sack_wire_def)
  moreover have "?n \<le> length (sack_wire bs @ r)" "1 < length (sack_wire bs @ r)"
    by simp_all
  ultimately show ?thesis
    using n by (subst ParseSegmentOptions_loop.simps) (simp del: of_nat_add of_nat_mult of_nat_Suc)
qed

end
