(* ===== verification/ByteQueue.thy ===== *)
theory ByteQueue
  imports Prelude
begin

text \<open>
  The contract the sender and the receiver of a connection rely on when they move bytes through a
  buffer: a bounded first-in first-out queue of bytes with a closed flag. The provider is the ring
  buffer; what its clients need of it is proved here once from the laws.
\<close>

datatype qop = QWrite bytes | QRead nat | QGrow nat

fun qop_ok :: "qop \<Rightarrow> bool" where
  "qop_ok (QWrite p) \<longleftrightarrow> p \<noteq> []"
| "qop_ok (QRead k) \<longleftrightarrow> 0 < k"
| "qop_ok (QGrow n) \<longleftrightarrow> True"

text \<open>
  Running a sequence of operations, collecting the bytes the writes accepted and the bytes the
  reads returned.
\<close>

fun run_queue :: "('q \<Rightarrow> bytes \<Rightarrow> ('q \<times> nat) go) \<Rightarrow> ('q \<Rightarrow> nat \<Rightarrow> ('q \<times> bytes) go) \<Rightarrow>
    ('q \<Rightarrow> nat \<Rightarrow> 'q go) \<Rightarrow> 'q \<Rightarrow> qop list \<Rightarrow> ('q \<times> bytes \<times> bytes) go" where
  "run_queue wr rd gr q [] = Some (q, [], [])"
| "run_queue wr rd gr q (QWrite p # ops) = do {
     (q, n) \<leftarrow> wr q p;
     (q, acc, out) \<leftarrow> run_queue wr rd gr q ops;
     Some (q, take n p @ acc, out) }"
| "run_queue wr rd gr q (QRead k # ops) = do {
     (q, d) \<leftarrow> rd q k;
     (q, acc, out) \<leftarrow> run_queue wr rd gr q ops;
     Some (q, acc, d @ out) }"
| "run_queue wr rd gr q (QGrow n # ops) = do {
     q \<leftarrow> gr q n;
     run_queue wr rd gr q ops }"

locale byte_queue =
  fixes invar :: "'q \<Rightarrow> bool"
    and content :: "'q \<Rightarrow> bytes"
    and cap :: "'q \<Rightarrow> nat"
    and closed :: "'q \<Rightarrow> bool"
    and wr :: "'q \<Rightarrow> bytes \<Rightarrow> ('q \<times> nat) go"
    and rd :: "'q \<Rightarrow> nat \<Rightarrow> ('q \<times> bytes) go"
    and gr :: "'q \<Rightarrow> nat \<Rightarrow> 'q go"
  assumes content_le: "invar q \<Longrightarrow> length (content q) \<le> cap q"
    and wr_open: "invar q \<Longrightarrow> \<not> closed q \<Longrightarrow> p \<noteq> [] \<Longrightarrow>
      \<exists>q'. wr q p = Some (q', min (length p) (cap q - length (content q))) \<and> invar q' \<and>
        content q' = content q @ take (cap q - length (content q)) p \<and> cap q' = cap q \<and> \<not> closed q'"
    and wr_closed: "invar q \<Longrightarrow> closed q \<Longrightarrow> wr q p = Some (q, 0)"
    and rd_law: "invar q \<Longrightarrow> 0 < k \<Longrightarrow>
      \<exists>q'. rd q k = Some (q', take k (content q)) \<and> invar q' \<and>
        content q' = drop k (content q) \<and> cap q' = cap q \<and> closed q' = closed q"
    and gr_law: "invar q \<Longrightarrow>
      \<exists>q'. gr q n = Some q' \<and> invar q' \<and> content q' = content q \<and> cap q' = max n (cap q) \<and>
        closed q' = closed q"
begin

lemma wr_law:
  assumes "invar q" and "p \<noteq> []"
  shows "\<exists>q' n. wr q p = Some (q', n) \<and> invar q' \<and> n \<le> length p \<and>
    content q' = content q @ take n p \<and> cap q' = cap q \<and> closed q' = closed q"
proof (cases "closed q")
  case True
  with assms show ?thesis
    by (simp add: wr_closed)
next
  case False
  from wr_open [OF assms(1) this assms(2)] False show ?thesis
    by (auto simp: min_def)
qed

text \<open>The accepted bytes come out in order, none lost, none twice, whatever the interleaving.\<close>

lemma run_fifo:
  "invar q \<Longrightarrow> list_all qop_ok ops \<Longrightarrow>
   \<exists>q' acc out. run_queue wr rd gr q ops = Some (q', acc, out) \<and> invar q' \<and>
     content q @ acc = out @ content q' \<and> cap q \<le> cap q'"
proof (induction ops arbitrary: q)
  case (Cons x ops)
  show ?case
  proof (cases x)
    case (QWrite p)
    with Cons.prems obtain q1 n where 1: "wr q p = Some (q1, n)" "invar q1"
        "content q1 = content q @ take n p" "cap q1 = cap q"
      using wr_law [of q p] by auto
    with Cons.IH [of q1] Cons.prems obtain q' acc out where
      "run_queue wr rd gr q1 ops = Some (q', acc, out)" "invar q'"
      "content q1 @ acc = out @ content q'" "cap q1 \<le> cap q'"
      by auto
    with 1 QWrite show ?thesis
      by simp
  next
    case (QRead k)
    with Cons.prems obtain q1 where 1: "rd q k = Some (q1, take k (content q))" "invar q1"
        "content q1 = drop k (content q)" "cap q1 = cap q"
      using rd_law [of q k] by auto
    with Cons.IH [of q1] Cons.prems obtain q' acc out where
      2: "run_queue wr rd gr q1 ops = Some (q', acc, out)" "invar q'"
      "content q1 @ acc = out @ content q'" "cap q1 \<le> cap q'"
      by auto
    have "content q @ acc = take k (content q) @ out @ content q'"
      using 1(3) 2(3) by (metis append.assoc append_take_drop_id)
    with 1 2 QRead show ?thesis
      by simp
  next
    case (QGrow n)
    with Cons.prems obtain q1 where 1: "gr q n = Some q1" "invar q1" "content q1 = content q"
        "cap q1 = max n (cap q)"
      using gr_law [of q n] by auto
    with Cons.IH [of q1] Cons.prems obtain q' acc out where
      "run_queue wr rd gr q1 ops = Some (q', acc, out)" "invar q'"
      "content q1 @ acc = out @ content q'" "cap q1 \<le> cap q'"
      by auto
    with 1 QGrow show ?thesis
      by simp
  qed
qed simp

end

end
