(* ===== verification/Ringbuf.thy ===== *)
theory Ringbuf
  imports ByteQueue
begin

text \<open>
  The circular byte buffer of \<open>src/transport/tcp/ringbuf.go\<close>. The mutex makes every locked region
  one atomic step, so the operations are state transformers; the two notification channels, which
  are closed and re-created to wake waiters, are generation counters: a waiter that loaded
  generation \<open>g\<close> is released as soon as the counter has moved past \<open>g\<close>. The abstraction of a buffer
  is the list of its unread bytes. \<open>len(rb.buf)\<close> is never below \<open>rb.r\<close>, so the unsigned form of
  \<open>(rb.w - rb.r + len(rb.buf)) % len(rb.buf)\<close> is the same number; an empty backing array makes
  the remainder a panic.
\<close>

section \<open>The code\<close>

record ringBuffer =
  rb_buf :: bytes
  rb_r :: nat
  rb_w :: nat
  rb_full :: bool
  rb_notEmpty :: nat
  rb_notFull :: nat
  rb_closed :: bool

definition newRingBuffer :: "nat \<Rightarrow> ringBuffer" where
  "newRingBuffer sz = \<lparr>rb_buf = replicate sz 0, rb_r = 0, rb_w = 0, rb_full = False,
     rb_notEmpty = 0, rb_notFull = 0, rb_closed = False\<rparr>"

definition Cap :: "ringBuffer \<Rightarrow> nat" where
  "Cap rb = length (rb_buf rb)"

definition lenLocked :: "ringBuffer \<Rightarrow> nat go" where
  "lenLocked rb =
     (if rb_full rb then Some (length (rb_buf rb))
      else if length (rb_buf rb) = 0 then panic
      else Some ((rb_w rb + length (rb_buf rb) - rb_r rb) mod length (rb_buf rb)))"

definition Len :: "ringBuffer \<Rightarrow> nat go" where
  "Len rb = lenLocked rb"

definition Free :: "ringBuffer \<Rightarrow> nat go" where
  "Free rb = do { l \<leftarrow> lenLocked rb; Some (length (rb_buf rb) - l) }"

text \<open>\<open>writeLocked\<close> copies up to \<open>free\<close> bytes of \<open>p\<close> in at most two chunks and returns their number.\<close>

definition writeLocked :: "ringBuffer \<Rightarrow> bytes \<Rightarrow> nat \<Rightarrow> (ringBuffer \<times> nat) go" where
  "writeLocked rb p free = (
     let n = min (length p) free;
         first = min (length (rb_buf rb) - rb_w rb) n;
         buf = overwrite (rb_buf rb) (rb_w rb) (take first p);
         second = n - first;
         buf = (if second > 0 then overwrite buf 0 (take (n - first) (drop first p)) else buf)
     in if length (rb_buf rb) = 0 then panic
        else let w = (rb_w rb + n) mod length (rb_buf rb)
             in Some (rb\<lparr>rb_buf := buf, rb_w := w, rb_full := (if w = rb_r rb then True else rb_full rb)\<rparr>, n))"

text \<open>\<open>readLocked\<close> copies up to \<open>len(p)\<close> bytes out; the bytes land in \<open>p[:n]\<close>.\<close>

definition readLocked :: "ringBuffer \<Rightarrow> nat \<Rightarrow> nat \<Rightarrow> (ringBuffer \<times> bytes) go" where
  "readLocked rb plen avail = (
     let n = min plen avail;
         first = min (length (rb_buf rb) - rb_r rb) n;
         chunk1 = take first (drop (rb_r rb) (rb_buf rb));
         second = n - first;
         chunk2 = (if second > 0 then take second (rb_buf rb) else [])
     in if length (rb_buf rb) = 0 then panic
        else Some (rb\<lparr>rb_r := (rb_r rb + n) mod length (rb_buf rb), rb_full := False\<rparr>, chunk1 @ chunk2))"

text \<open>
  One round of the blocking \<open>Write\<close> loop under the lock: it ends with an error, has to wait for
  the \<open>notFull\<close> channel it loaded, goes round again, or is finished.
\<close>

datatype write_round =
    Write_done nat
  | Write_closed nat
  | Write_wait nat nat
  | Write_more ringBuffer nat

definition Write_round :: "ringBuffer \<Rightarrow> bytes \<Rightarrow> nat \<Rightarrow> write_round go" where
  "Write_round rb p written =
     (if written < length p then
        if rb_closed rb then Some (Write_closed written)
        else do {
          l \<leftarrow> lenLocked rb;
          let free = length (rb_buf rb) - l;
          if free = 0 then Some (Write_wait written (rb_notFull rb))
          else do {
            (rb, n) \<leftarrow> writeLocked rb (drop written p) free;
            Some (Write_more (rb\<lparr>rb_notEmpty := Suc (rb_notEmpty rb)\<rparr>) (written + n)) } }
      else Some (Write_done written))"

text \<open>One round of the blocking \<open>Read\<close> loop.\<close>

datatype read_round =
    Read_data ringBuffer bytes
  | Read_EOF
  | Read_wait nat

definition Read_round :: "ringBuffer \<Rightarrow> nat \<Rightarrow> read_round go" where
  "Read_round rb plen = do {
     n \<leftarrow> lenLocked rb;
     if n > 0 then do {
       (rb, d) \<leftarrow> readLocked rb plen n;
       Some (Read_data (rb\<lparr>rb_notFull := Suc (rb_notFull rb)\<rparr>) d) }
     else if rb_closed rb then Some Read_EOF
     else Some (Read_wait (rb_notEmpty rb)) }"

definition ReadNoBlock :: "ringBuffer \<Rightarrow> nat \<Rightarrow> (ringBuffer \<times> bytes) go" where
  "ReadNoBlock rb plen = do {
     n \<leftarrow> lenLocked rb;
     if n = 0 then Some (rb, [])
     else do {
       (rb, d) \<leftarrow> readLocked rb plen n;
       Some (rb\<lparr>rb_notFull := Suc (rb_notFull rb)\<rparr>, d) } }"

definition WriteNoBlock :: "ringBuffer \<Rightarrow> bytes \<Rightarrow> (ringBuffer \<times> nat) go" where
  "WriteNoBlock rb p =
     (if rb_closed rb then Some (rb, 0)
      else do {
        l \<leftarrow> lenLocked rb;
        let free = length (rb_buf rb) - l;
        if free = 0 then Some (rb, 0)
        else do {
          (rb, n) \<leftarrow> writeLocked rb p free;
          Some (rb\<lparr>rb_notEmpty := Suc (rb_notEmpty rb)\<rparr>, n) } })"

definition Grow :: "ringBuffer \<Rightarrow> nat \<Rightarrow> ringBuffer go" where
  "Grow rb newCap =
     (let oldCap = length (rb_buf rb) in
      if newCap \<le> oldCap then Some rb
      else do {
        used \<leftarrow> lenLocked rb;
        let newBuf = replicate newCap 0;
        let r = rb_r rb;
        let w = rb_w rb;
        let wrapped = overwrite (overwrite newBuf 0 (drop r (rb_buf rb))) (length (drop r (rb_buf rb))) (take w (rb_buf rb));
        let newBuf = (if used > 0 then
            (if r < w \<or> (rb_full rb \<and> r = w) then
               (if rb_full rb \<or> r < w then
                  (if r < w then overwrite newBuf 0 (take (w - r) (drop r (rb_buf rb))) else wrapped)
                else newBuf)
             else wrapped)
          else newBuf);
        Some (rb\<lparr>rb_buf := newBuf, rb_r := 0, rb_w := used, rb_full := False,
                 rb_notFull := Suc (rb_notFull rb)\<rparr>) })"

definition CloseWrite :: "ringBuffer \<Rightarrow> ringBuffer" where
  "CloseWrite rb = rb\<lparr>rb_closed := True, rb_notEmpty := Suc (rb_notEmpty rb)\<rparr>"

section \<open>Invariant and abstraction\<close>

definition rb_inv :: "ringBuffer \<Rightarrow> bool" where
  "rb_inv rb \<longleftrightarrow> rb_r rb < length (rb_buf rb) \<and> rb_w rb < length (rb_buf rb) \<and>
     (rb_full rb \<longrightarrow> rb_r rb = rb_w rb)"

definition rb_len :: "ringBuffer \<Rightarrow> nat" where
  "rb_len rb = (if rb_full rb then length (rb_buf rb)
     else if rb_r rb \<le> rb_w rb then rb_w rb - rb_r rb
     else rb_w rb + length (rb_buf rb) - rb_r rb)"

definition contents :: "ringBuffer \<Rightarrow> bytes" where
  "contents rb = take (rb_len rb) (rotate (rb_r rb) (rb_buf rb))"

lemma lenLocked_eq: "rb_inv rb \<Longrightarrow> lenLocked rb = Some (rb_len rb)"
  by (auto simp: lenLocked_def rb_len_def rb_inv_def le_mod_geq)

lemma rb_len_le: "rb_inv rb \<Longrightarrow> rb_len rb \<le> length (rb_buf rb)"
  by (auto simp: rb_len_def rb_inv_def)

lemma length_contents: "rb_inv rb \<Longrightarrow> length (contents rb) = rb_len rb"
  using rb_len_le by (simp add: contents_def)

lemma nth_contents:
  "rb_inv rb \<Longrightarrow> i < rb_len rb \<Longrightarrow> contents rb ! i = rb_buf rb ! ((rb_r rb + i) mod length (rb_buf rb))"
  using rb_len_le [of rb] by (simp add: contents_def nth_rotate)

lemma rb_w_eq: "rb_inv rb \<Longrightarrow> rb_w rb = (rb_r rb + rb_len rb) mod length (rb_buf rb)"
  by (auto simp: rb_len_def rb_inv_def)

lemma rb_inv_new: "0 < sz \<Longrightarrow> rb_inv (newRingBuffer sz) \<and> contents (newRingBuffer sz) = []"
  by (simp add: rb_inv_def newRingBuffer_def contents_def rb_len_def)

section \<open>Writing\<close>

text \<open>What the two chunk copies do, as a function of the distance from the write index.\<close>

lemma ring_copy_nth:
  assumes w: "w < length buf" and n: "n \<le> length buf" "n \<le> length p" and k: "k < length buf"
    and first: "first = min (length buf - w) n"
    and buf1: "buf1 = overwrite buf w (take first p)"
    and buf2: "buf2 = (if n - first > 0 then overwrite buf1 0 (take (n - first) (drop first p)) else buf1)"
  shows "length buf2 = length buf"
    and "buf2 ! ((w + k) mod length buf) = (if k < n then p ! k else buf ! ((w + k) mod length buf))"
proof -
  have l1: "length buf1 = length buf"
    using w by (simp add: buf1)
  show l2: "length buf2 = length buf"
    by (simp add: buf2 l1)
  have fits1: "w + length (take first p) \<le> length buf"
    using w first by simp
  have lf: "length (take first p) = first"
    using n first by simp
  define q where "q = take (n - first) (drop first p)"
  have lq: "length q = n - first" "n - first > 0 \<Longrightarrow> first = length buf - w" "n - first \<le> w"
    using n first w by (auto simp: q_def)
  have b2: "buf2 = (if n - first > 0 then overwrite buf1 0 q else buf1)"
    by (simp add: buf2 q_def)
  show "buf2 ! ((w + k) mod length buf) = (if k < n then p ! k else buf ! ((w + k) mod length buf))"
  proof (cases "w + k < length buf")
    case True
    have b1: "buf1 ! (w + k) = (if k < first then p ! k else buf ! (w + k))"
      using True fits1 lf
      by (auto simp: buf1 nth_overwrite_inside nth_overwrite_outside)
    have "buf2 ! (w + k) = buf1 ! (w + k)"
      using True lq w by (simp add: b2 nth_overwrite_outside l1)
    with b1 True first w show ?thesis
      by auto
  next
    case False
    define j where "j = w + k - length buf"
    have j: "(w + k) mod length buf = j" "j < w"
      using False w k by (simp_all add: j_def le_mod_geq)
    have b1: "buf1 ! j = buf ! j"
      using j(2) w fits1 by (simp add: buf1 nth_overwrite_outside)
    show ?thesis
    proof (cases "n - first > 0")
      case True
      then have f: "first = length buf - w"
        using lq by simp
      have "buf2 ! j = (if j < n - first then q ! j else buf1 ! j)"
        using True lq w j(2) by (auto simp: b2 l1 nth_overwrite_inside nth_overwrite_outside)
      moreover have "q ! j = p ! (first + j)" if "j < n - first"
        using that n(2) by (simp add: q_def)
      moreover have "first + j = k" "j < n - first \<longleftrightarrow> k < n"
        using f False w True by (auto simp: j_def)
      ultimately show ?thesis
        using b1 j(1) by auto
    next
      case False
      then have "\<not> k < n"
        using first \<open>\<not> w + k < length buf\<close> by auto
      with False b1 j(1) show ?thesis
        by (simp add: buf2)
    qed
  qed
qed

text \<open>
  \<open>writeLocked\<close> with room for at least one byte appends the first \<open>n\<close> bytes of a non-empty \<open>p\<close>.
\<close>

lemma writeLocked_spec:
  assumes inv: "rb_inv rb" and p: "p \<noteq> []" and free: "free = length (rb_buf rb) - rb_len rb" "free > 0"
  defines "n \<equiv> min (length p) free"
  obtains rb' where "writeLocked rb p free = Some (rb', n)" "rb_inv rb'"
    "contents rb' = contents rb @ take n p" "Cap rb' = Cap rb" "rb_closed rb' = rb_closed rb"
    "rb_notFull rb' = rb_notFull rb" "rb_notEmpty rb' = rb_notEmpty rb"
proof -
  let ?cap = "length (rb_buf rb)" and ?w = "rb_w rb" and ?r = "rb_r rb" and ?l = "rb_len rb"
  have cap: "0 < ?cap" and w: "?w < ?cap" and r: "?r < ?cap"
    using inv by (auto simp: rb_inv_def)
  have n: "0 < n" "n \<le> free" "n \<le> length p"
    using p free by (auto simp: n_def Suc_le_eq)
  have nf: "\<not> rb_full rb"
    using free by (auto simp: rb_len_def)
  define first where "first = min (?cap - ?w) n"
  define buf1 where "buf1 = overwrite (rb_buf rb) ?w (take first p)"
  define buf2 where "buf2 = (if n - first > 0 then overwrite buf1 0 (take (n - first) (drop first p)) else buf1)"
  define w' where "w' = (?w + n) mod ?cap"
  define rb' where "rb' = rb\<lparr>rb_buf := buf2, rb_w := w', rb_full := (if w' = ?r then True else rb_full rb)\<rparr>"
  have len2: "length buf2 = ?cap"
    using ring_copy_nth(1) [OF w _ n(3) cap first_def buf1_def buf2_def] n(2) free by simp
  have nth2: "buf2 ! ((?w + k) mod ?cap) = (if k < n then p ! k else rb_buf rb ! ((?w + k) mod ?cap))"
    if "k < ?cap" for k
    using ring_copy_nth(2) [OF w _ n(3) that first_def buf1_def buf2_def] n(2) free by simp
  have wl: "writeLocked rb p free = Some (rb', n)"
    using cap by (simp add: writeLocked_def Let_def n_def [symmetric] first_def [symmetric]
        buf1_def [symmetric] buf2_def w'_def [symmetric] rb'_def)
  have f': "rb_buf rb' = buf2" "rb_r rb' = ?r"
    by (simp_all add: rb'_def)
  have inv': "rb_inv rb'"
    using r cap nf by (auto simp: rb_inv_def rb'_def len2 w'_def)
  have weq: "?w = (?r + ?l) mod ?cap"
    using rb_w_eq [OF inv] .
  have w'eq: "w' = (?r + (?l + n)) mod ?cap"
    by (simp add: w'_def weq mod_add_left_eq add.assoc)
  have len': "rb_len rb' = ?l + n"
  proof (cases "?l + n = ?cap")
    case True
    then show ?thesis
      using w'eq r by (simp add: rb_len_def rb'_def len2)
  next
    case False
    then have lt: "?l + n < ?cap"
      using n(2) free rb_len_le [OF inv] by simp
    have "w' = (if ?r + (?l + n) < ?cap then ?r + (?l + n) else ?r + (?l + n) - ?cap)"
      using lt r by (simp add: w'eq le_mod_geq)
    then show ?thesis
      using lt n(1) nf r by (auto simp: rb_len_def rb'_def len2)
  qed
  have "contents rb' = contents rb @ take n p"
  proof (rule nth_equalityI)
    show "length (contents rb') = length (contents rb @ take n p)"
      using n by (simp add: length_contents inv inv' len')
    fix i
    assume "i < length (contents rb')"
    then have i: "i < ?l + n"
      by (simp add: length_contents inv' len')
    have c': "contents rb' ! i = buf2 ! ((?r + i) mod ?cap)"
      using i by (simp add: nth_contents inv' len' f' len2)
    show "contents rb' ! i = (contents rb @ take n p) ! i"
    proof (cases "i < ?l")
      case True
      let ?k = "?cap - ?l + i"
      have k: "?k < ?cap" "\<not> ?k < n"
        using True n(2) free by auto
      have "(?w + ?k) mod ?cap = (?r + ?l + ?k) mod ?cap"
        by (simp add: weq mod_add_left_eq)
      also have "?r + ?l + ?k = ?r + i + ?cap"
        using rb_len_le [OF inv] by simp
      finally have "(?w + ?k) mod ?cap = (?r + i) mod ?cap"
        by simp
      with nth2 [OF k(1)] k(2) c' True show ?thesis
        by (simp add: nth_append length_contents inv nth_contents)
    next
      case False
      let ?k = "i - ?l"
      have k: "?k < n" "?k < ?cap"
        using False i n(2) free by auto
      have "(?w + ?k) mod ?cap = (?r + ?l + ?k) mod ?cap"
        by (simp add: weq mod_add_left_eq)
      with False have "(?w + ?k) mod ?cap = (?r + i) mod ?cap"
        by simp
      with nth2 [OF k(2)] k(1) c' False show ?thesis
        by (simp add: nth_append length_contents inv)
    qed
  qed
  moreover have "Cap rb' = Cap rb" "rb_closed rb' = rb_closed rb"
    "rb_notFull rb' = rb_notFull rb" "rb_notEmpty rb' = rb_notEmpty rb"
    by (simp_all add: rb'_def Cap_def len2)
  ultimately show thesis
    using that wl inv' by blast
qed

section \<open>Reading\<close>

lemma readLocked_spec:
  assumes inv: "rb_inv rb" and k: "0 < k" and avail: "avail = rb_len rb" "0 < avail"
  obtains rb' where "readLocked rb k avail = Some (rb', take k (contents rb))" "rb_inv rb'"
    "contents rb' = drop k (contents rb)" "Cap rb' = Cap rb" "rb_closed rb' = rb_closed rb"
    "rb_notFull rb' = rb_notFull rb" "rb_notEmpty rb' = rb_notEmpty rb"
proof -
  let ?cap = "length (rb_buf rb)" and ?w = "rb_w rb" and ?r = "rb_r rb" and ?l = "rb_len rb"
  define n where "n = min k ?l"
  define first where "first = min (?cap - ?r) n"
  define rb' where "rb' = rb\<lparr>rb_r := (?r + n) mod ?cap, rb_full := False\<rparr>"
  have cap: "0 < ?cap" and w: "?w < ?cap" and r: "?r < ?cap" and l: "?l \<le> ?cap"
    using inv rb_len_le by (auto simp: rb_inv_def)
  have n: "0 < n" "n \<le> ?l"
    using k avail by (auto simp: n_def)
  let ?d = "take first (drop ?r (rb_buf rb)) @ (if n - first > 0 then take (n - first) (rb_buf rb) else [])"
  have d: "?d = take k (contents rb)"
  proof (rule nth_equalityI)
    show "length ?d = length (take k (contents rb))"
      using n l r by (auto simp: length_contents inv n_def first_def)
    fix i
    assume "i < length ?d"
    then have i: "i < n"
      using l r n by (auto simp: first_def split: if_splits)
    have "take k (contents rb) ! i = rb_buf rb ! ((?r + i) mod ?cap)"
      using i n by (simp add: n_def nth_contents inv)
    also have "\<dots> = ?d ! i"
    proof (cases "i < first")
      case True
      then show ?thesis
        using r by (auto simp: nth_append first_def)
    next
      case False
      then have f: "first = ?cap - ?r" "?cap \<le> ?r + i"
        using i r by (auto simp: first_def)
      have "(?r + i) mod ?cap = ?r + i - ?cap"
        using f i n l r by (simp add: le_mod_geq)
      with f False i n l r show ?thesis
        by (simp add: nth_append add.commute)
    qed
    finally show "?d ! i = take k (contents rb) ! i" ..
  qed
  have rl: "readLocked rb k avail = Some (rb', take k (contents rb))"
    using cap by (simp add: readLocked_def Let_def n_def [symmetric] first_def [symmetric] avail
        rb'_def d [symmetric])
  have f': "rb_buf rb' = rb_buf rb" "rb_w rb' = ?w" "rb_r rb' = (?r + n) mod ?cap"
    by (simp_all add: rb'_def)
  have inv': "rb_inv rb'"
    using cap w by (simp add: rb_inv_def rb'_def)
  have len': "rb_len rb' = ?l - n"
  proof -
    have "?w = (?r + ?l) mod ?cap"
      using rb_w_eq [OF inv] .
    then have weq: "?w = (if ?r + ?l < ?cap then ?r + ?l else ?r + ?l - ?cap)"
      using r l by (simp add: le_mod_geq)
    have req: "rb_r rb' = (if ?r + n < ?cap then ?r + n else ?r + n - ?cap)"
      using r l n by (simp add: f' le_mod_geq)
    show ?thesis
      unfolding rb_len_def [of rb'] f'(1,2) req
      using weq n l r by (auto simp: rb'_def split: if_splits)
  qed
  have "contents rb' = drop k (contents rb)"
  proof (rule nth_equalityI)
    show "length (contents rb') = length (drop k (contents rb))"
      by (simp add: length_contents inv inv' len' n_def)
    fix i
    assume "i < length (contents rb')"
    then have i: "i < ?l - n"
      by (simp add: length_contents inv' len')
    then have kn: "k = n"
      by (simp add: n_def)
    show "contents rb' ! i = drop k (contents rb) ! i"
      using i by (simp add: kn nth_contents inv inv' len' f' length_contents mod_add_left_eq add.assoc)
  qed
  moreover have "Cap rb' = Cap rb" "rb_closed rb' = rb_closed rb"
    "rb_notFull rb' = rb_notFull rb" "rb_notEmpty rb' = rb_notEmpty rb"
    by (simp_all add: rb'_def Cap_def)
  ultimately show thesis
    using that rl inv' by blast
qed

section \<open>The operations on the abstraction\<close>

lemma take_min_length: "take (min (length p) m) p = take m p"
  by (simp add: min_def)

lemma WriteNoBlock_spec:
  assumes "rb_inv rb" and "\<not> rb_closed rb" and "p \<noteq> []"
  obtains rb' where
    "WriteNoBlock rb p = Some (rb', min (length p) (Cap rb - length (contents rb)))" "rb_inv rb'"
    "contents rb' = contents rb @ take (Cap rb - length (contents rb)) p"
    "Cap rb' = Cap rb" "\<not> rb_closed rb'"
proof (cases "Cap rb - rb_len rb = 0")
  case True
  with assms show thesis
    by (intro that [of rb]) (simp_all add: WriteNoBlock_def lenLocked_eq length_contents Cap_def)
next
  case False
  obtain rb1 where 1: "writeLocked rb p (length (rb_buf rb) - rb_len rb) =
        Some (rb1, min (length p) (length (rb_buf rb) - rb_len rb))" "rb_inv rb1"
      "contents rb1 = contents rb @ take (min (length p) (length (rb_buf rb) - rb_len rb)) p"
      "Cap rb1 = Cap rb" "rb_closed rb1 = rb_closed rb"
    using writeLocked_spec [OF assms(1,3) refl] False by (auto simp: Cap_def)
  have "rb_inv (rb1\<lparr>rb_notEmpty := x\<rparr>) = rb_inv rb1" "contents (rb1\<lparr>rb_notEmpty := x\<rparr>) = contents rb1" for x
    by (simp_all add: rb_inv_def contents_def rb_len_def)
  with 1 assms False show thesis
    by (intro that [of "rb1\<lparr>rb_notEmpty := Suc (rb_notEmpty rb1)\<rparr>"])
       (simp_all add: WriteNoBlock_def lenLocked_eq length_contents Cap_def take_min_length)
qed

lemma WriteNoBlock_closed: "rb_closed rb \<Longrightarrow> WriteNoBlock rb p = Some (rb, 0)"
  by (simp add: WriteNoBlock_def)

lemma ReadNoBlock_spec:
  assumes "rb_inv rb" and "0 < k"
  obtains rb' where "ReadNoBlock rb k = Some (rb', take k (contents rb))" "rb_inv rb'"
    "contents rb' = drop k (contents rb)" "Cap rb' = Cap rb" "rb_closed rb' = rb_closed rb"
proof (cases "rb_len rb = 0")
  case True
  then have "contents rb = []"
    using length_contents [OF assms(1)] by simp
  with True assms show thesis
    by (intro that [of rb]) (simp_all add: ReadNoBlock_def lenLocked_eq)
next
  case False
  obtain rb1 where 1: "readLocked rb k (rb_len rb) = Some (rb1, take k (contents rb))" "rb_inv rb1"
      "contents rb1 = drop k (contents rb)" "Cap rb1 = Cap rb" "rb_closed rb1 = rb_closed rb"
    using readLocked_spec [OF assms refl] False by auto
  have "rb_inv (rb1\<lparr>rb_notFull := x\<rparr>) = rb_inv rb1" "contents (rb1\<lparr>rb_notFull := x\<rparr>) = contents rb1" for x
    by (simp_all add: rb_inv_def contents_def rb_len_def)
  with 1 assms False show thesis
    by (intro that [of "rb1\<lparr>rb_notFull := Suc (rb_notFull rb1)\<rparr>"])
       (simp_all add: ReadNoBlock_def lenLocked_eq Cap_def)
qed

lemma contents_linear: "rb_r rb < rb_w rb \<Longrightarrow> rb_inv rb \<Longrightarrow>
    contents rb = take (rb_w rb - rb_r rb) (drop (rb_r rb) (rb_buf rb))"
  by (auto simp: contents_def rb_len_def rb_inv_def rotate_drop_take)

lemma contents_wrapped: "rb_w rb \<le> rb_r rb \<Longrightarrow> rb_inv rb \<Longrightarrow> rb_len rb \<noteq> 0 \<Longrightarrow>
    contents rb = drop (rb_r rb) (rb_buf rb) @ take (rb_w rb) (rb_buf rb)"
  by (auto simp: contents_def rb_len_def rb_inv_def rotate_drop_take min_def split: if_splits)

lemma Grow_spec:
  assumes inv: "rb_inv rb"
  obtains rb' where "Grow rb newCap = Some rb'" "rb_inv rb'" "contents rb' = contents rb"
    "Cap rb' = max newCap (Cap rb)" "rb_closed rb' = rb_closed rb"
proof (cases "newCap \<le> length (rb_buf rb)")
  case True
  with inv show thesis
    by (intro that [of rb]) (simp_all add: Grow_def Cap_def max_def)
next
  case False
  let ?z = "replicate newCap (0 :: u8)"
  define nb where "nb = (if rb_len rb > 0 then overwrite ?z 0 (contents rb) else ?z)"
  define rb' where "rb' = rb\<lparr>rb_buf := nb, rb_r := 0, rb_w := rb_len rb, rb_full := False,
      rb_notFull := Suc (rb_notFull rb)\<rparr>"
  have l: "rb_len rb < newCap" "length (contents rb) = rb_len rb"
    using False rb_len_le [OF inv] length_contents [OF inv] by auto
  have two: "overwrite (overwrite ?z 0 xs) (length xs) ys = overwrite ?z 0 (xs @ ys)"
    if "length xs + length ys \<le> newCap" for xs ys
    using that by (simp add: overwrite_def)
  have "Grow rb newCap = Some rb'"
  proof (cases "rb_r rb < rb_w rb")
    case True
    with False inv show ?thesis
      by (simp add: Grow_def lenLocked_eq rb'_def nb_def contents_linear Let_def)
  next
    case w: False
    show ?thesis
    proof (cases "rb_len rb = 0")
      case True
      with False inv show ?thesis
        by (simp add: Grow_def lenLocked_eq rb'_def nb_def Let_def)
    next
      case nz: False
      have "contents rb = drop (rb_r rb) (rb_buf rb) @ take (rb_w rb) (rb_buf rb)"
        using contents_wrapped inv nz w by simp
      moreover have "length (drop (rb_r rb) (rb_buf rb)) + length (take (rb_w rb) (rb_buf rb)) \<le> newCap"
        using False inv w by (auto simp: rb_inv_def)
      ultimately show ?thesis
        using False inv w nz two [of "drop (rb_r rb) (rb_buf rb)" "take (rb_w rb) (rb_buf rb)"]
        by (auto simp: Grow_def lenLocked_eq rb'_def nb_def Let_def)
    qed
  qed
  moreover have "length nb = newCap"
    by (simp add: nb_def)
  moreover have "take (rb_len rb) nb = contents rb"
    using l by (auto simp: nb_def overwrite_def)
  moreover have "rb_len rb' = rb_len rb"
    unfolding rb_len_def [of rb'] by (simp add: rb'_def)
  ultimately have "contents rb' = contents rb"
    unfolding contents_def [of rb'] by (simp add: rb'_def)
  moreover have "rb_inv rb'" "Cap rb' = max newCap (Cap rb)" "rb_closed rb' = rb_closed rb"
    using l False \<open>length nb = newCap\<close> by (simp_all add: rb'_def rb_inv_def Cap_def)
  ultimately show thesis
    using that \<open>Grow rb newCap = Some rb'\<close> by blast
qed

interpretation ring: byte_queue rb_inv contents Cap rb_closed WriteNoBlock ReadNoBlock Grow
proof
  fix rb p k n
  show "rb_inv rb \<Longrightarrow> length (contents rb) \<le> Cap rb"
    by (simp add: length_contents rb_len_le Cap_def)
  show "\<exists>q'. WriteNoBlock rb p = Some (q', min (length p) (Cap rb - length (contents rb))) \<and> rb_inv q' \<and>
      contents q' = contents rb @ take (Cap rb - length (contents rb)) p \<and> Cap q' = Cap rb \<and> \<not> rb_closed q'"
    if "rb_inv rb" "\<not> rb_closed rb" "p \<noteq> []"
    using WriteNoBlock_spec [OF that] by metis
  show "rb_inv rb \<Longrightarrow> rb_closed rb \<Longrightarrow> WriteNoBlock rb p = Some (rb, 0)"
    by (rule WriteNoBlock_closed)
  show "\<exists>q'. ReadNoBlock rb k = Some (q', take k (contents rb)) \<and> rb_inv q' \<and>
      contents q' = drop k (contents rb) \<and> Cap q' = Cap rb \<and> rb_closed q' = rb_closed rb"
    if "rb_inv rb" "0 < k"
    using ReadNoBlock_spec [OF that] by metis
  show "\<exists>q'. Grow rb n = Some q' \<and> rb_inv q' \<and> contents q' = contents rb \<and> Cap q' = max n (Cap rb) \<and>
      rb_closed q' = rb_closed rb"
    if "rb_inv rb"
    using Grow_spec [OF that] by metis
qed

lemma Len_eq: "rb_inv rb \<Longrightarrow> Len rb = Some (length (contents rb))"
  by (simp add: Len_def lenLocked_eq length_contents)

lemma Free_eq: "rb_inv rb \<Longrightarrow> Free rb = Some (Cap rb - length (contents rb))"
  by (simp add: Free_def lenLocked_eq length_contents Cap_def)

lemma CloseWrite_spec [simp]:
  "rb_inv (CloseWrite rb) = rb_inv rb" "contents (CloseWrite rb) = contents rb"
  "Cap (CloseWrite rb) = Cap rb" "rb_closed (CloseWrite rb)"
  by (simp_all add: CloseWrite_def rb_inv_def contents_def rb_len_def Cap_def)

section \<open>A blocking writer and a blocking reader\<close>

text \<open>
  One goroutine in \<open>Write(p)\<close> and one in a loop of \<open>Read\<close> calls with non-empty slices, while the
  buffer may be grown in between. A goroutine that waits re-tries once its generation has passed,
  so a waiting round changes nothing and is left out.
\<close>

record rw_state =
  rw_rb :: ringBuffer
  rw_written :: nat
  rw_got :: bytes

inductive rw_step :: "bytes \<Rightarrow> rw_state \<Rightarrow> rw_state \<Rightarrow> bool" for p where
  writer: "Write_round (rw_rb s) p (rw_written s) = Some (Write_more rb n) \<Longrightarrow>
     rw_step p s (s\<lparr>rw_rb := rb, rw_written := n\<rparr>)"
| reader: "0 < k \<Longrightarrow> Read_round (rw_rb s) k = Some (Read_data rb d) \<Longrightarrow>
     rw_step p s (s\<lparr>rw_rb := rb, rw_got := rw_got s @ d\<rparr>)"
| grower: "Grow (rw_rb s) n = Some rb \<Longrightarrow> rw_step p s (s\<lparr>rw_rb := rb\<rparr>)"

definition rw_inv :: "bytes \<Rightarrow> rw_state \<Rightarrow> bool" where
  "rw_inv p s \<longleftrightarrow> rb_inv (rw_rb s) \<and> \<not> rb_closed (rw_rb s) \<and> rw_written s \<le> length p \<and>
     rw_got s @ contents (rw_rb s) = take (rw_written s) p"

lemma Write_round_eq:
  assumes "rb_inv rb" "\<not> rb_closed rb" "written < length p"
  shows "Write_round rb p written =
    (if length (contents rb) = Cap rb then Some (Write_wait written (rb_notFull rb))
     else map_option (\<lambda>(rb', n). Write_more rb' (written + n)) (WriteNoBlock rb (drop written p)))"
  using assms rb_len_le [of rb]
  by (auto simp: Write_round_def WriteNoBlock_def lenLocked_eq length_contents Cap_def Let_def
      split: option.splits bind_splits)

lemma Read_round_eq:
  assumes "rb_inv rb" "contents rb \<noteq> []"
  shows "Read_round rb k = map_option (\<lambda>(rb', d). Read_data rb' d) (ReadNoBlock rb k)"
proof -
  have "0 < rb_len rb"
    using assms(2) length_contents [OF assms(1)] by (cases "contents rb") auto
  with assms show ?thesis
    by (auto simp: Read_round_def ReadNoBlock_def lenLocked_eq split: bind_splits)
qed

lemma rw_step_inv:
  assumes "rw_step p s t" and "rw_inv p s"
  shows "rw_inv p t"
  using assms(1)
proof (cases rule: rw_step.cases)
  case (writer rb n)
  have lt: "rw_written s < length p"
    using writer(2) by (auto simp: Write_round_def split: if_splits)
  then have ne: "drop (rw_written s) p \<noteq> []"
    by simp
  from writer(2) lt assms(2) obtain m where m: "WriteNoBlock (rw_rb s) (drop (rw_written s) p) = Some (rb, m)"
      "n = rw_written s + m"
    by (auto simp: Write_round_eq rw_inv_def split: if_splits)
  from ring.wr_law [OF _ ne, of "rw_rb s"] m assms(2)
  have "rb_inv rb" "\<not> rb_closed rb" "m \<le> length (drop (rw_written s) p)"
      "contents rb = contents (rw_rb s) @ take m (drop (rw_written s) p)"
    by (auto simp: rw_inv_def)
  with assms(2) m(2) lt show ?thesis
    by (auto simp: writer(1) rw_inv_def take_add)
next
  case (reader k rb d)
  have ne: "contents (rw_rb s) \<noteq> []"
    using reader(3) assms(2) length_contents [of "rw_rb s"]
    by (auto simp: Read_round_def rw_inv_def lenLocked_eq split: if_splits)
  with reader(3) assms(2) have "ReadNoBlock (rw_rb s) k = Some (rb, d)"
    by (auto simp: Read_round_eq rw_inv_def)
  with ring.rd_law [of "rw_rb s" k] reader(2) assms(2)
  have "rb_inv rb" "\<not> rb_closed rb" "d @ contents rb = contents (rw_rb s)"
    by (auto simp: rw_inv_def)
  with assms(2) show ?thesis
    by (simp add: reader(1) rw_inv_def)
next
  case (grower n rb)
  with ring.gr_law [of "rw_rb s" n] assms(2) show ?thesis
    by (auto simp: rw_inv_def)
qed

end
