(* ===== verification/Packet.thy ===== *)
theory Packet
  imports Prelude
begin

text \<open>
  Packet buffers: \<open>src/packet/packet.go\<close>, \<open>src/packet/refbuf.go\<close> and \<open>src/packet/gsobuf.go\<close>.

  A \<open>PacketBuffer\<close> owns one backing array; the header and payload slices point into it. A slice is
  therefore a view, the pair of its start and its length, and writing through a view changes the
  backing array. The buffers come from a \<open>sync.Pool\<close>: the array handed out is an argument, and its
  contents are whatever its last user left there.
\<close>

section \<open>Packet buffers\<close>

definition MaxHeadroom :: nat where
  "MaxHeadroom = 80"

definition MaxPacketSize :: nat where
  "MaxPacketSize = 1560"

type_synonym view = "nat \<times> nat"

record PacketBuffer =
  pb_buf :: bytes
  pb_headroom :: nat
  pb_consumed :: nat
  pb_NetworkHeader :: "view option"
  pb_TransportHeader :: "view option"
  pb_Data :: "view option"

definition pb_reset :: "PacketBuffer \<Rightarrow> nat \<Rightarrow> PacketBuffer" where
  "pb_reset pb headroom = pb\<lparr>pb_headroom := headroom, pb_consumed := 0, pb_NetworkHeader := None,
     pb_TransportHeader := None, pb_Data := None\<rparr>"

definition ensureCapacity :: "PacketBuffer \<Rightarrow> nat \<Rightarrow> PacketBuffer" where
  "ensureCapacity pb n = (if length (pb_buf pb) < n then pb\<lparr>pb_buf := replicate n 0\<rparr> else pb)"

text \<open>A pooled object: a backing array with stale bytes; \<open>Release\<close> cleared the other fields.\<close>

definition pooled :: "bytes \<Rightarrow> PacketBuffer" where
  "pooled arr = \<lparr>pb_buf = arr, pb_headroom = 0, pb_consumed = 0, pb_NetworkHeader = None,
     pb_TransportHeader = None, pb_Data = None\<rparr>"

definition NewPacketBuffer :: "bytes \<Rightarrow> nat \<Rightarrow> PacketBuffer" where
  "NewPacketBuffer arr headroom = ensureCapacity (pb_reset (pooled arr) headroom) headroom"

definition NewPacketBufferWithData :: "bytes \<Rightarrow> bytes \<Rightarrow> PacketBuffer" where
  "NewPacketBufferWithData arr d =
     (let pb = ensureCapacity (pb_reset (pooled arr) 0) (length d)
      in pb\<lparr>pb_buf := overwrite (pb_buf pb) 0 d, pb_Data := Some (0, min (length (pb_buf pb)) (length d))\<rparr>)"

text \<open>\<open>Prepend\<close> moves the start of the packet down and returns the view of the new header.\<close>

definition Prepend :: "PacketBuffer \<Rightarrow> nat \<Rightarrow> (PacketBuffer \<times> view) go" where
  "Prepend pb n =
     (let consumed = pb_consumed pb + n in
      if pb_headroom pb < consumed then panic
      else let start = pb_headroom pb - consumed in
        if start + n \<le> length (pb_buf pb) then Some (pb\<lparr>pb_consumed := consumed\<rparr>, (start, n)) else panic)"

definition AsSlice :: "PacketBuffer \<Rightarrow> bytes go" where
  "AsSlice pb =
     (if pb_headroom pb < pb_consumed pb then panic
      else let start = pb_headroom pb - pb_consumed pb;
               end = (case pb_Data pb of None \<Rightarrow> pb_headroom pb | Some (_, n) \<Rightarrow> pb_headroom pb + n)
           in subslice (pb_buf pb) start end)"

definition Buf :: "PacketBuffer \<Rightarrow> bytes go" where
  "Buf pb = slice_from (pb_buf pb) (pb_headroom pb)"

definition AppendData :: "PacketBuffer \<Rightarrow> bytes \<Rightarrow> PacketBuffer go" where
  "AppendData pb d =
     (let pb = ensureCapacity pb (pb_headroom pb + length d) in
      do {
        _ \<leftarrow> subslice (pb_buf pb) (pb_headroom pb) (pb_headroom pb + length d);
        buf \<leftarrow> copy_at (pb_buf pb) (pb_headroom pb) d;
        Some (pb\<lparr>pb_Data := Some (pb_headroom pb, length d), pb_buf := buf\<rparr>) })"

text \<open>\<open>Release\<close>: the array that goes back to the pool.\<close>

definition Release :: "PacketBuffer \<Rightarrow> bytes" where
  "Release pb = (if length (pb_buf pb) > MaxPacketSize then replicate MaxPacketSize 0 else pb_buf pb)"

definition view_bytes :: "PacketBuffer \<Rightarrow> view \<Rightarrow> bytes go" where
  "view_bytes pb v = subslice (pb_buf pb) (fst v) (fst v + snd v)"

text \<open>Storing bytes through a slice that starts at \<open>off\<close>.\<close>

definition write_at :: "PacketBuffer \<Rightarrow> nat \<Rightarrow> bytes \<Rightarrow> PacketBuffer go" where
  "write_at pb off d = do { buf \<leftarrow> copy_at (pb_buf pb) off d; Some (pb\<lparr>pb_buf := buf\<rparr>) }"

text \<open>Working on the bytes of a slice in place.\<close>

definition update_view :: "PacketBuffer \<Rightarrow> view \<Rightarrow> (bytes \<Rightarrow> bytes go) \<Rightarrow> PacketBuffer go" where
  "update_view pb v f = do { b \<leftarrow> view_bytes pb v; b \<leftarrow> f b; write_at pb (fst v) b }"

section \<open>The send path: headers in front of the payload\<close>

definition pb_wf :: "PacketBuffer \<Rightarrow> bool" where
  "pb_wf pb \<longleftrightarrow> pb_consumed pb \<le> pb_headroom pb \<and> pb_headroom pb \<le> length (pb_buf pb) \<and>
     (case pb_Data pb of None \<Rightarrow> True | Some (s, n) \<Rightarrow> s = pb_headroom pb \<and> s + n \<le> length (pb_buf pb))"

lemma pb_wf_new: "pb_wf (NewPacketBuffer arr h)"
  by (simp add: pb_wf_def NewPacketBuffer_def ensureCapacity_def pb_reset_def pooled_def)

lemma AsSlice_new: "AsSlice (NewPacketBuffer arr h) = Some []"
  by (simp add: AsSlice_def NewPacketBuffer_def ensureCapacity_def pb_reset_def pooled_def)

lemma new_fields [simp]:
  "pb_headroom (NewPacketBuffer arr h) = h" "pb_consumed (NewPacketBuffer arr h) = 0"
  "pb_Data (NewPacketBuffer arr h) = None"
  by (simp_all add: NewPacketBuffer_def ensureCapacity_def pb_reset_def pooled_def)

lemma AppendData_new:
  obtains pb where "AppendData (NewPacketBuffer arr h) d = Some pb" "pb_wf pb" "AsSlice pb = Some d"
    "pb_headroom pb = h" "pb_consumed pb = 0"
proof -
  let ?p = "ensureCapacity (NewPacketBuffer arr h) (h + length d)"
  have len: "h + length d \<le> length (pb_buf ?p)" and f: "pb_headroom ?p = h" "pb_consumed ?p = 0"
    by (simp_all add: ensureCapacity_def)
  let ?q = "?p\<lparr>pb_Data := Some (h, length d), pb_buf := overwrite (pb_buf ?p) h d\<rparr>"
  have "AppendData (NewPacketBuffer arr h) d = Some ?q"
    using len f by (simp add: AppendData_def Let_def)
  moreover have "pb_wf ?q" "AsSlice ?q = Some d"
    using len f by (simp_all add: pb_wf_def AsSlice_def overwrite_fits)
  ultimately show thesis
    using that f by simp
qed

text \<open>
  Prepending a header and filling the view it returned puts the header bytes in front of what the
  packet already held, whatever stale bytes the array had there.
\<close>

lemma Prepend_write:
  assumes wf: "pb_wf pb" and s: "AsSlice pb = Some s" and room: "pb_consumed pb + length h \<le> pb_headroom pb"
  obtains pb1 v pb2 where "Prepend pb (length h) = Some (pb1, v)" "v = (pb_headroom pb - pb_consumed pb - length h, length h)"
    "length (pb_buf pb1) = length (pb_buf pb)" "fst v + length h \<le> length (pb_buf pb1)"
    "write_at pb1 (fst v) h = Some pb2" "pb_wf pb2" "AsSlice pb2 = Some (h @ s)"
    "pb_headroom pb2 = pb_headroom pb" "pb_consumed pb2 = pb_consumed pb + length h"
    "drop (fst v) (pb_buf pb2) = h @ drop (fst v + length h) (pb_buf pb)"
proof -
  let ?n = "length h" and ?H = "pb_headroom pb" and ?c = "pb_consumed pb" and ?b = "pb_buf pb"
  define st where "st = ?H - ?c - ?n"
  let ?pb1 = "pb\<lparr>pb_consumed := ?c + ?n\<rparr>"
  let ?pb2 = "?pb1\<lparr>pb_buf := overwrite ?b st h\<rparr>"
  have H: "?H \<le> length ?b" "st + ?n = ?H - ?c" "st + ?n \<le> length ?b"
    using wf room by (auto simp: pb_wf_def st_def)
  have 1: "Prepend pb ?n = Some (?pb1, (st, ?n))"
    using room H by (simp add: Prepend_def st_def Let_def)
  have 2: "write_at ?pb1 st h = Some ?pb2"
    using H by (simp add: write_at_def)
  define en where "en = (case pb_Data pb of None \<Rightarrow> ?H | Some (_, n) \<Rightarrow> ?H + n)"
  have en: "?H \<le> en" "en \<le> length ?b"
    using wf by (auto simp: en_def pb_wf_def split: option.splits)
  have s_eq: "s = take (en - (st + ?n)) (drop (st + ?n) ?b)"
    using s wf en H by (simp add: AsSlice_def pb_wf_def en_def [symmetric] Let_def)
  have o: "overwrite ?b st h = take st ?b @ h @ drop (st + ?n) ?b"
    using H by (simp add: overwrite_fits)
  have "AsSlice ?pb2 = subslice (overwrite ?b st h) st en"
    using room by (auto simp: AsSlice_def en_def st_def split: option.split)
  also have "\<dots> = Some (take (en - st) (h @ drop (st + ?n) ?b))"
    using H en by (simp add: o)
  also have "take (en - st) (h @ drop (st + ?n) ?b) = h @ s"
    using H en by (simp add: s_eq)
  finally have 3: "AsSlice ?pb2 = Some (h @ s)" .
  have 4: "pb_wf ?pb2"
    using wf room H by (auto simp: pb_wf_def split: option.splits)
  have 5: "drop st (pb_buf ?pb2) = h @ drop (st + ?n) ?b"
    using H by (simp add: o)
  show thesis
    by (rule that [of ?pb1 "(st, ?n)" ?pb2]) (use 1 2 3 4 5 H in \<open>simp_all add: st_def\<close>)
qed

text \<open>\<open>v\<close> is the slice of the header \<open>h\<close> in front of the packet, and \<open>s\<close> is what follows it.\<close>

definition front :: "PacketBuffer \<Rightarrow> view \<Rightarrow> bytes \<Rightarrow> bytes \<Rightarrow> bool" where
  "front pb v h s \<longleftrightarrow> pb_wf pb \<and> AsSlice pb = Some (h @ s) \<and> v = (pb_headroom pb - pb_consumed pb, length h)"

lemma Prepend_front:
  assumes "pb_wf pb" "AsSlice pb = Some s" "pb_consumed pb + n \<le> pb_headroom pb"
  shows "\<exists>pb' v h. Prepend pb n = Some (pb', v) \<and> front pb' v h s \<and> length h = n \<and> pb_headroom pb' = pb_headroom pb \<and>
    pb_consumed pb' = pb_consumed pb + n"
proof -
  let ?st = "pb_headroom pb - pb_consumed pb - n" and ?pb = "pb\<lparr>pb_consumed := pb_consumed pb + n\<rparr>"
  let ?h = "take n (drop ?st (pb_buf pb))"
  define en where "en = (case pb_Data pb of None \<Rightarrow> pb_headroom pb | Some (_, n) \<Rightarrow> pb_headroom pb + n)"
  have en: "pb_headroom pb \<le> en" "en \<le> length (pb_buf pb)"
    using assms(1) by (auto simp: en_def pb_wf_def split: option.splits)
  have s: "s = take (en - (?st + n)) (drop (?st + n) (pb_buf pb))"
    using assms en by (simp add: AsSlice_def pb_wf_def en_def [symmetric] Let_def)
  have "AsSlice ?pb = subslice (pb_buf pb) ?st en"
    using assms(3) by (auto simp: AsSlice_def en_def split: option.split)
  also have "\<dots> = Some (take (n + (en - (?st + n))) (drop ?st (pb_buf pb)))"
    using en assms(3) by (simp add: algebra_simps)
  also have "take (n + (en - (?st + n))) (drop ?st (pb_buf pb)) = ?h @ s"
    by (simp only: take_add s drop_drop add.commute [of ?st n])
  finally have "front ?pb (?st, n) ?h s"
    using assms en by (auto simp: front_def pb_wf_def min_def split: option.splits)
  moreover have "Prepend pb n = Some (?pb, (?st, n))"
    using assms(1,3) by (auto simp: Prepend_def Let_def pb_wf_def)
  moreover have "length ?h = n"
    using en assms(3) by simp
  ultimately show ?thesis
    by fastforce
qed

lemma update_front:
  assumes "front pb v h s" "f h = Some h'" "length h' = length h"
  shows "\<exists>pb'. update_view pb v f = Some pb' \<and> front pb' v h' s \<and> pb_headroom pb' = pb_headroom pb \<and>
    pb_consumed pb' = pb_consumed pb"
proof -
  let ?st = "pb_headroom pb - pb_consumed pb" and ?b = "pb_buf pb"
  define en where "en = (case pb_Data pb of None \<Rightarrow> pb_headroom pb | Some (_, n) \<Rightarrow> pb_headroom pb + n)"
  have wf: "pb_consumed pb \<le> pb_headroom pb" "pb_headroom pb \<le> en" "en \<le> length ?b"
    using assms(1) by (auto simp: front_def en_def pb_wf_def split: option.splits)
  have sl: "take (en - ?st) (drop ?st ?b) = h @ s" and v: "v = (?st, length h)"
    using assms(1) wf by (simp_all add: front_def AsSlice_def en_def [symmetric])
  obtain p r where b: "?b = p @ h @ s @ r" and len: "length p = ?st"
  proof
    show "?b = take ?st ?b @ h @ s @ drop (en - ?st) (drop ?st ?b)"
      using append_take_drop_id [of ?st ?b] append_take_drop_id [of "en - ?st" "drop ?st ?b"] sl by (metis append.assoc)
  qed (use wf in simp)
  let ?pb = "pb\<lparr>pb_buf := p @ h' @ s @ r\<rparr>"
  have n: "en = length p + (length h' + length s)"
    using arg_cong [OF sl, of length] wf len assms(3) by auto
  have "update_view pb v f = Some ?pb"
    using assms(2,3) by (simp add: update_view_def view_bytes_def write_at_def v b overwrite_fits flip: len)
  moreover have "AsSlice ?pb = subslice (p @ h' @ s @ r) ?st en"
    using wf by (auto simp: AsSlice_def en_def split: option.split)
  then have "AsSlice ?pb = Some (h' @ s)"
    by (simp add: n flip: len)
  ultimately show ?thesis
    using assms v b by (intro exI [of _ ?pb]) (auto simp: front_def pb_wf_def split: option.splits)
qed

section \<open>Reference-counted payload buffers\<close>

definition MaxPayloadSize :: nat where
  "MaxPayloadSize = 1500"

record RefBuf =
  ref_buf :: bytes
  ref_len :: nat
  ref_ref :: int

definition GetRefBuf :: "bytes \<Rightarrow> RefBuf" where
  "GetRefBuf arr = \<lparr>ref_buf = arr, ref_len = 0, ref_ref = 1\<rparr>"

definition IncRef :: "RefBuf \<Rightarrow> RefBuf" where
  "IncRef rb = rb\<lparr>ref_ref := ref_ref rb + 1\<rparr>"

text \<open>\<open>DecRef\<close>: the buffer afterwards and the array put back into the pool, if any.\<close>

definition DecRef :: "RefBuf \<Rightarrow> RefBuf \<times> bytes option" where
  "DecRef rb =
     (let rb = rb\<lparr>ref_ref := ref_ref rb - 1\<rparr> in
      if ref_ref rb = 0 then
        let rb = rb\<lparr>ref_len := 0\<rparr>;
            rb = (if length (ref_buf rb) > MaxPayloadSize then rb\<lparr>ref_buf := replicate MaxPayloadSize 0\<rparr> else rb)
        in (rb, Some (ref_buf rb))
      else (rb, None))"

definition EnsureCapacity :: "RefBuf \<Rightarrow> nat \<Rightarrow> RefBuf" where
  "EnsureCapacity rb n = (if length (ref_buf rb) < n then rb\<lparr>ref_buf := replicate n 0\<rparr> else rb)"

definition RefBuf_Bytes :: "RefBuf \<Rightarrow> bytes go" where
  "RefBuf_Bytes rb = subslice (ref_buf rb) 0 (ref_len rb)"

definition SetLen :: "RefBuf \<Rightarrow> nat \<Rightarrow> RefBuf" where
  "SetLen rb n = rb\<lparr>ref_len := n\<rparr>"

definition RefBuf_Len :: "RefBuf \<Rightarrow> nat" where
  "RefBuf_Len rb = ref_len rb"

section \<open>GSO buffers\<close>

definition GSOBufSize :: nat where
  "GSOBufSize = 65536"

text \<open>The pool only ever holds arrays of \<open>GSOBufSize\<close> bytes; a shorter slice cannot be put back.\<close>

definition PutGSOBuf :: "bytes \<Rightarrow> bytes go" where
  "PutGSOBuf b = subslice b 0 GSOBufSize"

end
