(* ===== verification/Fragmentation.thy ===== *)
theory Fragmentation
  imports IPv4 Packet
begin

unbundle bit_operations_syntax

text \<open>
  IPv4 fragmentation and reassembly: \<open>src/stack/fragmentation.go\<close>.

  The map of fragment sets is an association list with distinct keys; its order stands for the
  order in which \<open>range\<close> visits the map, which Go leaves open, so nothing proved here may depend on
  a particular order. Sets are reached through pointers in the map; the model updates the entry of
  the map instead. Times are integers (nanoseconds), and the clock reading of a call is an
  argument. \<open>sort.Slice\<close> by offset is \<open>sort_key\<close>: fragments of a set never share an offset.
\<close>

section \<open>State\<close>

definition ipv4ReassemblyTimeout :: int where
  "ipv4ReassemblyTimeout = 30 * 1000000000"

definition ipv4ReassemblyHighThreshold :: int where
  "ipv4ReassemblyHighThreshold = 4 * 1048576"

definition ipv4ReassemblyLowThreshold :: int where
  "ipv4ReassemblyLowThreshold = 3 * 1048576"

definition ipv4MaxPayloadSize :: nat where
  "ipv4MaxPayloadSize = 0xffff - IPv4MinHeaderSize"

record ipv4FragmentKey =
  fk_src :: Address
  fk_dst :: Address
  fk_id :: u16
  fk_proto :: TransportProtocolNumber

record ipv4Fragment =
  fr_offset :: nat
  fr_data :: bytes

record ipv4FragmentSet =
  fs_createdAt :: int
  fs_header :: "bytes option"
  fs_fragments :: "ipv4Fragment list"
  fs_totalLen :: int
  fs_mem :: int

record ipv4Reassembler =
  rs_sets :: "(ipv4FragmentKey \<times> ipv4FragmentSet) list"
  rs_mem :: int
  rs_timeout :: int

definition newIPv4Reassembler :: ipv4Reassembler where
  "newIPv4Reassembler = \<lparr>rs_sets = [], rs_mem = 0, rs_timeout = ipv4ReassemblyTimeout\<rparr>"

text \<open>Storing to an existing or a new key of the map, and \<open>delete\<close>.\<close>

fun set_put :: "'k \<Rightarrow> 'v \<Rightarrow> ('k \<times> 'v) list \<Rightarrow> ('k \<times> 'v) list" where
  "set_put k v [] = [(k, v)]"
| "set_put k v ((k', v') # m) = (if k' = k then (k, v) # m else (k', v') # set_put k v m)"

definition set_del :: "'k \<Rightarrow> ('k \<times> 'v) list \<Rightarrow> ('k \<times> 'v) list" where
  "set_del k m = filter (\<lambda>(k', _). k' \<noteq> k) m"

section \<open>Reassembly\<close>

definition releaseSetLocked :: "ipv4Reassembler \<Rightarrow> ipv4FragmentKey \<Rightarrow> ipv4FragmentSet \<Rightarrow> ipv4Reassembler" where
  "releaseSetLocked r key s =
     (let mem = rs_mem r - fs_mem s
      in r\<lparr>rs_sets := set_del key (rs_sets r), rs_mem := (if mem < 0 then 0 else mem)\<rparr>)"

definition evictExpiredLocked :: "ipv4Reassembler \<Rightarrow> int \<Rightarrow> ipv4Reassembler" where
  "evictExpiredLocked r now =
     fold (\<lambda>(key, s) r. if now - fs_createdAt s > rs_timeout r then releaseSetLocked r key s else r)
       (rs_sets r) r"

text \<open>The scan for the oldest set: a later entry replaces the candidate only if it is strictly older.\<close>

definition oldestSet :: "(ipv4FragmentKey \<times> ipv4FragmentSet) list \<Rightarrow> (ipv4FragmentKey \<times> ipv4FragmentSet) option" where
  "oldestSet sets = fold (\<lambda>(key, s) old. case old of None \<Rightarrow> Some (key, s)
     | Some (k0, s0) \<Rightarrow> if fs_createdAt s < fs_createdAt s0 then Some (key, s) else old) sets None"

lemma oldest_fold_mem:
  "fold (\<lambda>(key, s) old. case old of None \<Rightarrow> Some (key, s)
     | Some (k0, s0) \<Rightarrow> if fs_createdAt s < fs_createdAt s0 then Some (key, s) else old) sets acc = Some x \<Longrightarrow>
   x \<in> set sets \<or> acc = Some x"
proof (induction sets arbitrary: acc)
  case (Cons p sets)
  then show ?case
    by (cases p) (fastforce split: option.splits if_splits)
qed simp

lemma oldestSet_mem: "oldestSet sets = Some x \<Longrightarrow> x \<in> set sets"
  unfolding oldestSet_def by (drule oldest_fold_mem) simp

lemma length_set_del_less: "(k, v) \<in> set m \<Longrightarrow> length (set_del k m) < length m"
  unfolding set_del_def by (rule length_filter_less) auto

function trimMemoryLocked :: "ipv4Reassembler \<Rightarrow> ipv4Reassembler" where
  "trimMemoryLocked r =
     (if rs_mem r > ipv4ReassemblyHighThreshold then
        (case oldestSet (rs_sets r) of
           None \<Rightarrow> r
         | Some (key, s) \<Rightarrow>
             let r = releaseSetLocked r key s
             in if rs_mem r \<le> ipv4ReassemblyLowThreshold then r else trimMemoryLocked r)
      else r)"
  by pat_completeness auto

termination
  by (relation "measure (\<lambda>r. length (rs_sets r))")
     (auto simp: releaseSetLocked_def Let_def intro: length_set_del_less dest: oldestSet_mem)

declare trimMemoryLocked.simps [simp del]

text \<open>The scan of \<open>complete\<close> over the sorted fragments.\<close>

fun complete_scan :: "int \<Rightarrow> int \<Rightarrow> ipv4Fragment list \<Rightarrow> bool" where
  "complete_scan totalLen nxt [] = False"
| "complete_scan totalLen nxt (f # fs) =
     (if int (fr_offset f) \<noteq> nxt then False
      else let nxt = nxt + int (length (fr_data f))
           in if nxt = totalLen then True
              else if nxt > totalLen then False
              else complete_scan totalLen nxt fs)"

definition fs_complete :: "ipv4FragmentSet \<Rightarrow> bool \<times> ipv4FragmentSet" where
  "fs_complete s = (let s = s\<lparr>fs_fragments := sort_key fr_offset (fs_fragments s)\<rparr>
     in (complete_scan (fs_totalLen s) 0 (fs_fragments s), s))"

text \<open>\<open>assemble\<close>: the copies of the loop panic when a fragment starts past the end of the datagram.\<close>

fun assemble_copy :: "nat \<Rightarrow> bytes \<Rightarrow> ipv4Fragment list \<Rightarrow> bytes go" where
  "assemble_copy hdrLen raw [] = Some raw"
| "assemble_copy hdrLen raw (f # fs) = do {
     raw \<leftarrow> copy_at raw (hdrLen + fr_offset f) (fr_data f);
     assemble_copy hdrLen raw fs }"

definition assemble_raw :: "bytes \<Rightarrow> nat \<Rightarrow> ipv4Fragment list \<Rightarrow> bytes go" where
  "assemble_raw hdr totalLen frags = do {
     let hdrLen = length hdr;
     let raw = overwrite (replicate (hdrLen + totalLen) 0) 0 hdr;
     raw \<leftarrow> assemble_copy hdrLen raw frags;
     raw \<leftarrow> IPv4_SetTotalLength raw (of_nat (length raw));
     raw \<leftarrow> IPv4_SetFlagsFragmentOffset raw 0 0;
     raw \<leftarrow> IPv4_SetChecksum raw 0;
     h \<leftarrow> subslice raw 0 hdrLen;
     IPv4_SetChecksum raw (Checksum h 0) }"

definition assemble :: "bytes \<Rightarrow> ipv4FragmentSet \<Rightarrow> PacketBuffer go" where
  "assemble arr s = do {
     let hdr = (case fs_header s of None \<Rightarrow> [] | Some h \<Rightarrow> h);
     raw \<leftarrow> assemble_raw hdr (nat (fs_totalLen s)) (fs_fragments s);
     let pb = NewPacketBufferWithData arr raw;
     b \<leftarrow> Buf pb;
     _ \<leftarrow> subslice b 0 (length hdr);
     _ \<leftarrow> subslice b (length hdr) (length raw);
     Some (pb\<lparr>pb_NetworkHeader := Some (0, length hdr),
              pb_Data := Some (length hdr, length raw - length hdr)\<rparr>) }"

text \<open>
  The loop over the fragments already held: the new range is disjoint from all of them, repeats
  one exactly, or overlaps one in another way. The first fragment that is not disjoint decides.
\<close>

datatype overlap = NoOverlap | Duplicate | Overlap

fun overlap_scan :: "nat \<Rightarrow> nat \<Rightarrow> ipv4Fragment list \<Rightarrow> overlap" where
  "overlap_scan off end [] = NoOverlap"
| "overlap_scan off end (f # fs) =
     (let fragEnd = fr_offset f + length (fr_data f) in
      if end \<le> fr_offset f \<or> fragEnd \<le> off then overlap_scan off end fs
      else if off = fr_offset f \<and> end = fragEnd then Duplicate
      else Overlap)"

definition fragment_key :: "bytes \<Rightarrow> ipv4FragmentKey go" where
  "fragment_key ipHdr = do {
     s \<leftarrow> IPv4_SourceAddress ipHdr;
     d \<leftarrow> IPv4_DestinationAddress ipHdr;
     i \<leftarrow> IPv4_ID ipHdr;
     p \<leftarrow> IPv4_Protocol ipHdr;
     Some \<lparr>fk_src = s, fk_dst = d, fk_id = i, fk_proto = p\<rparr> }"

text \<open>
  The part of \<open>process\<close> after the set was found or created: \<open>hdr\<close> is \<open>pb.NetworkHeader\<close>, \<open>d\<close> the
  copied payload, \<open>s\<close> the set under \<open>key\<close>.
\<close>

definition process_set :: "bytes \<Rightarrow> ipv4Reassembler \<Rightarrow> ipv4FragmentKey \<Rightarrow> ipv4FragmentSet \<Rightarrow>
    bytes \<Rightarrow> nat \<Rightarrow> bool \<Rightarrow> bytes \<Rightarrow> (ipv4Reassembler \<times> PacketBuffer option) go" where
  "process_set arr r key s hdr off mf d = (
     let end = off + length d in
     case overlap_scan off end (fs_fragments s) of
       Duplicate \<Rightarrow> Some (r, None)
     | Overlap \<Rightarrow> Some (releaseSetLocked r key s, None)
     | NoOverlap \<Rightarrow>
         let s = (if off = 0 then s\<lparr>fs_header := Some hdr\<rparr> else s) in
         if \<not> mf \<and> fs_totalLen s \<ge> 0 \<and> fs_totalLen s \<noteq> int end
         then Some (releaseSetLocked r key s, None)
         else
           let s = (if \<not> mf then s\<lparr>fs_totalLen := int end\<rparr> else s);
               s = s\<lparr>fs_fragments := fs_fragments s @ [\<lparr>fr_offset = off, fr_data = d\<rparr>],
                     fs_mem := fs_mem s + int (length d)\<rparr>;
               r = r\<lparr>rs_mem := rs_mem r + int (length d)\<rparr>
           in if fs_totalLen s \<ge> 0 \<and> fs_header s \<noteq> None then
                let (ok, s) = fs_complete s in
                if ok then do {
                  pb \<leftarrow> assemble arr s;
                  Some (releaseSetLocked (r\<lparr>rs_sets := set_put key s (rs_sets r)\<rparr>) key s, Some pb) }
                else Some (trimMemoryLocked (r\<lparr>rs_sets := set_put key s (rs_sets r)\<rparr>), None)
              else Some (trimMemoryLocked (r\<lparr>rs_sets := set_put key s (rs_sets r)\<rparr>), None))"

definition process :: "bytes \<Rightarrow> ipv4Reassembler \<Rightarrow> int \<Rightarrow> bytes \<Rightarrow> bytes \<Rightarrow> bytes \<Rightarrow>
    (ipv4Reassembler \<times> PacketBuffer option) go" where
  "process arr r now ipHdr hdr d = do {
     let payloadLen = length d;
     if payloadLen = 0 then Some (r, None)
     else do {
       fo \<leftarrow> IPv4_FragmentOffset ipHdr;
       let off = unat fo * 8;
       if off + payloadLen > ipv4MaxPayloadSize then Some (r, None)
       else do {
         mf \<leftarrow> IPv4_More ipHdr;
         if mf \<and> payloadLen mod 8 \<noteq> 0 then Some (r, None)
         else do {
           key \<leftarrow> fragment_key ipHdr;
           let r = evictExpiredLocked r now;
           let fresh = \<lparr>fs_createdAt = now, fs_header = None, fs_fragments = [], fs_totalLen = -1, fs_mem = 0\<rparr>;
           let s = (case map_of (rs_sets r) key of None \<Rightarrow> fresh | Some s \<Rightarrow> s);
           let r = (case map_of (rs_sets r) key of None \<Rightarrow> r\<lparr>rs_sets := set_put key s (rs_sets r)\<rparr> | Some _ \<Rightarrow> r);
           process_set arr r key s hdr off mf d } } } }"

section \<open>Fragmentation\<close>

definition fragment_header :: "bytes \<Rightarrow> nat \<Rightarrow> u8 \<Rightarrow> bool \<Rightarrow> nat \<Rightarrow> bytes \<Rightarrow> bytes go" where
  "fragment_header hdr hdrLen baseFlags mf off chunk = do {
     let fragLen = hdrLen + length chunk;
     let frag = hdr @ chunk;
     frag \<leftarrow> IPv4_SetTotalLength frag (of_nat fragLen);
     let flags = (if mf then baseFlags OR IPv4FlagMoreFragments else baseFlags);
     frag \<leftarrow> IPv4_SetFlagsFragmentOffset frag flags (of_nat (off div 8));
     frag \<leftarrow> IPv4_SetChecksum frag 0;
     h \<leftarrow> subslice frag 0 hdrLen;
     IPv4_SetChecksum frag (Checksum h 0) }"

text \<open>The loop over the payload; \<open>hdr\<close> is \<open>pkt[:hdrLen]\<close>.\<close>

function fragment_loop :: "bytes \<Rightarrow> u8 \<Rightarrow> nat \<Rightarrow> bytes \<Rightarrow> nat \<Rightarrow> bytes list go" where
  "fragment_loop hdr baseFlags maxPayload payload off =
     (if off < length payload \<and> 0 < maxPayload then do {
        let fragPayloadLen = length payload - off;
        let mf = (fragPayloadLen > maxPayload);
        let fragPayloadLen = (if mf then maxPayload else fragPayloadLen);
        chunk \<leftarrow> subslice payload off (off + fragPayloadLen);
        frag \<leftarrow> fragment_header hdr (length hdr) baseFlags mf off chunk;
        rest \<leftarrow> fragment_loop hdr baseFlags maxPayload payload (off + maxPayload);
        Some (frag # rest) }
      else Some [])"
  by pat_completeness auto
termination
  by (relation "measure (\<lambda>(hdr, fl, m, payload, off). length payload - off)") auto

declare fragment_loop.simps [simp del]

definition fragmentIPv4Packet :: "bytes \<Rightarrow> int \<Rightarrow> bytes list option go" where
  "fragmentIPv4Packet pkt mtu =
     (if length pkt < IPv4MinHeaderSize then Some None
      else do {
        hdrLen \<leftarrow> IPv4_HeaderLength pkt;
        tl \<leftarrow> IPv4_TotalLength pkt;
        let totalLen = unat tl;
        if hdrLen < IPv4MinHeaderSize \<or> hdrLen > length pkt \<or> totalLen < hdrLen \<or> totalLen > length pkt
        then Some None
        else if int totalLen \<le> mtu then do { p \<leftarrow> subslice pkt 0 totalLen; Some (Some [p]) }
        else do {
          flags \<leftarrow> IPv4_Flags pkt;
          if flags AND IPv4FlagDontFragment \<noteq> 0 \<or> mtu \<le> int hdrLen then Some None
          else do {
            let avail = nat (mtu - int hdrLen);
            let maxPayload = avail - avail mod 8;
            if maxPayload = 0 then Some None
            else do {
              payload \<leftarrow> subslice pkt hdrLen totalLen;
              let baseFlags = flags AND NOT IPv4FlagMoreFragments;
              hdr \<leftarrow> subslice pkt 0 hdrLen;
              frags \<leftarrow> fragment_loop hdr baseFlags maxPayload payload 0;
              Some (Some frags) } } } })"

end
