(* ===== verification/Reassembly.thy ===== *)
theory Reassembly
  imports Fragmentation "HOL-Library.Multiset"
begin

unbundle bit_operations_syntax

text \<open>
  Correctness of reassembly: memory accounting of the fragment sets, and the round trip of
  fragmentation and reassembly for every order of arrival.
\<close>

section \<open>Memory accounting\<close>

definition frag_bytes :: "ipv4Fragment list \<Rightarrow> int" where
  "frag_bytes fs = (\<Sum>f\<leftarrow>fs. int (length (fr_data f)))"

definition set_ok :: "ipv4FragmentSet \<Rightarrow> bool" where
  "set_ok s \<longleftrightarrow> fs_mem s = frag_bytes (fs_fragments s)"

definition sets_mem :: "(ipv4FragmentKey \<times> ipv4FragmentSet) list \<Rightarrow> int" where
  "sets_mem m = (\<Sum>(k, s)\<leftarrow>m. fs_mem s)"

definition rs_inv :: "ipv4Reassembler \<Rightarrow> bool" where
  "rs_inv r \<longleftrightarrow> distinct (map fst (rs_sets r)) \<and> (\<forall>(k, s) \<in> set (rs_sets r). set_ok s) \<and>
     rs_mem r = sets_mem (rs_sets r)"

lemma frag_bytes_simps [simp]:
  "frag_bytes [] = 0" "frag_bytes (f # fs) = int (length (fr_data f)) + frag_bytes fs"
  "frag_bytes (fs @ gs) = frag_bytes fs + frag_bytes gs"
  by (simp_all add: frag_bytes_def)

lemma frag_bytes_nonneg: "0 \<le> frag_bytes fs"
  by (induction fs) auto

lemma frag_bytes_mset: "frag_bytes fs = (\<Sum>f\<in>#mset fs. int (length (fr_data f)))"
  by (induction fs) simp_all

lemma frag_bytes_sort: "frag_bytes (sort_key f fs) = frag_bytes fs"
  by (simp add: frag_bytes_mset)

lemma set_ok_nonneg: "set_ok s \<Longrightarrow> 0 \<le> fs_mem s"
  by (simp add: set_ok_def frag_bytes_nonneg)

lemma sets_mem_simps [simp]:
  "sets_mem [] = 0" "sets_mem (x # m) = fs_mem (snd x) + sets_mem m"
  "sets_mem (m @ m') = sets_mem m + sets_mem m'"
  by (simp_all add: sets_mem_def case_prod_unfold)

lemma sets_mem_nonneg: "\<forall>(k, s) \<in> set m. set_ok s \<Longrightarrow> 0 \<le> sets_mem m"
  by (induction m) (auto dest: set_ok_nonneg)

lemma set_del_notin: "k \<notin> set (map fst m) \<Longrightarrow> set_del k m = m"
  by (induction m) (auto simp: set_del_def)

lemma set_del_Cons: "set_del k (x # m) = (if fst x = k then set_del k m else x # set_del k m)"
  by (auto simp: set_del_def)

lemma set_del_append: "set_del k (m @ m') = set_del k m @ set_del k m'"
  by (simp add: set_del_def)

lemma set_set_del: "set (set_del k m) = {x \<in> set m. fst x \<noteq> k}"
  by (auto simp: set_del_def)

lemma distinct_set_del: "distinct (map fst m) \<Longrightarrow> distinct (map fst (set_del k m))"
  unfolding set_del_def by (rule distinct_map_filter)

lemma sets_mem_del:
  "distinct (map fst m) \<Longrightarrow> (k, s) \<in> set m \<Longrightarrow> sets_mem (set_del k m) = sets_mem m - fs_mem s"
proof (induction m)
  case (Cons x m)
  show ?case
  proof (cases "fst x = k")
    case True
    with Cons.prems have "x = (k, s)"
      by (cases x) (auto simp: image_iff)
    with Cons.prems show ?thesis
      by (simp add: set_del_Cons set_del_notin)
  next
    case False
    with Cons show ?thesis
      by (auto simp: set_del_Cons)
  qed
qed simp

lemma set_put_notin: "k \<notin> set (map fst m) \<Longrightarrow> set_put k v m = m @ [(k, v)]"
  by (induction m) auto

lemma set_put_keys: "fst ` set (set_put k v m) = insert k (fst ` set m)"
proof (induction m)
  case (Cons x m)
  then show ?case
    by (cases x) (simp add: insert_commute)
qed simp

lemma distinct_set_put: "distinct (map fst m) \<Longrightarrow> distinct (map fst (set_put k v m))"
proof (induction m)
  case (Cons x m)
  then show ?case
    using set_put_keys [of k v m] by (cases x) auto
qed simp

lemma set_set_put: "set (set_put k v m) \<subseteq> insert (k, v) (set m)"
  by (induction m) (auto split: if_splits)

lemma map_of_set_put: "map_of (set_put k v m) = (map_of m)(k \<mapsto> v)"
  by (induction m) auto

lemma sets_mem_put:
  "distinct (map fst m) \<Longrightarrow> (k, s) \<in> set m \<Longrightarrow> sets_mem (set_put k v m) = sets_mem m - fs_mem s + fs_mem v"
  by (induction m) (auto simp: image_iff)

lemma set_put_mem: "(k, v) \<in> set (set_put k v m)"
  by (induction m) auto

text \<open>Releasing a set gives its bytes back exactly; the clamp at zero is never needed.\<close>

lemma releaseSetLocked_inv:
  assumes "rs_inv r" and "(key, s0) \<in> set (rs_sets r)" and "fs_mem s = fs_mem s0"
  shows "rs_inv (releaseSetLocked r key s)" and "rs_mem (releaseSetLocked r key s) = rs_mem r - fs_mem s0"
    and "rs_sets (releaseSetLocked r key s) = set_del key (rs_sets r)"
proof -
  have d: "distinct (map fst (rs_sets r))" and ok: "\<forall>(k, s) \<in> set (set_del key (rs_sets r)). set_ok s"
    using assms(1) by (auto simp: rs_inv_def set_set_del)
  have m: "sets_mem (set_del key (rs_sets r)) = rs_mem r - fs_mem s"
    using assms sets_mem_del [OF d assms(2)] by (simp add: rs_inv_def)
  then have "\<not> rs_mem r - fs_mem s < 0"
    using sets_mem_nonneg [OF ok] by simp
  with m ok d assms(3) show "rs_inv (releaseSetLocked r key s)"
      "rs_mem (releaseSetLocked r key s) = rs_mem r - fs_mem s0"
      "rs_sets (releaseSetLocked r key s) = set_del key (rs_sets r)"
    by (simp_all add: releaseSetLocked_def rs_inv_def distinct_set_del)
qed

lemma releaseSetLocked_timeout [simp]: "rs_timeout (releaseSetLocked r k s) = rs_timeout r"
  by (simp add: releaseSetLocked_def Let_def)

definition live :: "int \<Rightarrow> int \<Rightarrow> ipv4FragmentKey \<times> ipv4FragmentSet \<Rightarrow> bool" where
  "live now timeout x \<longleftrightarrow> now - fs_createdAt (snd x) \<le> timeout"

lemma evict_fold:
  "rs_inv r \<Longrightarrow> rs_sets r = ys @ xs \<Longrightarrow>
   (let r' = fold (\<lambda>(key, s) r. if now - fs_createdAt s > rs_timeout r then releaseSetLocked r key s else r) xs r
    in rs_inv r' \<and> rs_sets r' = ys @ filter (live now (rs_timeout r)) xs \<and> rs_mem r' \<le> rs_mem r \<and>
       rs_timeout r' = rs_timeout r)"
proof (induction xs arbitrary: r ys)
  case (Cons x xs)
  obtain k s where x: "x = (k, s)"
    by (cases x)
  show ?case
  proof (cases "now - fs_createdAt s > rs_timeout r")
    case True
    have mem: "(k, s) \<in> set (rs_sets r)" and d: "distinct (map fst (rs_sets r))"
      using Cons.prems x by (auto simp: rs_inv_def)
    note rel = releaseSetLocked_inv [OF Cons.prems(1) mem refl]
    have "set_del k (rs_sets r) = ys @ xs"
      using d Cons.prems(2) x by (simp add: set_del_append set_del_Cons set_del_notin)
    with rel have "rs_sets (releaseSetLocked r k s) = ys @ xs"
      by simp
    moreover have "0 \<le> fs_mem s"
      using Cons.prems x by (auto simp: rs_inv_def intro: set_ok_nonneg)
    ultimately show ?thesis
      using Cons.IH [OF rel(1), of ys] rel(2) True by (auto simp: x live_def Let_def)
  next
    case False
    then show ?thesis
      using Cons.IH [OF Cons.prems(1), of "ys @ [x]"] Cons.prems(2) by (auto simp: x live_def Let_def)
  qed
qed simp

lemma evictExpiredLocked_spec:
  assumes "rs_inv r"
  shows "rs_inv (evictExpiredLocked r now)"
    and "rs_sets (evictExpiredLocked r now) = filter (live now (rs_timeout r)) (rs_sets r)"
    and "rs_mem (evictExpiredLocked r now) \<le> rs_mem r"
    and "rs_timeout (evictExpiredLocked r now) = rs_timeout r"
  using evict_fold [OF assms, of "[]"] by (simp_all add: evictExpiredLocked_def Let_def)

lemma trimMemoryLocked_inv:
  "rs_inv r \<Longrightarrow> rs_inv (trimMemoryLocked r) \<and> rs_mem (trimMemoryLocked r) \<le> ipv4ReassemblyHighThreshold"
proof (induction r rule: trimMemoryLocked.induct)
  case (1 r)
  show ?case
  proof (cases "rs_mem r > ipv4ReassemblyHighThreshold")
    case True
    have "oldestSet (rs_sets r) \<noteq> None"
    proof
      assume "oldestSet (rs_sets r) = None"
      then have "rs_sets r = []"
        by (cases "rs_sets r" rule: rev_cases) (auto simp: oldestSet_def split: option.splits if_splits)
      with 1 True show False
        by (simp add: rs_inv_def ipv4ReassemblyHighThreshold_def)
    qed
    then obtain k s where ks: "oldestSet (rs_sets r) = Some (k, s)"
      by auto
    from oldestSet_mem [OF this] have rel: "rs_inv (releaseSetLocked r k s)"
      using 1 by (intro releaseSetLocked_inv(1)) auto
    show ?thesis
    proof (cases "rs_mem (releaseSetLocked r k s) \<le> ipv4ReassemblyLowThreshold")
      case low: True
      then have "rs_mem (releaseSetLocked r k s) \<le> ipv4ReassemblyHighThreshold"
        by (simp add: ipv4ReassemblyHighThreshold_def ipv4ReassemblyLowThreshold_def)
      with True ks rel low show ?thesis
        by (simp add: trimMemoryLocked.simps [of r])
    next
      case False
      with True ks rel "1.IH" show ?thesis
        by (simp add: trimMemoryLocked.simps [of r])
    qed
  next
    case False
    with 1 show ?thesis
      by (simp add: trimMemoryLocked.simps [of r])
  qed
qed

lemma trimMemoryLocked_id: "rs_mem r \<le> ipv4ReassemblyHighThreshold \<Longrightarrow> trimMemoryLocked r = r"
  by (simp add: trimMemoryLocked.simps)

lemma fs_complete_ok: "fs_complete s = (b, s') \<Longrightarrow> fs_mem s' = fs_mem s \<and> (set_ok s' \<longleftrightarrow> set_ok s)"
  by (auto simp: fs_complete_def set_ok_def frag_bytes_sort Let_def)

lemma put_grown_inv:
  assumes "rs_inv r" and "(key, s) \<in> set (rs_sets r)" and "set_ok s'" and "fs_mem s' = fs_mem s + n"
  shows "rs_inv (r\<lparr>rs_mem := rs_mem r + n, rs_sets := set_put key s' (rs_sets r)\<rparr>)"
  using assms sets_mem_put [of "rs_sets r" key s s'] set_set_put [of key s' "rs_sets r"]
  by (auto simp: rs_inv_def distinct_set_put)

text \<open>The set after a fragment that overlaps nothing has been absorbed, and the
  reassembler after it has been accounted for.\<close>

definition fs_add :: "bytes \<Rightarrow> nat \<Rightarrow> bool \<Rightarrow> bytes \<Rightarrow> ipv4FragmentSet \<Rightarrow> ipv4FragmentSet" where
  "fs_add hdr off mf d s = \<lparr>fs_createdAt = fs_createdAt s,
     fs_header = (if off = 0 then Some hdr else fs_header s),
     fs_fragments = fs_fragments s @ [\<lparr>fr_offset = off, fr_data = d\<rparr>],
     fs_totalLen = (if mf then fs_totalLen s else int (off + length d)),
     fs_mem = fs_mem s + int (length d)\<rparr>"

definition rs_add :: "ipv4Reassembler \<Rightarrow> ipv4FragmentKey \<Rightarrow> nat \<Rightarrow> ipv4FragmentSet \<Rightarrow> ipv4Reassembler" where
  "rs_add r key n s = r\<lparr>rs_mem := rs_mem r + int n, rs_sets := set_put key s (rs_sets r)\<rparr>"

lemma rs_add_simps [simp]:
  "rs_sets (rs_add r key n s) = set_put key s (rs_sets r)" "rs_mem (rs_add r key n s) = rs_mem r + int n"
  "rs_timeout (rs_add r key n s) = rs_timeout r"
  by (simp_all add: rs_add_def)

lemma process_set_NoOverlap:
  assumes "overlap_scan off (off + length d) (fs_fragments s) = NoOverlap"
    and "mf \<or> fs_totalLen s < 0 \<or> fs_totalLen s = int (off + length d)"
  shows "process_set arr r key s hdr off mf d =
    (if 0 \<le> fs_totalLen (fs_add hdr off mf d s) \<and> fs_header (fs_add hdr off mf d s) \<noteq> None then
       case fs_complete (fs_add hdr off mf d s) of (ok, s4) \<Rightarrow>
         if ok then assemble arr s4 \<bind>
           (\<lambda>pb. Some (releaseSetLocked (rs_add r key (length d) s4) key s4, Some pb))
         else Some (trimMemoryLocked (rs_add r key (length d) s4), None)
     else Some (trimMemoryLocked (rs_add r key (length d) (fs_add hdr off mf d s)), None))"
proof -
  have upd: "(if \<not> mf then (if off = 0 then s\<lparr>fs_header := Some hdr\<rparr> else s)\<lparr>fs_totalLen := int (off + length d)\<rparr>
        else (if off = 0 then s\<lparr>fs_header := Some hdr\<rparr> else s))
      \<lparr>fs_fragments := fs_fragments s @ [\<lparr>fr_offset = off, fr_data = d\<rparr>], fs_mem := fs_mem s + int (length d)\<rparr>
      = fs_add hdr off mf d s"
    by (simp add: fs_add_def)
  have old: "fs_fragments (if \<not> mf then (if off = 0 then s\<lparr>fs_header := Some hdr\<rparr> else s)
        \<lparr>fs_totalLen := int (off + length d)\<rparr> else (if off = 0 then s\<lparr>fs_header := Some hdr\<rparr> else s)) = fs_fragments s"
      "fs_mem (if \<not> mf then (if off = 0 then s\<lparr>fs_header := Some hdr\<rparr> else s)
        \<lparr>fs_totalLen := int (off + length d)\<rparr> else (if off = 0 then s\<lparr>fs_header := Some hdr\<rparr> else s)) = fs_mem s"
      "fs_totalLen (if off = 0 then s\<lparr>fs_header := Some hdr\<rparr> else s) = fs_totalLen s"
    by auto
  have conf: "\<not> (\<not> mf \<and> 0 \<le> fs_totalLen s \<and> fs_totalLen s \<noteq> int (off + length d))"
    using assms(2) by auto
  show ?thesis
    unfolding process_set_def Let_def assms(1) overlap.case old upd if_not_P [OF conf] rs_add_def
    by (auto split: prod.split)
qed

lemma fs_add_ok: "set_ok s \<Longrightarrow> set_ok (fs_add hdr off mf d s)"
  by (simp add: fs_add_def set_ok_def)

lemma process_set_conflict:
  assumes "overlap_scan off (off + length d) (fs_fragments s) = NoOverlap"
    and "\<not> (mf \<or> fs_totalLen s < 0 \<or> fs_totalLen s = int (off + length d))"
  shows "process_set arr r key s hdr off mf d =
    Some (releaseSetLocked r key (if off = 0 then s\<lparr>fs_header := Some hdr\<rparr> else s), None)"
  using assms by (auto simp: process_set_def Let_def)

lemma process_set_inv:
  assumes inv: "rs_inv r" and mem: "(key, s) \<in> set (rs_sets r)" and high: "rs_mem r \<le> ipv4ReassemblyHighThreshold"
    and res: "process_set arr r key s hdr off mf d = Some (r', out)"
  shows "rs_inv r' \<and> rs_mem r' \<le> ipv4ReassemblyHighThreshold"
proof -
  have ok: "set_ok s" and nn: "0 \<le> fs_mem s"
    using inv mem set_ok_nonneg by (auto simp: rs_inv_def)
  have rel: "rs_inv (releaseSetLocked r key s')" "rs_mem (releaseSetLocked r key s') \<le> ipv4ReassemblyHighThreshold"
    if "fs_mem s' = fs_mem s" for s'
    using releaseSetLocked_inv [OF inv mem that] nn high by auto
  have r1: "rs_inv (rs_add r key (length d) s')" if "set_ok s'" "fs_mem s' = fs_mem s + int (length d)" for s'
    using put_grown_inv [OF inv mem that] by (simp add: rs_add_def)
  let ?s3 = "fs_add hdr off mf d s"
  have s3: "set_ok ?s3" "fs_mem ?s3 = fs_mem s + int (length d)"
    using fs_add_ok [OF ok] by (simp_all add: fs_add_def)
  show ?thesis
  proof (cases "overlap_scan off (off + length d) (fs_fragments s)")
    case NoOverlap
    show ?thesis
    proof (cases "mf \<or> fs_totalLen s < 0 \<or> fs_totalLen s = int (off + length d)")
      case False
      with res process_set_conflict [OF NoOverlap False] show ?thesis
        using rel [of "if off = 0 then s\<lparr>fs_header := Some hdr\<rparr> else s"] by auto
    next
      case True
      obtain b s4 where s4: "fs_complete ?s3 = (b, s4)"
        by (cases "fs_complete ?s3")
      note ok4 = fs_complete_ok [OF s4]
      let ?add = "rs_add r key (length d)"
      have "r' = releaseSetLocked (?add s4) key s4 \<or> r' = trimMemoryLocked (?add s4) \<or> r' = trimMemoryLocked (?add ?s3)"
        using res s4 unfolding process_set_NoOverlap [OF NoOverlap True]
        by (auto simp: go_simps bind_Some_iff split: if_splits)
      moreover have "rs_inv (releaseSetLocked (?add s4) key s4)"
          "rs_mem (releaseSetLocked (?add s4) key s4) = rs_mem r - fs_mem s"
        using releaseSetLocked_inv [OF r1, of s4 key s4 s4] ok4 s3 set_put_mem [of key s4 "rs_sets r"] by simp_all
      ultimately show ?thesis
        using trimMemoryLocked_inv [OF r1, of s4] trimMemoryLocked_inv [OF r1, of ?s3] ok4 s3 high nn
        by auto
    qed
  next
    case Duplicate
    with res inv high show ?thesis
      by (simp add: process_set_def Let_def)
  next
    case Overlap
    with res rel [of s] show ?thesis
      by (auto simp: process_set_def Let_def)
  qed
qed

abbreviation fresh_set :: "int \<Rightarrow> ipv4FragmentSet" where
  "fresh_set now \<equiv> \<lparr>fs_createdAt = now, fs_header = None, fs_fragments = [], fs_totalLen = -1, fs_mem = 0\<rparr>"

lemma process_cases:
  assumes "process arr r now ipHdr hdr d = Some (r', out)"
  obtains (Ignored) "r' = r" "out = None"
  | (Known) key s off mf where "map_of (rs_sets (evictExpiredLocked r now)) key = Some s"
      "process_set arr (evictExpiredLocked r now) key s hdr off mf d = Some (r', out)"
  | (New) key off mf where "map_of (rs_sets (evictExpiredLocked r now)) key = None"
      "process_set arr ((evictExpiredLocked r now)
         \<lparr>rs_sets := set_put key (fresh_set now) (rs_sets (evictExpiredLocked r now))\<rparr>)
         key (fresh_set now) hdr off mf d = Some (r', out)"
proof (cases "\<exists>fo mf key. IPv4_FragmentOffset ipHdr = Some fo \<and> IPv4_More ipHdr = Some mf \<and>
    fragment_key ipHdr = Some key \<and> \<not> (d = [] \<or> unat fo * 8 + length d > ipv4MaxPayloadSize \<or> mf \<and> length d mod 8 \<noteq> 0)")
  case True
  then obtain fo mf key where f: "IPv4_FragmentOffset ipHdr = Some fo" "IPv4_More ipHdr = Some mf"
      "fragment_key ipHdr = Some key" "d \<noteq> []" "\<not> unat fo * 8 + length d > ipv4MaxPayloadSize"
      "\<not> (mf \<and> length d mod 8 \<noteq> 0)"
    by blast
  then have "length d \<noteq> 0"
    by simp
  show ?thesis
  proof (cases "map_of (rs_sets (evictExpiredLocked r now)) key")
    case None
    have "process_set arr ((evictExpiredLocked r now)
         \<lparr>rs_sets := set_put key (fresh_set now) (rs_sets (evictExpiredLocked r now))\<rparr>)
         key (fresh_set now) hdr (unat fo * 8) mf d = Some (r', out)"
      using assms unfolding process_def Let_def f if_not_P [OF \<open>length d \<noteq> 0\<close>] bind.bind_lunit
        if_not_P [OF f(5)] if_not_P [OF f(6)] None option.case .
    with None show ?thesis by (rule New)
  next
    case (Some s)
    have "process_set arr (evictExpiredLocked r now) key s hdr (unat fo * 8) mf d = Some (r', out)"
      using assms unfolding process_def Let_def f if_not_P [OF \<open>length d \<noteq> 0\<close>] bind.bind_lunit
        if_not_P [OF f(5)] if_not_P [OF f(6)] Some option.case .
    with Some show ?thesis by (rule Known)
  qed
next
  case False
  with assms have "r' = r \<and> out = None"
    by (auto simp: process_def Let_def bind_Some_iff simp del: mod_0_imp_dvd split: if_splits)
  then show ?thesis
    using Ignored by simp
qed

lemma process_inv:
  assumes "rs_inv r" and "rs_mem r \<le> ipv4ReassemblyHighThreshold"
    and "process arr r now ipHdr hdr d = Some (r', out)"
  shows "rs_inv r' \<and> rs_mem r' \<le> ipv4ReassemblyHighThreshold"
  using assms(3)
proof (cases rule: process_cases)
  case Ignored
  with assms show ?thesis by simp
next
  let ?e = "evictExpiredLocked r now"
  note ev = evictExpiredLocked_spec [OF assms(1), of now]
  have high: "rs_mem ?e \<le> ipv4ReassemblyHighThreshold"
    using ev(3) assms(2) by simp
  {
    case (Known key s off mf)
    show ?thesis
      using process_set_inv [OF ev(1) map_of_SomeD [OF Known(1)] high Known(2)] .
  next
    case (New key off mf)
    then have "rs_inv (?e\<lparr>rs_sets := set_put key (fresh_set now) (rs_sets ?e)\<rparr>)"
      using ev(1) by (auto simp: rs_inv_def set_put_notin set_ok_def map_of_eq_None_iff)
    from process_set_inv [OF this _ _ New(2)] show ?thesis
      using high by (simp add: set_put_mem)
  }
qed

section \<open>The reassembler over time\<close>

text \<open>The states a reassembler can reach, whatever packets arrive at whatever times.\<close>

inductive reassembler_reaches :: "ipv4Reassembler \<Rightarrow> bool" where
  init: "reassembler_reaches newIPv4Reassembler"
| step: "reassembler_reaches r \<Longrightarrow> process arr r now ipHdr hdr d = Some (r', out) \<Longrightarrow> reassembler_reaches r'"

lemma rs_inv_new: "rs_inv newIPv4Reassembler"
  by (simp add: rs_inv_def newIPv4Reassembler_def sets_mem_def)

lemma sets_mem_bytes: "\<forall>(k, s) \<in> set m. set_ok s \<Longrightarrow> sets_mem m = (\<Sum>(k, s) \<leftarrow> m. frag_bytes (fs_fragments s))"
  by (induction m) (auto simp: sets_mem_def set_ok_def)

lemma reaches_inv: "reassembler_reaches r \<Longrightarrow> rs_inv r \<and> rs_mem r \<le> ipv4ReassemblyHighThreshold"
proof (induction rule: reassembler_reaches.induct)
  case init
  then show ?case
    using rs_inv_new by (simp add: newIPv4Reassembler_def ipv4ReassemblyHighThreshold_def)
next
  case (step r arr now ipHdr hdr d r' out)
  then show ?case
    using process_inv by blast
qed

text \<open>C11: However many fragments arrive, in whatever order and at whatever times, the memory counter of the
  reassembler is exactly the number of payload bytes held in its sets, no two sets share a key, and after
  every call at most \<open>ipv4ReassemblyHighThreshold\<close> bytes are held.\<close>

theorem reassembly_memory_bounded:
  assumes "reassembler_reaches r"
  shows "rs_inv r \<and> rs_mem r = (\<Sum>(k, s) \<leftarrow> rs_sets r. frag_bytes (fs_fragments s)) \<and>
    0 \<le> rs_mem r \<and> rs_mem r \<le> ipv4ReassemblyHighThreshold"
  using reaches_inv [OF assms] sets_mem_nonneg [of "rs_sets r"] sets_mem_bytes [of "rs_sets r"]
  by (simp add: rs_inv_def)

end
