(* ===== verification/FragRoundtrip.thy ===== *)
theory FragRoundtrip
  imports Reassembly
begin

text \<open>
  What a datagram goes through between \<open>fragmentIPv4Packet\<close> and \<open>ipv4Reassembler.process\<close>
  (\<open>src/stack/fragmentation.go\<close>): the header every fragment carries, the pieces the payload is cut
  into, and the reassembly of the pieces in whatever order they arrive.
\<close>

section \<open>Rewriting a header\<close>

definition poke16 :: "bytes \<Rightarrow> nat \<Rightarrow> u16 \<Rightarrow> bytes" where
  "poke16 b off v = b[off := ucast (drop_bit 8 v), off + 1 := ucast v]"

text \<open>The header \<open>h\<close> with a new total length, a new flags and offset word and a fresh checksum.\<close>

definition rehdr :: "bytes \<Rightarrow> u16 \<Rightarrow> u16 \<Rightarrow> bytes" where
  "rehdr h n ff = (let z = poke16 (poke16 (poke16 h 2 n) 6 ff) 10 0 in poke16 z 10 (Checksum z 0))"

lemma length_poke16 [simp, len_simps]: "length (poke16 b off v) = length b"
  by (simp add: poke16_def)

lemma length_rehdr [simp, len_simps]: "length (rehdr h n ff) = length h"
  by (simp add: rehdr_def Let_def)

lemma put16_append: "off + 2 \<le> length h \<Longrightarrow> put16 (h @ c) off v = Some (poke16 h off v @ c)"
  by (simp add: poke16_def list_update_append1)

lemma fill_header:
  assumes "20 \<le> length h"
  shows "do { b \<leftarrow> put16 (h @ c) 2 n; b \<leftarrow> put16 b 6 ff; b \<leftarrow> put16 b 10 0;
              z \<leftarrow> subslice b 0 (length h); put16 b 10 (Checksum z 0) } = Some (rehdr h n ff @ c)"
  using assms by (simp add: put16_append rehdr_def Let_def del: put16_Some)

lemma fragment_header_eq:
  assumes "20 \<le> length h"
  shows "fragment_header h (length h) fl mf off c =
    Some (rehdr h (of_nat (length h + length c))
      (flagsFrag (if mf then fl OR IPv4FlagMoreFragments else fl) (of_nat (off div 8))) @ c)"
  using fill_header [OF assms, of c]
  by (simp add: fragment_header_def IPv4_SetTotalLength_def IPv4_SetFlagsFragmentOffset_def IPv4_SetChecksum_def
      del: put16_Some of_nat_add)

lemma rehdr_rehdr: "20 \<le> length h \<Longrightarrow> rehdr (rehdr h n ff) n' ff' = rehdr h n' ff'"
  by (auto simp: numeral_le_length_iff Suc_le_length_iff rehdr_def poke16_def Let_def)

lemma rehdr_valid:
  assumes "20 \<le> length h" "length h \<le> 131068"
  shows "Checksum (rehdr h n ff) 0 = 0"
proof -
  let ?z = "poke16 (poke16 (poke16 h 2 n) 6 ff) 10 0"
  have "?z ! 10 = 0" "?z ! (10 + 1) = 0"
    using assms by (simp_all add: poke16_def)
  from Checksum_fill [OF _ _ _ this] assms show ?thesis
    by (simp add: rehdr_def Let_def poke16_def)
qed

lemma rehdr_get:
  assumes "20 \<le> length h"
  shows "IPv4_FragmentOffset (rehdr h n ff @ c) = Some (ff AND 0x1fff)"
    and "IPv4_Flags (rehdr h n ff @ c) = Some (drop_bit 5 (ucast (drop_bit 8 ff)))"
    and "IPv4_HeaderLength (rehdr h n ff @ c) = IPv4_HeaderLength h"
    and "IPv4_TotalLength (rehdr h n ff @ c) = Some n"
    and "fragment_key (rehdr h n ff @ c) = fragment_key h"
  using assms
  by (auto simp: numeral_le_length_iff Suc_le_length_iff rehdr_def poke16_def Let_def IPv4_get_defs fragment_key_def)

lemma poke16_same: "get16 b off = Some v \<Longrightarrow> poke16 b off v = b"
  by (auto simp: get16_def poke16_def be16_hi be16_lo list_update_same_conv split: if_splits)

lemma poke16_twice: "poke16 (poke16 b off v) off v' = poke16 b off v'"
  by (simp add: poke16_def list_update_swap)

lemma rehdr_fixed:
  assumes "get16 h 2 = Some n" "get16 h 6 = Some ff" "get16 h 10 = Some (Checksum (poke16 h 10 0) 0)"
  shows "rehdr h n ff = h"
  using assms by (simp add: rehdr_def Let_def poke16_same poke16_twice)

section \<open>The pieces of a payload\<close>

text \<open>Consecutive non-empty pieces that cover the bytes from \<open>off\<close> to \<open>tot\<close>.\<close>

fun contig :: "nat \<Rightarrow> (nat \<times> bytes) list \<Rightarrow> nat \<Rightarrow> bool" where
  "contig off [] tot \<longleftrightarrow> off = tot"
| "contig off ((a, c) # ps) tot \<longleftrightarrow> a = off \<and> c \<noteq> [] \<and> contig (off + length c) ps tot"

abbreviation piece_frag :: "nat \<times> bytes \<Rightarrow> ipv4Fragment" where
  "piece_frag p \<equiv> \<lparr>fr_offset = fst p, fr_data = snd p\<rparr>"

definition piece_wire :: "bytes \<Rightarrow> u8 \<Rightarrow> nat \<Rightarrow> nat \<times> bytes \<Rightarrow> bytes" where
  "piece_wire h fl tot p = rehdr h (of_nat (length h + length (snd p)))
     (flagsFrag (if fst p + length (snd p) < tot then fl OR IPv4FlagMoreFragments else fl) (of_nat (fst p div 8))) @ snd p"

definition aligned :: "nat \<Rightarrow> nat \<Rightarrow> nat \<times> bytes \<Rightarrow> bool" where
  "aligned m tot p \<longleftrightarrow> length (snd p) \<le> m \<and> fst p mod 8 = 0 \<and> (fst p + length (snd p) < tot \<longrightarrow> length (snd p) mod 8 = 0)"

lemma fragment_loop_done: "length payload \<le> off \<Longrightarrow> fragment_loop h fl m payload off = Some []"
  by (subst fragment_loop.simps) simp

lemma fragment_loop_pieces:
  assumes "20 \<le> length h" and "0 < m" "m mod 8 = 0"
  shows "off mod 8 = 0 \<Longrightarrow> off \<le> length payload \<Longrightarrow>
    \<exists>ps. fragment_loop h fl m payload off = Some (map (piece_wire h fl (length payload)) ps) \<and>
      contig off ps (length payload) \<and> concat (map snd ps) = drop off payload \<and>
      list_all (aligned m (length payload)) ps"
proof (induction "length payload - off" arbitrary: off rule: less_induct)
  case less
  show ?case
  proof (cases "off < length payload")
    case False
    then show ?thesis
      using less.prems by (intro exI [of _ "[]"]) (simp add: fragment_loop_done)
  next
    case True
    define k where "k = min m (length payload - off)"
    let ?c = "take k (drop off payload)"
    have k: "length ?c = k" "0 < k" "off + k \<le> length payload"
      using True assms(2) by (auto simp: k_def)
    have mf: "length payload - off > m \<longleftrightarrow> off + k < length payload"
        "(if off + k < length payload then m else length payload - off) = k"
      by (auto simp: k_def)
    have sub: "subslice payload off (off + k) = Some ?c"
      using k(3) by simp
    have hd: "fragment_loop h fl m payload off = do {
        rest \<leftarrow> fragment_loop h fl m payload (off + m);
        Some (piece_wire h fl (length payload) (off, ?c) # rest) }"
      by (subst fragment_loop.simps)
         (simp only: True assms(2) simp_thms if_True Let_def mf sub fragment_header_eq [OF assms(1)] bind.bind_lunit
           piece_wire_def fst_conv snd_conv k(1))
    show ?thesis
    proof (cases "off + m \<le> length payload")
      case True
      then have km: "k = m" by (simp add: k_def)
      obtain ps where ps: "fragment_loop h fl m payload (off + m) = Some (map (piece_wire h fl (length payload)) ps)"
          "contig (off + m) ps (length payload)" "concat (map snd ps) = drop (off + m) payload"
          "list_all (aligned m (length payload)) ps"
        using less.hyps [of "off + m"] less.prems assms True \<open>off < length payload\<close>
        by (auto simp: less_diff_conv2)
      have "concat (map snd ((off, ?c) # ps)) = drop off payload"
        using ps(3) km by (simp add: drop_drop [symmetric] add.commute del: drop_drop)
      then show ?thesis
        using ps hd k km less.prems assms(3)
        by (intro exI [of _ "(off, ?c) # ps"]) (auto simp: aligned_def)
    next
      case False
      then have "k = length payload - off" by (simp add: k_def)
      then show ?thesis
        using hd k less.prems False
        by (intro exI [of _ "[(off, ?c)]"])
           (simp add: fragment_loop_done aligned_def)
    qed
  qed
qed

lemma contig_le: "contig off ps tot \<Longrightarrow> off \<le> tot"
  by (induction off ps tot rule: contig.induct) auto

lemma contig_bounds:
  "contig off ps tot \<Longrightarrow> p \<in> set ps \<Longrightarrow> off \<le> fst p \<and> fst p + length (snd p) \<le> tot \<and> snd p \<noteq> []"
proof (induction ps arbitrary: off)
  case (Cons q ps)
  obtain a c where q: "q = (a, c)" by (cases q)
  have "off + length c \<le> tot"
    using Cons.prems(1) q by (auto dest: contig_le)
  with Cons q show ?case
    by fastforce
qed simp

lemma contig_sorted: "contig off ps tot \<Longrightarrow> sorted (map fst ps) \<and> distinct (map fst ps)"
proof (induction ps arbitrary: off)
  case (Cons q ps)
  obtain a c where q: "q = (a, c)" by (cases q)
  have "off < fst p" if "p \<in> set ps" for p
    using contig_bounds [of "off + length c" ps tot p] Cons.prems q that by (cases c) auto
  with Cons q show ?case
    by fastforce
qed simp

lemma contig_disjoint:
  "contig off ps tot \<Longrightarrow> p \<in> set ps \<Longrightarrow> q \<in> set ps \<Longrightarrow> p \<noteq> q \<Longrightarrow>
   fst p + length (snd p) \<le> fst q \<or> fst q + length (snd q) \<le> fst p"
proof (induction ps arbitrary: off)
  case (Cons x ps)
  then show ?case
    using contig_bounds [of "off + length (snd x)" ps tot p] contig_bounds [of "off + length (snd x)" ps tot q]
    by (cases x) auto
qed simp

lemma overlap_scan_NoOverlap:
  "(\<And>f. f \<in> set fs \<Longrightarrow> e \<le> fr_offset f \<or> fr_offset f + length (fr_data f) \<le> off) \<Longrightarrow>
   overlap_scan off e fs = NoOverlap"
  by (induction fs) (auto simp: Let_def)

lemma contig_last: "contig off ps tot \<Longrightarrow> ps \<noteq> [] \<Longrightarrow> \<exists>p \<in> set ps. fst p + length (snd p) = tot"
proof (induction off ps tot rule: contig.induct)
  case (2 off a c ps tot)
  then show ?case by (cases ps) auto
qed simp

text \<open>The scan of \<open>complete\<close> succeeds exactly when no piece is missing.\<close>

lemma complete_scan_filter:
  "contig off ps tot \<Longrightarrow> ps \<noteq> [] \<Longrightarrow>
   complete_scan (int tot) (int off) (map piece_frag (filter P ps)) \<longleftrightarrow> list_all P ps"
proof (induction ps arbitrary: off)
  case IH: (Cons x ps)
  obtain c where x: "x = (off, c)" "c \<noteq> []" "contig (off + length c) ps tot"
    using IH.prems by (cases x) auto
  have le: "off + length c \<le> tot"
    using contig_le [OF x(3)] .
  show ?case
  proof (cases "P x")
    case True
    show ?thesis
    proof (cases ps)
      case (Cons y ys)
      then obtain d :: bytes where "d \<noteq> []" "contig (off + length c + length d) ys tot"
        using x(3) by (cases y) auto
      then have "off + length c < tot"
        using contig_le [of "off + length c + length d" ys tot] by (cases d) auto
      moreover have "ps \<noteq> []"
        using Cons by simp
      ultimately show ?thesis
        using True x(1) IH.IH [OF x(3)] by (simp add: Let_def)
    qed (use True x in simp)
  next
    case False
    have "\<not> complete_scan (int tot) (int off) (map piece_frag (filter P ps))"
    proof (cases "filter P ps")
      case (Cons y ys)
      then have "y \<in> set ps"
        by (metis filter_is_subset list.set_intros(1) subsetD)
      then have "fst y \<noteq> off"
        using contig_bounds [OF x(3)] x(2) by fastforce
      with Cons show ?thesis by simp
    qed simp
    with False show ?thesis by simp
  qed
qed simp

lemma assemble_copy_pieces:
  "contig off ps tot \<Longrightarrow> length pre = off \<Longrightarrow> length suf = tot - off \<Longrightarrow>
   assemble_copy (length h) (h @ pre @ suf) (map piece_frag ps) = Some (h @ pre @ concat (map snd ps))"
proof (induction ps arbitrary: off pre suf)
  case (Cons x ps)
  obtain c where x: "x = (off, c)" "contig (off + length c) ps tot"
    using Cons.prems by (cases x) auto
  have le: "off + length c \<le> tot"
    using contig_le [OF x(2)] .
  have "overwrite (h @ pre @ suf) (length h + off) c = h @ (pre @ c) @ drop (length c) suf"
    using Cons.prems le by (subst overwrite_fits) auto
  then show ?case
    using Cons.IH [OF x(2), of "pre @ c" "drop (length c) suf"] Cons.prems x le by simp
qed simp

lemma sort_pieces:
  assumes "contig off ps tot" and "mset fs = mset (map piece_frag (filter P ps))"
  shows "sort_key fr_offset fs = map piece_frag (filter P ps)"
proof (rule sort_key_inj_key_eq [OF assms(2)])
  have "distinct (map fst (filter P ps))" "sorted (map fst (filter P ps))"
    using contig_sorted [OF assms(1)] by (auto simp: distinct_map_filter sorted_filter)
  then show "inj_on fr_offset (set fs)" "sorted (map fr_offset (map piece_frag (filter P ps)))"
    using mset_eq_setD [OF assms(2)] by (auto simp: distinct_map inj_on_def comp_def)
qed

section \<open>Absorbing one piece\<close>

definition piece_hdr :: "bytes \<Rightarrow> u8 \<Rightarrow> nat \<Rightarrow> nat \<times> bytes \<Rightarrow> bytes" where
  "piece_hdr h fl tot p = rehdr h (of_nat (length h + length (snd p)))
     (flagsFrag (if fst p + length (snd p) < tot then fl OR IPv4FlagMoreFragments else fl) (of_nat (fst p div 8)))"

lemma piece_wire_split: "piece_wire h fl tot p = piece_hdr h fl tot p @ snd p"
  by (simp add: piece_wire_def piece_hdr_def)

lemma length_piece_hdr [simp]: "length (piece_hdr h fl tot p) = length h"
  by (simp add: piece_hdr_def)

text \<open>The set after the pieces \<open>D\<close> have arrived, in any order.\<close>

definition holding :: "bytes \<Rightarrow> u8 \<Rightarrow> nat \<Rightarrow> (nat \<times> bytes) list \<Rightarrow> ipv4FragmentSet \<Rightarrow> bool" where
  "holding h fl tot D s \<longleftrightarrow> mset (fs_fragments s) = mset (map piece_frag D) \<and>
     (\<forall>p \<in> set D. fst p = 0 \<longrightarrow> fs_header s = Some (piece_hdr h fl tot p)) \<and>
     ((\<forall>p \<in> set D. fst p \<noteq> 0) \<longrightarrow> fs_header s = None) \<and>
     fs_totalLen s = (if \<exists>p \<in> set D. fst p + length (snd p) = tot then int tot else -1)"

lemma holding_add:
  assumes "contig 0 ps tot" "p \<in> set ps" "p \<notin> set D" "set D \<subseteq> set ps" "holding h fl tot D s"
  shows "holding h fl tot (p # D)
    (fs_add (piece_hdr h fl tot p) (fst p) (fst p + length (snd p) < tot) (snd p) s)"
proof -
  have le: "fst p + length (snd p) \<le> tot"
    using contig_bounds [OF assms(1,2)] by simp
  have "fst q \<noteq> fst p" if "q \<in> set D" for q
  proof -
    have "q \<noteq> p" "q \<in> set ps" using that assms(3,4) by auto
    with contig_sorted [OF assms(1)] assms(2) show ?thesis
      by (auto simp: distinct_map dest: inj_onD)
  qed
  then have ne: "\<forall>q \<in> set D. fst q \<noteq> fst p" by blast
  moreover have "fs_header (fs_add (piece_hdr h fl tot p) (fst p) (fst p + length (snd p) < tot) (snd p) s) =
      Some (piece_hdr h fl tot q)" if "q \<in> set (p # D)" "fst q = 0" for q
    using that ne assms(5) by (cases "q = p") (auto simp: holding_def fs_add_def)
  ultimately show ?thesis
    using assms(5) le by (auto simp: holding_def fs_add_def split: if_splits)
qed

lemma holding_header: "holding h fl tot D s \<Longrightarrow> fs_header s \<noteq> None \<Longrightarrow> 
  \<exists>q \<in> set D. fst q = 0 \<and> fs_header s = Some (piece_hdr h fl tot q)"
  by (auto simp: holding_def)

lemma holding_total: "holding h fl tot D s \<Longrightarrow> 0 \<le> fs_totalLen s \<Longrightarrow> fs_totalLen s = int tot"
  by (auto simp: holding_def split: if_splits)

lemma holding_sort: "holding h fl tot D (s\<lparr>fs_fragments := sort_key fr_offset (fs_fragments s)\<rparr>) \<longleftrightarrow> holding h fl tot D s"
  by (simp add: holding_def)

lemma holding_filter:
  assumes "contig 0 ps tot" "distinct D" "set D \<subseteq> set ps"
  shows "mset (map piece_frag D) = mset (map piece_frag (filter (\<lambda>p. p \<in> set D) ps))"
proof -
  have "distinct ps"
    using contig_sorted [OF assms(1)] by (simp add: distinct_map)
  then have "mset D = mset (filter (\<lambda>p. p \<in> set D) ps)"
    using assms(2,3) by (subst set_eq_iff_mset_eq_distinct [symmetric]) auto
  then show ?thesis
    by (simp only: mset_map)
qed

lemma holding_complete:
  assumes "contig 0 ps tot" "ps \<noteq> []" "distinct D" "set D \<subseteq> set ps" "holding h fl tot D s"
  shows "0 \<le> fs_totalLen s \<and> fs_header s \<noteq> None \<and> fst (fs_complete s) \<longleftrightarrow> set D = set ps"
    and "snd (fs_complete s) = s\<lparr>fs_fragments := map piece_frag (filter (\<lambda>p. p \<in> set D) ps)\<rparr>"
proof -
  have srt: "sort_key fr_offset (fs_fragments s) = map piece_frag (filter (\<lambda>p. p \<in> set D) ps)"
    using assms(5) holding_filter [OF assms(1,3,4)] by (intro sort_pieces [OF assms(1)]) (simp add: holding_def)
  then show "snd (fs_complete s) = s\<lparr>fs_fragments := map piece_frag (filter (\<lambda>p. p \<in> set D) ps)\<rparr>"
    by (simp add: fs_complete_def)
  have scan: "complete_scan (int tot) 0 (sort_key fr_offset (fs_fragments s)) \<longleftrightarrow> set D = set ps"
    using complete_scan_filter [OF assms(1,2), of "\<lambda>p. p \<in> set D"] assms(4)
    by (auto simp: srt list_all_iff)
  show "0 \<le> fs_totalLen s \<and> fs_header s \<noteq> None \<and> fst (fs_complete s) \<longleftrightarrow> set D = set ps"
  proof
    assume "0 \<le> fs_totalLen s \<and> fs_header s \<noteq> None \<and> fst (fs_complete s)"
    with assms(5) scan show "set D = set ps"
      by (auto simp: holding_def fs_complete_def split: if_splits)
  next
    assume eq: "set D = set ps"
    have "hd ps \<in> set D" "fst (hd ps) = 0"
      using eq assms(1,2) by (cases ps; auto)+
    then have "fs_header s \<noteq> None"
      using assms(5) by (auto simp: holding_def)
    moreover have "\<exists>p \<in> set D. fst p + length (snd p) = tot"
      unfolding eq using assms(1,2) by (rule contig_last)
    then have "fs_totalLen s = int tot"
      using assms(5) by (simp add: holding_def)
    ultimately show "0 \<le> fs_totalLen s \<and> fs_header s \<noteq> None \<and> fst (fs_complete s)"
      using scan eq by (simp add: fs_complete_def)
  qed
qed

section \<open>Assembling\<close>

text \<open>A received packet: the header \<open>h\<close> and, directly after it, the payload \<open>d\<close>, at the start of the array.\<close>

definition pb_packet :: "PacketBuffer \<Rightarrow> bytes \<Rightarrow> bytes \<Rightarrow> bool" where
  "pb_packet pb h d \<longleftrightarrow> pb_headroom pb = 0 \<and> pb_consumed pb = 0 \<and>
     pb_NetworkHeader pb = Some (0, length h) \<and> pb_Data pb = Some (length h, length d) \<and>
     take (length h + length d) (pb_buf pb) = h @ d"

lemma new_with_data:
  "take (length d) (pb_buf (NewPacketBufferWithData arr d)) = d"
  "length d \<le> length (pb_buf (NewPacketBufferWithData arr d))"
  by (auto simp: NewPacketBufferWithData_def ensureCapacity_def pb_reset_def pooled_def Let_def overwrite_def)

lemma new_with_data_fields [simp]:
  "pb_headroom (NewPacketBufferWithData arr d) = 0" "pb_consumed (NewPacketBufferWithData arr d) = 0"
  by (auto simp: NewPacketBufferWithData_def ensureCapacity_def pb_reset_def pooled_def Let_def overwrite_def)

lemma length_concat_contig: "contig off ps tot \<Longrightarrow> off + length (concat (map snd ps)) = tot"
  by (induction off ps tot rule: contig.induct) auto

lemma assemble_pieces:
  assumes c: "contig 0 ps tot" and h: "20 \<le> length h" "fs_header s = Some (rehdr h n0 ff0)"
    and s: "fs_totalLen s = int tot" "fs_fragments s = map piece_frag ps"
  shows "\<exists>pb. assemble arr s = Some pb \<and>
    pb_packet pb (rehdr h (of_nat (length h + tot)) 0) (concat (map snd ps))"
proof -
  let ?h0 = "rehdr h n0 ff0" and ?d = "concat (map snd ps)"
  define raw where "raw = rehdr h (of_nat (length h + tot)) 0 @ ?d"
  have len: "length ?d = tot"
    using length_concat_contig [OF c] by simp
  have cp: "assemble_copy (length h) (?h0 @ replicate tot 0) (map piece_frag ps) = Some (?h0 @ ?d)"
    using assemble_copy_pieces [OF c, of "[]" "replicate tot 0" ?h0] by simp
  have ow: "overwrite (replicate (length h + tot) 0) 0 ?h0 = ?h0 @ replicate tot 0"
    by (subst overwrite_fits) simp_all
  have "assemble_raw ?h0 tot (map piece_frag ps) = Some raw"
    using fill_header [of ?h0 ?d "of_nat (length h + tot)" 0] h
    by (simp add: assemble_raw_def Let_def ow cp len IPv4_SetTotalLength_def IPv4_SetFlagsFragmentOffset_def
        IPv4_SetChecksum_def flagsFrag_def rehdr_rehdr raw_def del: put16_Some of_nat_add)
  moreover have lraw: "length raw = length h + tot"
    by (simp add: raw_def len)
  ultimately have "assemble arr s = Some ((NewPacketBufferWithData arr raw)
      \<lparr>pb_NetworkHeader := Some (0, length h), pb_Data := Some (length h, tot)\<rparr>)" (is "_ = Some ?pb")
    using h s new_with_data [of raw arr] by (simp add: assemble_def Let_def Buf_def)
  moreover have "pb_packet ?pb (rehdr h (of_nat (length h + tot)) 0) ?d"
    using new_with_data [of raw arr] lraw by (simp add: pb_packet_def len raw_def)
  ultimately show ?thesis
    by blast
qed

lemma process_set_piece:
  fixes arr :: bytes and key :: ipv4FragmentKey
  assumes c: "contig 0 ps tot" and h: "20 \<le> length h" and p: "p \<in> set ps" "p \<notin> set D"
    and D: "distinct D" "set D \<subseteq> set ps" "holding h fl tot D s"
    and mem: "rs_mem r + int (length (snd p)) \<le> ipv4ReassemblyHighThreshold"
  defines "res \<equiv> process_set arr r key s (piece_hdr h fl tot p) (fst p) (fst p + length (snd p) < tot) (snd p)"
  shows "if set (p # D) = set ps
    then \<exists>s' pb. res = Some (releaseSetLocked (rs_add r key (length (snd p)) s') key s', Some pb) \<and>
      pb_packet pb (rehdr h (of_nat (length h + tot)) 0) (concat (map snd ps))
    else \<exists>s'. res = Some (rs_add r key (length (snd p)) s', None) \<and> holding h fl tot (p # D) s' \<and>
      fs_createdAt s' = fs_createdAt s"
proof -
  let ?s3 = "fs_add (piece_hdr h fl tot p) (fst p) (fst p + length (snd p) < tot) (snd p) s"
  have b: "fst p + length (snd p) \<le> tot"
    using contig_bounds [OF c p(1)] by simp
  have "overlap_scan (fst p) (fst p + length (snd p)) (fs_fragments s) = NoOverlap"
  proof (rule overlap_scan_NoOverlap)
    fix f assume "f \<in> set (fs_fragments s)"
    then obtain q where q: "q \<in> set D" "f = piece_frag q"
      using D(3) mset_eq_setD [of "fs_fragments s" "map piece_frag D"] by (auto simp: holding_def)
    then have "q \<in> set ps" "q \<noteq> p"
      using D(2) p(2) by auto
    with contig_disjoint [OF c p(1), of q] q(2)
    show "fst p + length (snd p) \<le> fr_offset f \<or> fr_offset f + length (fr_data f) \<le> fst p"
      by auto
  qed
  moreover have "fst p + length (snd p) < tot \<or> fs_totalLen s < 0 \<or> fs_totalLen s = int (fst p + length (snd p))"
    using D(3) b by (auto simp: holding_def)
  ultimately have res: "res = (if 0 \<le> fs_totalLen ?s3 \<and> fs_header ?s3 \<noteq> None then
       case fs_complete ?s3 of (ok, s4) \<Rightarrow>
         if ok then assemble arr s4 \<bind>
           (\<lambda>pb. Some (releaseSetLocked (rs_add r key (length (snd p)) s4) key s4, Some pb))
         else Some (trimMemoryLocked (rs_add r key (length (snd p)) s4), None)
     else Some (trimMemoryLocked (rs_add r key (length (snd p)) ?s3), None))"
    unfolding res_def by (rule process_set_NoOverlap)
  have trim: "trimMemoryLocked (rs_add r key (length (snd p)) s') = rs_add r key (length (snd p)) s'" for s'
    using mem by (intro trimMemoryLocked_id) simp
  have hold: "holding h fl tot (p # D) ?s3"
    by (rule holding_add [OF c p D(2,3)])
  have pD: "distinct (p # D)" "set (p # D) \<subseteq> set ps" "ps \<noteq> []"
    using p D by auto
  note comp = holding_complete [OF c pD(3) pD(1,2) hold]
  obtain ok s4 where s4: "fs_complete ?s3 = (ok, s4)"
    by (cases "fs_complete ?s3")
  have "s4 = ?s3\<lparr>fs_fragments := sort_key fr_offset (fs_fragments ?s3)\<rparr>"
    using s4 by (auto simp: fs_complete_def Let_def)
  then have hold4: "holding h fl tot (p # D) s4" and cr: "fs_createdAt s4 = fs_createdAt s" "fs_createdAt ?s3 = fs_createdAt s"
    using hold holding_sort [of h fl tot "p # D" ?s3] by (simp_all add: fs_add_def)
  show ?thesis
  proof (cases "set (p # D) = set ps")
    case True
    then have frags: "fs_fragments s4 = map piece_frag ps" and hdrs: "fs_header s4 = fs_header ?s3" "fs_totalLen s4 = fs_totalLen ?s3"
      using comp(2) s4 by (simp_all add: filter_id_conv)
    have ne: "fs_header s4 \<noteq> None" "0 \<le> fs_totalLen s4"
      using True comp(1) hdrs by simp_all
    have tot: "fs_totalLen s4 = int tot"
      using hold4 ne(2) by (rule holding_total)
    from ne(1) hold4 obtain q where "fs_header s4 = Some (piece_hdr h fl tot q)"
      using holding_header by blast
    from assemble_pieces [OF c h this [unfolded piece_hdr_def] tot frags, of arr]
    obtain pb where pb: "assemble arr s4 = Some pb"
        "pb_packet pb (rehdr h (of_nat (length h + tot)) 0) (concat (map snd ps))"
      by blast
    have "res = Some (releaseSetLocked (rs_add r key (length (snd p)) s4) key s4, Some pb)"
      using True comp(1) s4 pb(1) by (simp add: res)
    with pb(2) True show ?thesis
      by auto
  next
    case False
    with comp(1) s4 res trim hold hold4 cr show ?thesis
      by auto
  qed
qed

section \<open>Processing the fragments of a datagram\<close>

definition find_set :: "ipv4Reassembler \<Rightarrow> int \<Rightarrow> ipv4FragmentKey \<Rightarrow> ipv4Reassembler \<times> ipv4FragmentSet" where
  "find_set r now key = (let e = evictExpiredLocked r now in
     case map_of (rs_sets e) key of
       None \<Rightarrow> (e\<lparr>rs_sets := set_put key (fresh_set now) (rs_sets e)\<rparr>, fresh_set now)
     | Some s \<Rightarrow> (e, s))"

lemma process_find:
  assumes "IPv4_FragmentOffset ipHdr = Some fo" "IPv4_More ipHdr = Some mf" "fragment_key ipHdr = Some key"
    and "d \<noteq> []" "unat fo * 8 + length d \<le> ipv4MaxPayloadSize" "mf \<Longrightarrow> length d mod 8 = 0"
    and "find_set r now key = (r1, s)"
  shows "process arr r now ipHdr hdr d = process_set arr r1 key s hdr (unat fo * 8) mf d"
  using assms by (auto simp: process_def Let_def find_set_def split: option.splits)

lemma more_bit: "fl AND IPv4FlagMoreFragments = 0 \<Longrightarrow> take_bit 3 fl AND IPv4FlagMoreFragments = 0"
  "take_bit 3 (fl OR IPv4FlagMoreFragments) AND IPv4FlagMoreFragments = (1 :: u8)"
  by (simp_all add: IPv4FlagMoreFragments_def and_one_eq mod_2_eq_odd even_or_iff)

lemma piece_hdr_get:
  assumes h: "20 \<le> length h" and fl: "fl AND IPv4FlagMoreFragments = 0"
    and p: "aligned m tot p" "fst p + length (snd p) \<le> tot" "snd p \<noteq> []" and tot: "tot \<le> ipv4MaxPayloadSize"
  shows "IPv4_More (piece_hdr h fl tot p @ r) = Some (fst p + length (snd p) < tot)"
    and "\<exists>fo. IPv4_FragmentOffset (piece_hdr h fl tot p @ r) = Some fo \<and> unat fo * 8 = fst p"
    and "IPv4_HeaderLength (piece_hdr h fl tot p @ r) = IPv4_HeaderLength h"
    and "fragment_key (piece_hdr h fl tot p @ r) = fragment_key h"
    and "length h + length (snd p) < 65536 \<Longrightarrow>
      map_option unat (IPv4_TotalLength (piece_hdr h fl tot p @ r)) = Some (length h + length (snd p))"
proof -
  let ?mf = "fst p + length (snd p) < tot"
  let ?o = "of_nat (fst p div 8) :: u16"
  have lt: "fst p div 8 < 8192"
    using p tot by (auto simp: ipv4MaxPayloadSize_def IPv4MinHeaderSize_def)
  have uo: "unat ?o = fst p div 8"
    using lt by (intro unat_of_nat_u16) simp
  have "?o AND 0x1fff = take_bit 13 ?o"
    by (simp add: low13_mask take_bit_eq_mask)
  also have "\<dots> = ?o"
    using lt uo by (simp add: word_eq_iff_unsigned [where 'a = nat] unsigned_take_bit_eq take_bit_nat_eq_self)
  finally have "IPv4_FragmentOffset (piece_hdr h fl tot p @ r) = Some ?o"
    using h by (simp add: piece_hdr_def rehdr_get offset_of_word)
  moreover have "unat ?o * 8 = fst p"
    using uo p(1) by (auto simp: aligned_def)
  ultimately show "\<exists>fo. IPv4_FragmentOffset (piece_hdr h fl tot p @ r) = Some fo \<and> unat fo * 8 = fst p"
    by blast
  show "IPv4_More (piece_hdr h fl tot p @ r) = Some ?mf"
    using h more_bit(1) [OF fl] more_bit(2) [of fl]
    by (simp add: piece_hdr_def IPv4_More_def rehdr_get flags_of_word)
  show "length h + length (snd p) < 65536 \<Longrightarrow>
      map_option unat (IPv4_TotalLength (piece_hdr h fl tot p @ r)) = Some (length h + length (snd p))"
    using h unat_of_nat_u16 [of "length h + length (snd p)"] by (simp add: piece_hdr_def rehdr_get)
qed (use h in \<open>simp_all add: piece_hdr_def rehdr_get\<close>)

lemma process_piece:
  assumes h: "20 \<le> length h" "fragment_key h = Some key" and fl: "fl AND IPv4FlagMoreFragments = 0"
    and p: "aligned m tot p" "fst p + length (snd p) \<le> tot" "snd p \<noteq> []" and tot: "tot \<le> ipv4MaxPayloadSize"
  shows "process arr r now (piece_wire h fl tot p) (piece_hdr h fl tot p) (snd p) =
    process_set arr (fst (find_set r now key)) key (snd (find_set r now key))
      (piece_hdr h fl tot p) (fst p) (fst p + length (snd p) < tot) (snd p)"
proof -
  note g = piece_hdr_get [OF h(1) fl p tot, of "snd p"]
  obtain fo where fo: "IPv4_FragmentOffset (piece_wire h fl tot p) = Some fo" "unat fo * 8 = fst p"
    using g(2) by (auto simp: piece_wire_split)
  have "IPv4_More (piece_wire h fl tot p) = Some (fst p + length (snd p) < tot)"
      "fragment_key (piece_wire h fl tot p) = Some key"
    using g(1,4) h(2) by (simp_all add: piece_wire_split)
  moreover have "fst p + length (snd p) \<le> ipv4MaxPayloadSize" "fst p + length (snd p) < tot \<Longrightarrow> length (snd p) mod 8 = 0"
    using p tot by (simp_all add: aligned_def)
  ultimately show ?thesis
    using process_find [OF fo(1), of _ key "snd p" r now] fo(2) p(3) by (cases "find_set r now key") simp
qed

text \<open>\<open>D\<close> has arrived, at or after time \<open>t0\<close>, and nothing else of the datagram.\<close>

definition pending :: "bytes \<Rightarrow> u8 \<Rightarrow> nat \<Rightarrow> ipv4FragmentKey \<Rightarrow> int \<Rightarrow> (nat \<times> bytes) list \<Rightarrow> ipv4Reassembler \<Rightarrow> bool" where
  "pending h fl tot key t0 D r \<longleftrightarrow> (case map_of (rs_sets r) key of
     None \<Rightarrow> D = [] | Some s \<Rightarrow> D \<noteq> [] \<and> holding h fl tot D s \<and> t0 \<le> fs_createdAt s)"

lemma map_of_live:
  assumes "distinct (map fst m)"
  shows "map_of (filter P m) k = (case map_of m k of None \<Rightarrow> None | Some v \<Rightarrow> if P (k, v) then Some v else None)"
  using assms by (induction m) (auto split: option.splits simp: map_of_eq_None_iff rev_image_eqI dest: map_of_SomeD)

lemma find_set_pending:
  assumes inv: "rs_inv r" and pend: "pending h fl tot key t0 D r" and now: "t0 \<le> now" "now \<le> t0 + rs_timeout r"
    and rs: "find_set r now key = (r1, s)"
  shows "holding h fl tot D s \<and> t0 \<le> fs_createdAt s \<and> rs_mem r1 \<le> rs_mem r \<and> rs_timeout r1 = rs_timeout r"
proof -
  note ev = evictExpiredLocked_spec [OF inv, of now]
  have "map_of (rs_sets (evictExpiredLocked r now)) key = map_of (rs_sets r) key"
    using inv pend now
    by (cases "map_of (rs_sets r) key") (auto simp: ev(2) map_of_live rs_inv_def live_def pending_def
        simp del: map_of_eq_Some_iff)
  then show ?thesis
    using rs pend ev(3,4) now by (auto simp: find_set_def Let_def pending_def holding_def split: option.splits)
qed

text \<open>
  Packets taken from the link one after the other: the pool array, the clock and the bytes of each.
  The header ends where its length field says, as in \<open>readLoop\<close>.
\<close>

fun process_all :: "ipv4Reassembler \<Rightarrow> (bytes \<times> int \<times> bytes) list \<Rightarrow> (ipv4Reassembler \<times> PacketBuffer option list) go" where
  "process_all r [] = Some (r, [])"
| "process_all r ((arr, now, raw) # ins) = do {
     hdrLen \<leftarrow> IPv4_HeaderLength raw;
     hdr \<leftarrow> subslice raw 0 hdrLen;
     d \<leftarrow> slice_from raw hdrLen;
     (r, out) \<leftarrow> process arr r now raw hdr d;
     (r, outs) \<leftarrow> process_all r ins;
     Some (r, out # outs) }"

lemma process_all_piece:
  assumes "20 \<le> length h" "IPv4_HeaderLength h = Some (length h)"
  shows "process_all r ((arr, now, piece_wire h fl tot p) # ins) =
    process arr r now (piece_wire h fl tot p) (piece_hdr h fl tot p) (snd p) \<bind>
    (\<lambda>(r, out). process_all r ins \<bind> (\<lambda>(r, outs). Some (r, out # outs)))"
proof -
  have "IPv4_HeaderLength (piece_wire h fl tot p) = Some (length h)"
    using assms by (simp add: piece_wire_def rehdr_get)
  then show ?thesis
    by (simp add: piece_wire_split)
qed

lemma map_of_set_del: "map_of (set_del k m) k = None"
  by (induction m) (auto simp: set_del_def)

abbreviation piece_of :: "bytes \<times> int \<times> nat \<times> bytes \<Rightarrow> nat \<times> bytes" where
  "piece_of x \<equiv> snd (snd x)"

abbreviation to_wire :: "bytes \<Rightarrow> u8 \<Rightarrow> nat \<Rightarrow> bytes \<times> int \<times> nat \<times> bytes \<Rightarrow> bytes \<times> int \<times> bytes" where
  "to_wire h fl tot x \<equiv> (fst x, fst (snd x), piece_wire h fl tot (piece_of x))"

lemma process_one_piece:
  assumes c: "contig 0 ps tot" "list_all (aligned m tot) ps" "tot \<le> ipv4MaxPayloadSize"
    and h: "20 \<le> length h" "fragment_key h = Some key" and fl: "fl AND IPv4FlagMoreFragments = 0"
    and inv: "rs_inv r" "pending h fl tot key t0 D r"
    and now: "t0 \<le> now" "now \<le> t0 + rs_timeout r"
    and p: "p \<in> set ps" "p \<notin> set D" "distinct D" "set D \<subseteq> set ps"
    and mem: "rs_mem r + int (length (snd p)) \<le> ipv4ReassemblyHighThreshold"
  obtains r' out where "process arr r now (piece_wire h fl tot p) (piece_hdr h fl tot p) (snd p) = Some (r', out)"
    "rs_inv r'"
    "set (p # D) = set ps \<Longrightarrow> map_of (rs_sets r') key = None \<and>
      (\<exists>pb. out = Some pb \<and> pb_packet pb (rehdr h (of_nat (length h + tot)) 0) (concat (map snd ps)))"
    "set (p # D) \<noteq> set ps \<Longrightarrow> out = None \<and> pending h fl tot key t0 (p # D) r' \<and>
       rs_timeout r' = rs_timeout r \<and> rs_mem r' \<le> rs_mem r + int (length (snd p))"
proof -
  obtain r1 s where f: "find_set r now key = (r1, s)"
    by (cases "find_set r now key")
  note fs = find_set_pending [OF inv now f]
  have b: "fst p + length (snd p) \<le> tot" "snd p \<noteq> []" "aligned m tot p"
    using contig_bounds [OF c(1) p(1)] c(2) p(1) by (auto simp: list_all_iff)
  have pr: "process arr r now (piece_wire h fl tot p) (piece_hdr h fl tot p) (snd p) =
      process_set arr r1 key s (piece_hdr h fl tot p) (fst p) (fst p + length (snd p) < tot) (snd p)"
    using process_piece [OF h fl b(3,1,2) c(3), of arr r now] f by simp
  note st = process_set_piece [OF c(1) h(1) p(1,2,3,4), of fl s r1 arr key, folded pr]
  have mem1: "rs_mem r1 + int (length (snd p)) \<le> ipv4ReassemblyHighThreshold" "rs_mem r \<le> ipv4ReassemblyHighThreshold"
    using fs mem by auto
  show thesis
  proof (cases "set (p # D) = set ps")
    case True
    then obtain s' pb where r: "process arr r now (piece_wire h fl tot p) (piece_hdr h fl tot p) (snd p) =
        Some (releaseSetLocked (rs_add r1 key (length (snd p)) s') key s', Some pb)"
        "pb_packet pb (rehdr h (of_nat (length h + tot)) 0) (concat (map snd ps))"
      using st fs mem1 by (auto simp del: list.set)
    show thesis
      by (rule that [OF r(1)]) (use process_inv [OF inv(1) mem1(2) r(1)] True r(2) in
        \<open>auto simp: releaseSetLocked_def Let_def map_of_set_del\<close>)
  next
    case False
    then obtain s' where r: "process arr r now (piece_wire h fl tot p) (piece_hdr h fl tot p) (snd p) =
        Some (rs_add r1 key (length (snd p)) s', None)" "holding h fl tot (p # D) s'" "fs_createdAt s' = fs_createdAt s"
      using st fs mem1 by (auto simp del: list.set)
    show thesis
      by (rule that [OF r(1)]) (use process_inv [OF inv(1) mem1(2) r(1)] False r(2,3) fs in
        \<open>auto simp: pending_def map_of_set_put\<close>)
  qed
qed

lemma process_all_pieces:
  assumes c: "contig 0 ps tot" "list_all (aligned m tot) ps" "tot \<le> ipv4MaxPayloadSize"
    and h: "20 \<le> length h" "fragment_key h = Some key" "IPv4_HeaderLength h = Some (length h)"
    and fl: "fl AND IPv4FlagMoreFragments = 0"
  shows "rs_inv r \<Longrightarrow> pending h fl tot key t0 D r \<Longrightarrow>
    distinct (map piece_of xs @ D) \<Longrightarrow> set (map piece_of xs) \<union> set D = set ps \<Longrightarrow> xs \<noteq> [] \<Longrightarrow>
    rs_mem r + int (\<Sum>x \<leftarrow> xs. length (snd (piece_of x))) \<le> ipv4ReassemblyHighThreshold \<Longrightarrow>
    (\<And>x. x \<in> set xs \<Longrightarrow> t0 \<le> fst (snd x) \<and> fst (snd x) \<le> t0 + rs_timeout r) \<Longrightarrow>
    \<exists>r' pb. process_all r (map (to_wire h fl tot) xs) = Some (r', replicate (length xs - 1) None @ [Some pb]) \<and>
      rs_inv r' \<and> map_of (rs_sets r') key = None \<and>
      pb_packet pb (rehdr h (of_nat (length h + tot)) 0) (concat (map snd ps))"
proof (induction xs arbitrary: D r)
  case (Cons x xs)
  obtain arr now p where x: "x = (arr, now, p)"
    by (cases x)
  have p: "p \<in> set ps" "p \<notin> set D" "distinct D" "set D \<subseteq> set ps" "t0 \<le> now" "now \<le> t0 + rs_timeout r"
      "rs_mem r + int (length (snd p)) \<le> ipv4ReassemblyHighThreshold"
    using Cons.prems(3,4,6) Cons.prems(7) [of x] x by auto
  obtain r' out where r': "process arr r now (piece_wire h fl tot p) (piece_hdr h fl tot p) (snd p) = Some (r', out)"
    "rs_inv r'"
    and all: "set (p # D) = set ps \<Longrightarrow> map_of (rs_sets r') key = None \<and>
      (\<exists>pb. out = Some pb \<and> pb_packet pb (rehdr h (of_nat (length h + tot)) 0) (concat (map snd ps)))"
    and some: "set (p # D) \<noteq> set ps \<Longrightarrow> out = None \<and> pending h fl tot key t0 (p # D) r' \<and>
       rs_timeout r' = rs_timeout r \<and> rs_mem r' \<le> rs_mem r + int (length (snd p))"
    using process_one_piece [OF c h(1,2) fl Cons.prems(1,2) p(5,6) p(1-4) p(7), of arr] by metis
  show ?case
  proof (cases xs)
    case Nil
    then show ?thesis
      using all Cons.prems(4) x r' h by (fastforce simp: process_all_piece simp del: process_all.simps(2))
  next
    case (Cons y ys)
    then have "set (p # D) \<noteq> set ps"
      using Cons.prems(3,4) x by auto
    note s = some [OF this]
    have "\<exists>r'' pb. process_all r' (map (to_wire h fl tot) xs) = Some (r'', replicate (length xs - 1) None @ [Some pb]) \<and>
      rs_inv r'' \<and> map_of (rs_sets r'') key = None \<and>
      pb_packet pb (rehdr h (of_nat (length h + tot)) 0) (concat (map snd ps))"
      by (rule Cons.IH [where D = "p # D"]) (use Cons Cons.prems x r' s in auto)
    then obtain r'' pb where rest: "process_all r' (map (to_wire h fl tot) xs) =
        Some (r'', replicate (length xs - 1) None @ [Some pb])" "rs_inv r''" "map_of (rs_sets r'') key = None"
        "pb_packet pb (rehdr h (of_nat (length h + tot)) 0) (concat (map snd ps))"
      by blast
    have "replicate (length (x # xs) - 1) None = None # replicate (length xs - 1) (None :: PacketBuffer option)"
      using Cons by simp
    then have "process_all r (map (to_wire h fl tot) (x # xs)) =
        Some (r'', replicate (length (x # xs) - 1) None @ [Some pb])"
      using x r'(1) s rest(1) h by (simp add: process_all_piece del: process_all.simps(2))
    with rest show ?thesis
      by blast
  qed
qed simp

section \<open>Fragmenting and reassembling a datagram\<close>

lemma mset_map_reorder: "mset ys = mset (map f xs) \<Longrightarrow> \<exists>zs. mset zs = mset xs \<and> map f zs = ys"
proof (induction ys arbitrary: xs)
  case (Cons y ys)
  then have "y \<in> set (map f xs)"
    by (metis list.set_intros(1) mset_eq_setD)
  then obtain as x bs where x: "xs = as @ x # bs" "y = f x"
    by (auto simp: in_set_conv_decomp)
  with Cons.prems have "mset ys = mset (map f (as @ bs))"
    by simp
  from Cons.IH [OF this] obtain zs where "mset zs = mset (as @ bs)" "map f zs = ys"
    by blast
  then show ?case
    using x by (intro exI [of _ "x # zs"]) simp
qed simp

text \<open>A packet that needs fragmentation is cut into consecutive pieces that all fit the MTU.\<close>

lemma fragmentIPv4Packet_pieces:
  assumes "fragmentIPv4Packet pkt mtu = Some (Some frags)" and "IPv4_HeaderLength pkt = Some hl"
    and "IPv4_TotalLength pkt = Some n" "unat n = length pkt" and "mtu < int (length pkt)"
    and "IPv4_Flags pkt = Some flags"
  obtains ps m where "20 \<le> hl" "hl \<le> length pkt"
    "frags = map (piece_wire (take hl pkt) (flags AND NOT IPv4FlagMoreFragments) (length pkt - hl)) ps"
    "contig 0 ps (length pkt - hl)" "concat (map snd ps) = drop hl pkt" "list_all (aligned m (length pkt - hl)) ps"
    "int (hl + m) \<le> mtu" "ps \<noteq> []"
proof -
  define avail where "avail = nat (mtu - int hl)"
  define m where "m = avail - avail mod 8"
  let ?fl = "flags AND NOT IPv4FlagMoreFragments"
  have g: "20 \<le> hl" "hl \<le> length pkt" "int hl < mtu" "0 < m"
      "fragment_loop (take hl pkt) ?fl m (drop hl pkt) 0 = Some frags"
    using assms by (auto simp: fragmentIPv4Packet_def bind_Some_iff IPv4MinHeaderSize_def Let_def m_def avail_def
        split: if_splits)
  have m: "m mod 8 = 0" "int (hl + m) \<le> mtu"
    using g(3) by (auto simp: m_def avail_def minus_mod_eq_mult_div)
  have "20 \<le> length (take hl pkt)"
    using g(1,2) by simp
  from fragment_loop_pieces [OF this g(4) m(1), of 0 "drop hl pkt" ?fl] g(5)
  obtain ps where ps: "frags = map (piece_wire (take hl pkt) ?fl (length pkt - hl)) ps"
      "contig 0 ps (length pkt - hl)" "concat (map snd ps) = drop hl pkt" "list_all (aligned m (length pkt - hl)) ps"
    by auto
  moreover have "ps \<noteq> []"
    using ps(2) g(3) assms(5) by auto
  ultimately show thesis
    using that g(1,2) m(2) by blast
qed

lemma fragmentIPv4Packet_cut:
  assumes h: "20 \<le> length h" "IPv4_HeaderLength h = Some (length h)" "IPv4_Flags h = Some flags"
      "flags AND IPv4FlagDontFragment = 0"
    and n: "IPv4_TotalLength h = Some n" "unat n = length h + length d"
    and mtu: "mtu < int (length h + length d)" "int (length h) + 8 \<le> mtu"
  obtains ps m where
    "fragmentIPv4Packet (h @ d) mtu =
       Some (Some (map (piece_wire h (flags AND NOT IPv4FlagMoreFragments) (length d)) ps))"
    "contig 0 ps (length d)" "concat (map snd ps) = d" "list_all (aligned m (length d)) ps"
    "int (length h + m) \<le> mtu" "ps \<noteq> []"
proof -
  define avail where "avail = nat (mtu - int (length h))"
  define m where "m = avail - avail mod 8"
  let ?fl = "flags AND NOT IPv4FlagMoreFragments"
  have m: "m mod 8 = 0" "0 < m" "int (length h + m) \<le> mtu"
    using mtu(2) by (auto simp: m_def avail_def minus_mod_eq_mult_div)
  obtain ps where ps: "fragment_loop h ?fl m d 0 = Some (map (piece_wire h ?fl (length d)) ps)"
      "contig 0 ps (length d)" "concat (map snd ps) = d" "list_all (aligned m (length d)) ps"
    using fragment_loop_pieces [OF h(1) m(2,1), of 0 d ?fl] by auto
  have get: "IPv4_HeaderLength (h @ d) = Some (length h)" "IPv4_TotalLength (h @ d) = Some n" "IPv4_Flags (h @ d) = Some flags"
    using h n by (cases h; simp add: IPv4_get_defs nth_append index_def get16_def)+
  have big: "\<not> avail \<le> avail mod 8"
    using m(2) by (simp add: m_def)
  have "fragmentIPv4Packet (h @ d) mtu = Some (Some (map (piece_wire h ?fl (length d)) ps))"
    using h(1,4) n(2) mtu m(2) get ps(1) big
    by (simp add: fragmentIPv4Packet_def IPv4MinHeaderSize_def Let_def flip: avail_def m_def)
  moreover have "ps \<noteq> []"
    using ps(2) mtu by auto
  ultimately show thesis
    using that ps m(3) by blast
qed

lemma get16_take: "off + 2 \<le> k \<Longrightarrow> k \<le> length b \<Longrightarrow> get16 (take k b) off = get16 b off"
  by (simp add: get16_def)

lemma get32_take: "off + 4 \<le> k \<Longrightarrow> k \<le> length b \<Longrightarrow> get32 (take k b) off = get32 b off"
  by (simp add: get32_def)

text \<open>The pieces of a datagram arrive in an arbitrary order.\<close>

lemma process_all_permuted:
  assumes ps: "contig 0 ps tot" "list_all (aligned m tot) ps" "ps \<noteq> []" and tot: "tot \<le> ipv4MaxPayloadSize"
    and h: "20 \<le> length h" "fragment_key h = Some key" "IPv4_HeaderLength h = Some (length h)"
    and perm: "mset (map (snd \<circ> snd) ins) = mset (map (piece_wire h 0 tot) ps)"
    and r: "rs_inv r" "map_of (rs_sets r) key = None" "rs_mem r + int tot \<le> ipv4ReassemblyHighThreshold"
    and t: "\<And>arr now raw. (arr, now, raw) \<in> set ins \<Longrightarrow> t0 \<le> now \<and> now \<le> t0 + rs_timeout r"
  shows "\<exists>r' pb. process_all r ins = Some (r', replicate (length ps - 1) None @ [Some pb]) \<and>
    rs_inv r' \<and> map_of (rs_sets r') key = None \<and>
    pb_packet pb (rehdr h (of_nat (length h + tot)) 0) (concat (map snd ps))"
proof -
  from mset_map_reorder [OF perm]
  obtain qs where qs: "mset qs = mset ps" "map (piece_wire h 0 tot) qs = map (snd \<circ> snd) ins"
    by blast
  define xs where "xs = map (\<lambda>(x, q). (fst x, fst (snd x), q)) (zip ins qs)"
  have len: "length ins = length qs"
    using qs(2) by (metis length_map)
  have wire: "map (to_wire h 0 tot) xs = ins" and pcs: "map piece_of xs = qs"
    using qs(2) len by (auto simp: xs_def list_eq_iff_nth_eq prod_eq_iff)
  have times: "t0 \<le> fst (snd x) \<and> fst (snd x) \<le> t0 + rs_timeout r" if "x \<in> set xs" for x
    using that t by (force simp: xs_def dest: set_zip_leftD)
  have "(\<Sum>x \<leftarrow> xs. length (snd (piece_of x))) = sum_list (map (\<lambda>q. length (snd q)) qs)"
    by (simp add: comp_def flip: pcs)
  also have "\<dots> = sum_list (map (\<lambda>q. length (snd q)) ps)"
    using arg_cong [OF qs(1), of "\<lambda>M. sum_mset (image_mset (\<lambda>q. length (snd q)) M)"]
    by (simp flip: mset_map add: sum_mset_sum_list)
  also have "\<dots> = tot"
    using length_concat_contig [OF ps(1)] by (simp add: length_concat comp_def)
  finally have sum: "(\<Sum>x \<leftarrow> xs. length (snd (piece_of x))) = tot" .
  have "distinct ps"
    using contig_sorted [OF ps(1)] by (simp add: distinct_map)
  then have dq: "distinct qs" "set qs = set ps" "xs \<noteq> []" "length xs = length ps"
    using qs(1) ps(3) pcs len by (auto simp: xs_def dest: mset_eq_setD mset_eq_imp_distinct_iff mset_eq_length)
  have "\<exists>r' pb. process_all r (map (to_wire h 0 tot) xs) = Some (r', replicate (length xs - 1) None @ [Some pb]) \<and>
      rs_inv r' \<and> map_of (rs_sets r') key = None \<and>
      pb_packet pb (rehdr h (of_nat (length h + tot)) 0) (concat (map snd ps))"
    by (rule process_all_pieces [OF ps(1,2) tot h _ r(1), where D = "[]" and ?t0.0 = t0])
       (use r(2,3) pcs dq times sum in \<open>auto simp: pending_def\<close>)
  then show ?thesis
    by (simp add: wire dq(4))
qed

lemma fragment_reassemble:
  assumes fr: "fragmentIPv4Packet pkt mtu = Some (Some frags)" "mtu < int (length pkt)"
    and pkt: "IPv4_HeaderLength pkt = Some hl" "IPv4_TotalLength pkt = Some n" "unat n = length pkt"
      "get16 pkt 6 = Some 0" "get16 pkt 10 = Some (Checksum (poke16 (take hl pkt) 10 0) 0)"
      "fragment_key pkt = Some key"
    and perm: "mset (map (snd \<circ> snd) ins) = mset frags"
    and r: "rs_inv r" "map_of (rs_sets r) key = None" "rs_mem r + int (length pkt) \<le> ipv4ReassemblyHighThreshold"
    and t: "\<And>arr now raw. (arr, now, raw) \<in> set ins \<Longrightarrow> t0 \<le> now \<and> now \<le> t0 + rs_timeout r"
  shows "\<exists>r' pb. process_all r ins = Some (r', replicate (length frags - 1) None @ [Some pb]) \<and>
    rs_inv r' \<and> map_of (rs_sets r') key = None \<and> pb_packet pb (take hl pkt) (drop hl pkt)"
proof -
  define h where "h = take hl pkt"
  define tot where "tot = length pkt - hl"
  have "20 \<le> length pkt"
    using fr(1) by (auto simp: fragmentIPv4Packet_def IPv4MinHeaderSize_def split: if_splits)
  with pkt(4) have "pkt ! 6 = 0"
    using be16_hi [of "pkt ! 6" "pkt ! 7"] by auto
  then have fl0: "IPv4_Flags pkt = Some 0"
    using \<open>20 \<le> length pkt\<close> by (simp add: IPv4_Flags_def)
  have index0: "index pkt 0 = Some (pkt ! 0)"
    using \<open>20 \<le> length pkt\<close> by (intro index_Some) linarith
  obtain ps m where ps: "20 \<le> hl" "hl \<le> length pkt" "frags = map (piece_wire h 0 tot) ps"
    "contig 0 ps tot" "concat (map snd ps) = drop hl pkt" "list_all (aligned m tot) ps" "ps \<noteq> []"
    by (rule fragmentIPv4Packet_pieces [OF fr(1) pkt(1-3) fr(2) fl0]) (rule that, simp_all add: h_def tot_def)
  have h: "20 \<le> length h" "length h = hl" "fragment_key h = Some key" "IPv4_HeaderLength h = Some (length h)"
      "get16 h 2 = Some n" "get16 h 6 = Some 0" "get16 h 10 = Some (Checksum (poke16 h 10 0) 0)"
    using ps(1,2) pkt index0 by (simp_all add: h_def fragment_key_def IPv4_get_defs get16_take get32_take)
  have hp: "rehdr h (of_nat (length h + tot)) 0 = h"
  proof -
    have "of_nat (unat n) = n"
      by simp
    with pkt(3) ps(2) h(2) have "of_nat (length h + tot) = n"
      by (simp add: tot_def del: of_nat_unat)
    with rehdr_fixed [OF h(5-7)] show ?thesis
      by simp
  qed
  have "\<exists>r' pb. process_all r ins = Some (r', replicate (length ps - 1) None @ [Some pb]) \<and>
    rs_inv r' \<and> map_of (rs_sets r') key = None \<and>
    pb_packet pb (rehdr h (of_nat (length h + tot)) 0) (concat (map snd ps))"
  proof (rule process_all_permuted [OF ps(4,6,7) _ h(1,3,4) _ r(1,2) _ t])
    show "tot \<le> ipv4MaxPayloadSize"
      using ps(1) pkt(3) unat_u16_less [of n] by (simp add: tot_def ipv4MaxPayloadSize_def IPv4MinHeaderSize_def)
  qed (use perm ps(3) r(3) in \<open>simp_all add: tot_def\<close>)
  then show ?thesis
    unfolding hp ps(3,5) by (simp add: h_def)
qed

text \<open>C1: Fragmentation followed by reassembly is the identity, in whatever order the fragments arrive.
  Let \<open>fragmentIPv4Packet\<close> cut a well-formed packet that is larger than the MTU into \<open>frags\<close>, let \<open>ins\<close> be
  any permutation of them, each with its arrival time and the stale pool array it is handled in, and let
  all arrive within the reassembly timeout at a reassembler that holds nothing for this datagram and has
  room for it. Then \<open>process\<close> never panics, answers \<open>nil\<close> for all but the last fragment, returns exactly
  the original header and payload on the last one, and keeps nothing of the datagram.\<close>

theorem fragment_reassemble_any_order:
  assumes fr: "fragmentIPv4Packet pkt mtu = Some (Some frags)" "mtu < int (length pkt)"
    and pkt: "IPv4_HeaderLength pkt = Some hl" "IPv4_TotalLength pkt = Some n" "unat n = length pkt"
      "get16 pkt 6 = Some 0" "get16 pkt 10 = Some (Checksum (poke16 (take hl pkt) 10 0) 0)"
      "fragment_key pkt = Some key"
    and perm: "mset (map (snd \<circ> snd) ins) = mset frags"
    and r: "rs_inv r" "map_of (rs_sets r) key = None" "rs_mem r + int (length pkt) \<le> ipv4ReassemblyHighThreshold"
    and t: "\<And>arr now raw. (arr, now, raw) \<in> set ins \<Longrightarrow> t0 \<le> now \<and> now \<le> t0 + rs_timeout r"
  shows "\<exists>r' pb. process_all r ins = Some (r', replicate (length frags - 1) None @ [Some pb]) \<and>
    rs_inv r' \<and> map_of (rs_sets r') key = None \<and> pb_packet pb (take hl pkt) (drop hl pkt)"
  using assms by (rule fragment_reassemble)


section \<open>Concrete datagrams\<close>

text \<open>A UDP datagram of 28 payload bytes and its two fragments for an MTU of 36.\<close>

definition sample_packet :: bytes where
  "sample_packet = [69, 0, 0, 48, 0, 1, 0, 0, 64, 17, 102, 186, 10, 0, 0, 1, 10, 0, 0, 2, 1, 2, 3, 4, 5, 6, 7, 8, 9,
     10, 11, 12, 13, 14, 15, 16, 17, 18, 19, 20, 21, 22, 23, 24, 25, 26, 27, 28]"

definition sample_frag1 :: bytes where
  "sample_frag1 = [69, 0, 0, 36, 0, 1, 32, 0, 64, 17, 70, 198, 10, 0, 0, 1, 10, 0, 0, 2, 1, 2, 3, 4, 5, 6, 7, 8, 9,
     10, 11, 12, 13, 14, 15, 16]"

definition sample_frag2 :: bytes where
  "sample_frag2 = [69, 0, 0, 32, 0, 1, 0, 2, 64, 17, 102, 200, 10, 0, 0, 1, 10, 0, 0, 2, 17, 18, 19, 20, 21, 22, 23,
     24, 25, 26, 27, 28]"

definition sample_key :: ipv4FragmentKey where
  "sample_key = \<lparr>fk_src = 0x0a000001, fk_dst = 0x0a000002, fk_id = 1, fk_proto = 17\<rparr>"

lemma sample_fragments: "fragmentIPv4Packet sample_packet 36 = Some (Some [sample_frag1, sample_frag2])"
  by code_simp

lemma sample_fields:
  "IPv4_HeaderLength sample_packet = Some 20" "IPv4_TotalLength sample_packet = Some 48"
  "unat (48 :: u16) = length sample_packet" "(36 :: int) < int (length sample_packet)"
  "get16 sample_packet 6 = Some 0" "get16 sample_packet 10 = Some (Checksum (poke16 (take 20 sample_packet) 10 0) 0)"
  "fragment_key sample_packet = Some sample_key"
  by code_simp+

theorem fragment_reassemble_any_order_witness:
  "\<exists>r' pb. process_all newIPv4Reassembler [([], 5, sample_frag2), ([1, 2, 3], 7, sample_frag1)] = Some (r', [None, Some pb]) \<and>
     rs_inv r' \<and> map_of (rs_sets r') sample_key = None \<and> pb_packet pb (take 20 sample_packet) (drop 20 sample_packet)"
proof -
  let ?ins = "[([], 5, sample_frag2), ([1, 2, 3], 7, sample_frag1)] :: (bytes \<times> int \<times> bytes) list"
  have "rs_mem newIPv4Reassembler + int (length sample_packet) \<le> ipv4ReassemblyHighThreshold"
    by code_simp
  moreover have "map_of (rs_sets newIPv4Reassembler) sample_key = None"
    by (simp add: newIPv4Reassembler_def)
  moreover have "mset (map (snd \<circ> snd) ?ins) = mset [sample_frag1, sample_frag2]"
    by simp
  moreover have "0 \<le> now \<and> now \<le> 0 + rs_timeout newIPv4Reassembler" if "(arr, now, raw) \<in> set ?ins" for arr now raw
    using that by (auto simp: newIPv4Reassembler_def ipv4ReassemblyTimeout_def)
  ultimately show ?thesis
    using fragment_reassemble_any_order [OF sample_fragments sample_fields(4,1,2,3,5,6,7), of ?ins newIPv4Reassembler 0]
      rs_inv_new by (simp del: process_all.simps)
qed


text \<open>
  Three fragments of eight bytes: one at offset 24, one at offset 0, and one at offset 8 that claims to
  be the last. The first two are kept; the third makes \<open>complete\<close> stop at the end it announces.
\<close>

definition stray_frag :: bytes where
  "stray_frag = [69, 0, 0, 28, 0, 7, 32, 3, 64, 17, 70, 197, 10, 0, 0, 1, 10, 0, 0, 2, 1, 1, 1, 1, 1, 1, 1, 1]"

definition first_frag :: bytes where
  "first_frag = [69, 0, 0, 28, 0, 7, 32, 0, 64, 17, 70, 200, 10, 0, 0, 1, 10, 0, 0, 2, 2, 2, 2, 2, 2, 2, 2, 2]"

definition last_frag :: bytes where
  "last_frag = [69, 0, 0, 28, 0, 7, 0, 1, 64, 17, 102, 199, 10, 0, 0, 1, 10, 0, 0, 2, 3, 3, 3, 3, 3, 3, 3, 3]"

definition stray_key :: ipv4FragmentKey where
  "stray_key = \<lparr>fk_src = 0x0a000001, fk_dst = 0x0a000002, fk_id = 7, fk_proto = 17\<rparr>"

text \<open>The reassembler after the first and after the second of them.\<close>

definition stray_state1 :: ipv4Reassembler where
  "stray_state1 = \<lparr>rs_sets = [(stray_key, \<lparr>fs_createdAt = 0, fs_header = None,
       fs_fragments = [\<lparr>fr_offset = 24, fr_data = replicate 8 1\<rparr>], fs_totalLen = -1, fs_mem = 8\<rparr>)],
     rs_mem = 8, rs_timeout = ipv4ReassemblyTimeout\<rparr>"

definition stray_state2 :: ipv4Reassembler where
  "stray_state2 = \<lparr>rs_sets = [(stray_key, \<lparr>fs_createdAt = 0, fs_header = Some (take 20 first_frag),
       fs_fragments = [\<lparr>fr_offset = 24, fr_data = replicate 8 1\<rparr>, \<lparr>fr_offset = 0, fr_data = replicate 8 2\<rparr>],
       fs_totalLen = -1, fs_mem = 16\<rparr>)],
     rs_mem = 16, rs_timeout = ipv4ReassemblyTimeout\<rparr>"

lemma stray_step:
  assumes "IPv4_FragmentOffset f = Some fo" "IPv4_More f = Some mf" "fragment_key f = Some key" "length f = 28"
    and "unat fo \<le> 3" "find_set r 0 key = (r1, s)" "IPv4_HeaderLength f = Some 20"
    and "process_set arr r1 key s (take 20 f) (unat fo * 8) mf (drop 20 f) = res"
  shows "process_all r ((arr, 0, f) # ins) =
    res \<bind> (\<lambda>(r, out). process_all r ins \<bind> (\<lambda>(r, outs). Some (r, out # outs)))"
proof -
  have "drop 20 f \<noteq> []" "unat fo * 8 + length (drop 20 f) \<le> ipv4MaxPayloadSize" "length (drop 20 f) mod 8 = 0"
    using assms(4,5) by (auto simp: ipv4MaxPayloadSize_def IPv4MinHeaderSize_def)
  from process_find [OF assms(1,2,3) this(1,2), of r 0 r1 s arr "take 20 f"] this assms(4,6,7,8)
  show ?thesis by simp
qed

lemma stray_step1:
  "process_all newIPv4Reassembler (([], 0, stray_frag) # ins) =
   process_all stray_state1 ins \<bind> (\<lambda>(r, outs). Some (r, None # outs))"
proof -
  have f: "IPv4_FragmentOffset stray_frag = Some 3" "IPv4_More stray_frag = Some True"
    "fragment_key stray_frag = Some stray_key" "length stray_frag = 28" "unat (3 :: u16) \<le> 3"
    "find_set newIPv4Reassembler 0 stray_key =
      (newIPv4Reassembler\<lparr>rs_sets := [(stray_key, fresh_set 0)]\<rparr>, fresh_set 0)"
    "IPv4_HeaderLength stray_frag = Some 20"
    by code_simp+
  have "process_set [] (newIPv4Reassembler\<lparr>rs_sets := [(stray_key, fresh_set 0)]\<rparr>) stray_key (fresh_set 0)
      (take 20 stray_frag) (unat (3 :: u16) * 8) True (drop 20 stray_frag) = Some (stray_state1, None)"
    by code_simp
  from stray_step [OF f this] show ?thesis
    by simp
qed

abbreviation stray_set :: "ipv4Reassembler \<Rightarrow> ipv4FragmentSet" where
  "stray_set r \<equiv> snd (hd (rs_sets r))"

lemma stray_step2:
  "process_all stray_state1 (([], 0, first_frag) # ins) =
   process_all stray_state2 ins \<bind> (\<lambda>(r, outs). Some (r, None # outs))"
proof -
  have f: "IPv4_FragmentOffset first_frag = Some 0" "IPv4_More first_frag = Some True"
    "fragment_key first_frag = Some stray_key" "length first_frag = 28" "unat (0 :: u16) \<le> 3"
    "find_set stray_state1 0 stray_key = (stray_state1, stray_set stray_state1)"
    "IPv4_HeaderLength first_frag = Some 20"
    by code_simp+
  have "process_set [] stray_state1 stray_key (stray_set stray_state1)
      (take 20 first_frag) (unat (0 :: u16) * 8) True (drop 20 first_frag) = Some (stray_state2, None)"
    by code_simp
  from stray_step [OF f this] show ?thesis
    by simp
qed

lemma stray_step3: "process_all stray_state2 (([], 0, last_frag) # ins) = None"
proof -
  have f: "IPv4_FragmentOffset last_frag = Some 1" "IPv4_More last_frag = Some False"
    "fragment_key last_frag = Some stray_key" "length last_frag = 28" "unat (1 :: u16) \<le> 3"
    "find_set stray_state2 0 stray_key = (stray_state2, stray_set stray_state2)"
    "IPv4_HeaderLength last_frag = Some 20"
    by code_simp+
  have "process_set [] stray_state2 stray_key (stray_set stray_state2)
      (take 20 last_frag) (unat (1 :: u16) * 8) False (drop 20 last_frag) = None"
    by code_simp
  from stray_step [OF f this] show ?thesis
    by simp
qed

lemma process_allE:
  assumes "process_all r [(arr, now, raw)] = Some (r', outs)"
  obtains hdr d out where "process arr r now raw hdr d = Some (r', out)"
  using assms by (auto simp: bind_Some_iff)

theorem reassembly_memory_bounded_witness:
  "rs_inv stray_state1 \<and> rs_mem stray_state1 = (\<Sum>(k, s) \<leftarrow> rs_sets stray_state1. frag_bytes (fs_fragments s)) \<and>
    0 \<le> rs_mem stray_state1 \<and> rs_mem stray_state1 \<le> ipv4ReassemblyHighThreshold"
proof (rule reassembly_memory_bounded)
  have "process_all newIPv4Reassembler [([], 0, stray_frag)] = Some (stray_state1, [None])"
    by (simp add: stray_step1 del: process_all.simps(2))
  then show "reassembler_reaches stray_state1"
    by (rule process_allE) (rule reassembler_reaches.step [OF reassembler_reaches.init])
qed

text \<open>C10: Three valid packets from the network make reassembly panic. Each fragment passes the checks of
  \<open>readLoop\<close> (length, header checksum), the first two are stored, and on the third \<open>complete\<close> reports
  success because it returns at the announced end without looking at the fragment stored beyond it, whereupon
  \<open>assemble\<close> slices past the end of the datagram.\<close>

theorem reassembly_panics:
  "map_option snd (process_all newIPv4Reassembler [([], 0, stray_frag), ([], 0, first_frag)]) = Some [None, None] \<and>
   process_all newIPv4Reassembler [([], 0, stray_frag), ([], 0, first_frag), ([], 0, last_frag)] = None \<and>
   list_all (\<lambda>f. IPv4_TotalLength f = Some 28 \<and> length f = 28 \<and> Checksum (take 20 f) 0 = 0)
     [stray_frag, first_frag, last_frag]"
proof (intro conjI)
  show "list_all (\<lambda>f. IPv4_TotalLength f = Some 28 \<and> length f = 28 \<and> Checksum (take 20 f) 0 = 0)
     [stray_frag, first_frag, last_frag]"
    by code_simp
qed (simp_all only: stray_step1 stray_step2 stray_step3, simp_all)

end
