(* ===== verification/Channel.thy ===== *)
theory Channel
  imports Prelude
begin

text \<open>
  Packet channels: the interface of \<open>src/channel/channel.go\<close>, the offload options of
  \<open>src/channel/gso.go\<close> and the in-process channel of \<open>src/channel/memory.go\<close>.

  A Go channel with a buffer is the list of the values it holds together with its capacity. A
  \<open>select\<close> over two operations takes one that is ready; when both are, the choice is an argument.
  An operation that has to wait gives \<open>Blocks\<close>: it leaves the state as it is and may be tried again.
\<close>

section \<open>Waiting\<close>

datatype 'a blocking = Blocks | Returns 'a

text \<open>\<open>select\<close> with two cases: the case taken, if any is ready.\<close>

definition select2 :: "bool \<Rightarrow> bool \<Rightarrow> bool \<Rightarrow> bool option" where
  "select2 pick ready1 ready2 =
     (if ready1 \<and> ready2 then Some pick else if ready1 then Some True else if ready2 then Some False else None)"

section \<open>Offload options\<close>

definition GSONone :: u8 where "GSONone = 0"
definition GSOTCPv4 :: u8 where "GSOTCPv4 = 1"

record PacketOptions =
  po_GSOType :: u8
  po_GSOSize :: u16
  po_HdrLen :: u16
  po_CsumStart :: u16
  po_CsumOffset :: u16

definition no_options :: PacketOptions where
  "no_options = \<lparr>po_GSOType = GSONone, po_GSOSize = 0, po_HdrLen = 0, po_CsumStart = 0, po_CsumOffset = 0\<rparr>"

section \<open>The memory channel\<close>

datatype channel_error = ErrChannelClosed

record MemoryChannel =
  mc_inbound :: "bytes list"
  mc_outbound :: "bytes list"
  mc_mtu :: int
  mc_closed :: bool

definition mc_capacity :: nat where
  "mc_capacity = 256"

definition NewMemory :: "int \<Rightarrow> MemoryChannel" where
  "NewMemory mtu = \<lparr>mc_inbound = [], mc_outbound = [], mc_mtu = mtu, mc_closed = False\<rparr>"

text \<open>\<open>ReadPacket\<close>: the bytes copied into a buffer \<open>buf\<close>, how many they are, and the channel.\<close>

definition mc_ReadPacket :: "bool \<Rightarrow> MemoryChannel \<Rightarrow> bytes \<Rightarrow> (channel_error + (bytes \<times> nat) \<times> MemoryChannel) blocking" where
  "mc_ReadPacket pick c buf =
     (case select2 pick (mc_inbound c \<noteq> []) (mc_closed c) of
        None \<Rightarrow> Blocks
      | Some True \<Rightarrow> Returns (Inr ((overwrite buf 0 (hd (mc_inbound c)), min (length buf) (length (hd (mc_inbound c)))),
          c\<lparr>mc_inbound := tl (mc_inbound c)\<rparr>))
      | Some False \<Rightarrow> Returns (Inl ErrChannelClosed))"

definition mc_WritePacket :: "bool \<Rightarrow> MemoryChannel \<Rightarrow> bytes \<Rightarrow> (channel_error + MemoryChannel) blocking" where
  "mc_WritePacket pick c d =
     (if mc_closed c then Returns (Inl ErrChannelClosed)
      else case select2 pick (length (mc_outbound c) < mc_capacity) (mc_closed c) of
        None \<Rightarrow> Blocks
      | Some True \<Rightarrow> Returns (Inr (c\<lparr>mc_outbound := mc_outbound c @ [d]\<rparr>))
      | Some False \<Rightarrow> Returns (Inl ErrChannelClosed))"

definition mc_Close :: "MemoryChannel \<Rightarrow> MemoryChannel" where
  "mc_Close c = (if mc_closed c then c else c\<lparr>mc_closed := True\<rparr>)"

definition mc_MTU :: "MemoryChannel \<Rightarrow> int" where
  "mc_MTU c = mc_mtu c"

definition mc_Inject :: "MemoryChannel \<Rightarrow> bytes \<Rightarrow> MemoryChannel blocking" where
  "mc_Inject c d = (if length (mc_inbound c) < mc_capacity then Returns (c\<lparr>mc_inbound := mc_inbound c @ [d]\<rparr>) else Blocks)"

definition mc_TryRead :: "MemoryChannel \<Rightarrow> bytes option \<times> MemoryChannel" where
  "mc_TryRead c = (case mc_outbound c of [] \<Rightarrow> (None, c) | d # ds \<Rightarrow> (Some d, c\<lparr>mc_outbound := ds\<rparr>))"

text \<open>\<open>Read\<close>: a packet if one is there, or comes before the timeout fires; \<open>fires\<close> is whether it does.\<close>

definition mc_Read :: "bool \<Rightarrow> bool \<Rightarrow> MemoryChannel \<Rightarrow> (bytes option \<times> MemoryChannel) blocking" where
  "mc_Read pick fires c =
     (case select2 pick (mc_outbound c \<noteq> []) fires of
        None \<Rightarrow> Blocks
      | Some True \<Rightarrow> Returns (Some (hd (mc_outbound c)), c\<lparr>mc_outbound := tl (mc_outbound c)\<rparr>)
      | Some False \<Rightarrow> Returns (None, c))"

section \<open>What a link promises\<close>

text \<open>
  The contract the stack relies on: a packet that was accepted for writing is read by the other
  side unchanged, after everything accepted before it and exactly once. \<open>queue\<close> is what is under way.
\<close>

locale link =
  fixes queue :: "'c \<Rightarrow> bytes list"
    and send :: "'c \<Rightarrow> bytes \<Rightarrow> 'c option"
    and recv :: "'c \<Rightarrow> bytes option \<times> 'c"
  assumes send_queue: "send c d = Some c' \<Longrightarrow> queue c' = queue c @ [d]"
    and recv_empty: "queue c = [] \<Longrightarrow> recv c = (None, c)"
    and recv_queue: "queue c = d # ds \<Longrightarrow> \<exists>c'. recv c = (Some d, c') \<and> queue c' = ds"
begin

primrec send_all :: "'c \<Rightarrow> bytes list \<Rightarrow> 'c option" where
  "send_all c [] = Some c"
| "send_all c (d # ds) = send c d \<bind> (\<lambda>c. send_all c ds)"

primrec recv_all :: "'c \<Rightarrow> nat \<Rightarrow> bytes option list \<times> 'c" where
  "recv_all c 0 = ([], c)"
| "recv_all c (Suc n) = (let (d, c) = recv c; (ds, c) = recv_all c n in (d # ds, c))"

lemma send_all_queue: "send_all c ds = Some c' \<Longrightarrow> queue c' = queue c @ ds"
  by (induction ds arbitrary: c) (auto simp: bind_Some_iff dest: send_queue)

lemma recv_all_queue: "\<exists>c'. recv_all c (length (queue c)) = (map Some (queue c), c') \<and> queue c' = []"
proof (induction "queue c" arbitrary: c)
  case (Cons d ds)
  then obtain c1 where c1: "recv c = (Some d, c1)" "queue c1 = ds"
    using recv_queue by metis
  with Cons.hyps obtain c2 where "recv_all c1 (length ds) = (map Some ds, c2)" "queue c2 = []"
    by metis
  with c1 Cons.hyps(2) [symmetric] show ?case
    by simp
qed simp

lemma link_fifo:
  assumes "queue c = []" and "send_all c ds = Some c'"
  shows "fst (recv_all c' (length ds)) = map Some ds"
  using send_all_queue [OF assms(2)] recv_all_queue [of c'] assms(1) by auto

end

text \<open>Sending on the memory channel as its peer sees it: \<open>WritePacket\<close> on one side, \<open>TryRead\<close> on the other.\<close>

definition mc_send :: "MemoryChannel \<Rightarrow> bytes \<Rightarrow> MemoryChannel option" where
  "mc_send c d = (case mc_WritePacket True c d of Returns (Inr c') \<Rightarrow> Some c' | _ \<Rightarrow> None)"

interpretation mem: link mc_outbound mc_send mc_TryRead
  by unfold_locales
     (auto simp: mc_send_def mc_WritePacket_def mc_TryRead_def select2_def split: blocking.splits sum.splits if_splits)

lemma mc_send_accepts:
  "\<not> mc_closed c \<Longrightarrow> length (mc_outbound c) < mc_capacity \<Longrightarrow> mc_send c d = Some (c\<lparr>mc_outbound := mc_outbound c @ [d]\<rparr>)"
  by (simp add: mc_send_def mc_WritePacket_def select2_def)

lemma mc_send_all_accepts:
  "\<not> mc_closed c \<Longrightarrow> length (mc_outbound c) + length ds \<le> mc_capacity \<Longrightarrow> \<exists>c'. mem.send_all c ds = Some c'"
  by (induction ds arbitrary: c) (auto simp: mc_send_accepts)



end
