(* ===== verification/StackCore.thy ===== *)
theory StackCore
  imports UDPHeader FragRoundtrip Channel
begin

text \<open>
  The network layer: \<open>src/stack/stack.go\<close>, \<open>src/stack/icmp.go\<close>, \<open>src/stack/options.go\<close> and
  \<open>src/stack/stats.go\<close>.

  The underlying channel is seen through its MTU, whether it supports offload, and the packets handed
  to it so far, oldest first. The bodies of \<open>readLoop\<close> and \<open>writeLoop\<close> are functions: one call handles one
  packet. A transport handler is reached through \<open>readLoop\<close>'s verdict, which names the protocol and the
  packet buffer the handler gets.
\<close>

section \<open>State\<close>

definition maxSupportedMTU :: int where
  "maxSupportedMTU = 1500"

record StackStats =
  st_PacketsIn :: u64
  st_PacketsOut :: u64
  st_BytesIn :: u64
  st_BytesOut :: u64
  st_DroppedOutbound :: u64
  st_UnknownProtocol :: u64

datatype outboundItem = NormalItem PacketBuffer | GSOItem (gsoBuf: bytes) (gsoPoolBuf: bytes) (gsoOpts: PacketOptions)

record Stack =
  stk_mtu :: int
  stk_gsoOK :: bool
  stk_outboundCh :: "outboundItem list"
  stk_outboundCap :: nat
  stk_handlers :: "TransportProtocolNumber list"
  stk_fragments :: ipv4Reassembler
  stk_ipv4ID :: u32
  stk_ttl :: u8
  stk_stats :: "StackStats option"
  stk_done :: bool
  stk_wire :: "(bytes \<times> PacketOptions option) list"

record StackConfig =
  scfg_TTL :: u8
  scfg_OutboundQueueSize :: nat

definition defaultStackConfig :: StackConfig where
  "defaultStackConfig = \<lparr>scfg_TTL = 64, scfg_OutboundQueueSize = 256\<rparr>"

definition WithTTL :: "u8 \<Rightarrow> StackConfig \<Rightarrow> StackConfig" where
  "WithTTL ttl c = c\<lparr>scfg_TTL := ttl\<rparr>"

definition WithOutboundQueueSize :: "nat \<Rightarrow> StackConfig \<Rightarrow> StackConfig" where
  "WithOutboundQueueSize n c = c\<lparr>scfg_OutboundQueueSize := n\<rparr>"

text \<open>\<open>New\<close>: the options are applied in order; a channel with a larger MTU is refused by a panic.\<close>

definition NewStack :: "int \<Rightarrow> bool \<Rightarrow> (StackConfig \<Rightarrow> StackConfig) list \<Rightarrow> Stack go" where
  "NewStack mtu gsoOK opts =
     (if mtu > maxSupportedMTU then panic
      else let cfg = fold (\<lambda>opt cfg. opt cfg) opts defaultStackConfig
           in Some \<lparr>stk_mtu = mtu, stk_gsoOK = gsoOK, stk_outboundCh = [],
                    stk_outboundCap = scfg_OutboundQueueSize cfg, stk_handlers = [],
                    stk_fragments = newIPv4Reassembler, stk_ipv4ID = 0, stk_ttl = scfg_TTL cfg,
                    stk_stats = None, stk_done = False, stk_wire = []\<rparr>)"

definition EnableStackStats :: "Stack \<Rightarrow> Stack" where
  "EnableStackStats s = s\<lparr>stk_stats := Some \<lparr>st_PacketsIn = 0, st_PacketsOut = 0, st_BytesIn = 0, st_BytesOut = 0,
     st_DroppedOutbound = 0, st_UnknownProtocol = 0\<rparr>\<rparr>"

definition OutboundQueueLen :: "Stack \<Rightarrow> nat" where
  "OutboundQueueLen s = length (stk_outboundCh s)"

definition RegisterHandler :: "Stack \<Rightarrow> TransportProtocolNumber \<Rightarrow> Stack" where
  "RegisterHandler s proto = s\<lparr>stk_handlers := List.insert proto (stk_handlers s)\<rparr>"

definition StopStack :: "Stack \<Rightarrow> Stack" where
  "StopStack s = s\<lparr>stk_done := True\<rparr>"

text \<open>Counters: nothing happens while statistics are disabled.\<close>

definition stack_count :: "(StackStats \<Rightarrow> StackStats) \<Rightarrow> Stack \<Rightarrow> Stack" where
  "stack_count f s = s\<lparr>stk_stats := map_option f (stk_stats s)\<rparr>"

abbreviation dropped_out :: "StackStats \<Rightarrow> StackStats" where
  "dropped_out st \<equiv> st\<lparr>st_DroppedOutbound := st_DroppedOutbound st + 1\<rparr>"

definition countPacketOut :: "nat \<Rightarrow> Stack \<Rightarrow> Stack" where
  "countPacketOut n = stack_count (\<lambda>st. st\<lparr>st_PacketsOut := st_PacketsOut st + 1, st_BytesOut := st_BytesOut st + of_nat n\<rparr>)"

definition nextIPv4ID :: "Stack \<Rightarrow> u16 \<times> Stack" where
  "nextIPv4ID s = (ucast (stk_ipv4ID s + 1), s\<lparr>stk_ipv4ID := stk_ipv4ID s + 1\<rparr>)"

section \<open>Sending\<close>

text \<open>The header fields both send functions encode.\<close>

definition send_fields :: "u16 \<Rightarrow> u16 \<Rightarrow> u8 \<Rightarrow> TransportProtocolNumber \<Rightarrow> Address \<Rightarrow> Address \<Rightarrow> IPv4Fields" where
  "send_fields totalLen ident ttl proto src dst = \<lparr>ip_TOS = 0, ip_TotalLength = totalLen, ip_ID = ident, ip_Flags = 0,
     ip_FragmentOffset = 0, ip_TTL = ttl, ip_Protocol = proto, ip_Checksum = 0, ip_SrcAddr = src, ip_DstAddr = dst\<rparr>"

text \<open>Encoding the header into the slice and filling in its checksum.\<close>

definition encode_ip :: "bytes \<Rightarrow> IPv4Fields \<Rightarrow> bytes go" where
  "encode_ip ipSlice f = do {
     ip \<leftarrow> IPv4_Encode ipSlice f;
     ip \<leftarrow> IPv4_SetChecksum ip 0;
     IPv4_SetChecksum ip (Checksum ip 0) }"

definition enqueue :: "bool \<Rightarrow> Stack \<Rightarrow> outboundItem \<Rightarrow> Stack blocking" where
  "enqueue pick s item =
     (case select2 pick (length (stk_outboundCh s) < stk_outboundCap s) (stk_done s) of
        None \<Rightarrow> Blocks
      | Some True \<Rightarrow> Returns (s\<lparr>stk_outboundCh := stk_outboundCh s @ [item]\<rparr>)
      | Some False \<Rightarrow> Returns s)"

definition SendPacket :: "bool \<Rightarrow> Stack \<Rightarrow> PacketBuffer \<Rightarrow> Address \<Rightarrow> Address \<Rightarrow> TransportProtocolNumber \<Rightarrow> Stack blocking go" where
  "SendPacket pick s pb src dst proto = do {
     (pb, v) \<leftarrow> Prepend pb IPv4MinHeaderSize;
     b \<leftarrow> AsSlice pb;
     let totalLen = length b;
     if totalLen > 0xffff then Some (Returns (stack_count dropped_out s))
     else do {
       ipSlice \<leftarrow> view_bytes pb v;
       let (ident, s) = nextIPv4ID s;
       ip \<leftarrow> encode_ip ipSlice (send_fields (of_nat totalLen) ident (stk_ttl s) proto src dst);
       pb \<leftarrow> write_at pb (fst v) ip;
       let pb = pb\<lparr>pb_NetworkHeader := Some v\<rparr>;
       Some (enqueue pick s (NormalItem pb)) } }"

text \<open>\<open>PutGSOBuf\<close> on the branches that give the buffer back panics unless the buffer has the size of the pool's arrays.\<close>

definition SendPacketGSO :: "bool \<Rightarrow> Stack \<Rightarrow> bytes \<Rightarrow> nat \<Rightarrow> nat \<Rightarrow> Address \<Rightarrow> Address \<Rightarrow> TransportProtocolNumber \<Rightarrow>
    PacketOptions \<Rightarrow> Stack blocking go" where
  "SendPacketGSO pick s buf ipOffset totalLen src dst proto opts =
     (if totalLen > 0xffff then do {
        _ \<leftarrow> PutGSOBuf buf;
        Some (Returns (stack_count dropped_out s)) }
      else do {
        ipSlice \<leftarrow> subslice buf ipOffset (ipOffset + IPv4MinHeaderSize);
        let (ident, s) = nextIPv4ID s;
        ip \<leftarrow> encode_ip ipSlice (send_fields (of_nat totalLen) ident (stk_ttl s) proto src dst);
        buf \<leftarrow> copy_at buf ipOffset ip;
        pkt \<leftarrow> subslice buf ipOffset (ipOffset + totalLen);
        if select2 pick (length (stk_outboundCh s) < stk_outboundCap s) (stk_done s) = Some False then do {
          _ \<leftarrow> PutGSOBuf buf;
          Some (Returns s) }
        else Some (enqueue pick s (GSOItem pkt buf opts)) })"

section \<open>The write loop\<close>

definition writeWirePacket :: "Stack \<Rightarrow> bytes \<Rightarrow> Stack" where
  "writeWirePacket s d =
     (let s = countPacketOut (length d) s
      in s\<lparr>stk_wire := stk_wire s @ [(d, if stk_gsoOK s then Some no_options else None)]\<rparr>)"

definition writePacket :: "Stack \<Rightarrow> bytes \<Rightarrow> Stack go" where
  "writePacket s d =
     (if stk_mtu s \<le> 0 \<or> int (length d) \<le> stk_mtu s then Some (writeWirePacket s d)
      else do {
        res \<leftarrow> fragmentIPv4Packet d (stk_mtu s);
        case res of
          None \<Rightarrow> Some (stack_count dropped_out s)
        | Some frags \<Rightarrow> Some (fold (\<lambda>frag s. writeWirePacket s frag) frags s) })"

definition writeGSOItem :: "Stack \<Rightarrow> bytes \<Rightarrow> bytes \<Rightarrow> PacketOptions \<Rightarrow> Stack go" where
  "writeGSOItem s buf poolBuf opts = do {
     let s = (if \<not> stk_gsoOK s then stack_count dropped_out s
              else let s = countPacketOut (length buf) s in s\<lparr>stk_wire := stk_wire s @ [(buf, Some opts)]\<rparr>);
     _ \<leftarrow> PutGSOBuf poolBuf;
     Some s }"

text \<open>One round of \<open>writeLoop\<close>: an item of the queue is written, or \<open>done\<close> ends the loop (\<open>None\<close>).\<close>

definition writeLoop_round :: "bool \<Rightarrow> Stack \<Rightarrow> Stack option blocking go" where
  "writeLoop_round pick s =
     (case select2 pick (stk_outboundCh s \<noteq> []) (stk_done s) of
        None \<Rightarrow> Some Blocks
      | Some False \<Rightarrow> Some (Returns None)
      | Some True \<Rightarrow> do {
          let item = hd (stk_outboundCh s);
          let s = s\<lparr>stk_outboundCh := tl (stk_outboundCh s)\<rparr>;
          s \<leftarrow> (case item of
                 GSOItem buf poolBuf opts \<Rightarrow> writeGSOItem s buf poolBuf opts
               | NormalItem pb \<Rightarrow> do { d \<leftarrow> AsSlice pb; writePacket s d });
          Some (Returns (Some s)) })"

section \<open>ICMP\<close>

definition echo_ip :: "nat \<Rightarrow> bytes \<Rightarrow> bytes go" where
  "echo_ip hdrLen ip = do {
     src \<leftarrow> IPv4_SourceAddress ip;
     dst \<leftarrow> IPv4_DestinationAddress ip;
     ip \<leftarrow> IPv4_SetSourceAddress ip dst;
     ip \<leftarrow> IPv4_SetDestinationAddress ip src;
     ip \<leftarrow> IPv4_SetTTL ip 64;
     ip \<leftarrow> IPv4_SetChecksum ip 0;
     nh \<leftarrow> subslice ip 0 hdrLen;
     IPv4_SetChecksum ip (Checksum nh 0) }"

definition echo_icmp :: "bytes \<Rightarrow> bytes go" where
  "echo_icmp icmp = do {
     icmp \<leftarrow> ICMPv4_SetType icmp ICMPv4EchoReply;
     icmp \<leftarrow> ICMPv4_SetChecksum icmp 0;
     ICMPv4_SetChecksum icmp (Checksum icmp 0) }"

text \<open>
  \<open>handleICMP\<close> with the network header at \<open>nh\<close> and the payload at \<open>dv\<close>. The reply is the slice that
  starts at the network header, extended over the payload.
\<close>

definition handleICMP :: "Stack \<Rightarrow> PacketBuffer \<Rightarrow> view \<Rightarrow> view \<Rightarrow> Stack go" where
  "handleICMP s pb nh dv =
     (if snd dv < ICMPv4HeaderSize then Some s
      else do {
        icmpData \<leftarrow> view_bytes pb dv;
        typ \<leftarrow> ICMPv4_Type icmpData;
        if typ \<noteq> ICMPv4Echo then Some s
        else do {
          pb \<leftarrow> update_view pb nh (echo_ip (snd nh));
          pb \<leftarrow> update_view pb dv echo_icmp;
          let totalLen = snd nh + snd dv;
          let s = countPacketOut totalLen s;
          pkt \<leftarrow> view_bytes pb (fst nh, totalLen);
          Some (s\<lparr>stk_wire := stk_wire s @ [(pkt, None)]\<rparr>) } })"

section \<open>The read loop\<close>

datatype verdict = Ignored | Handled | Unknown | Deliver TransportProtocolNumber PacketBuffer

definition dispatch :: "Stack \<Rightarrow> PacketBuffer \<Rightarrow> TransportProtocolNumber \<Rightarrow> (Stack \<times> verdict) go" where
  "dispatch s pb proto =
     (if proto = ICMPv4ProtocolNumber then do {
        nh \<leftarrow> pb_NetworkHeader pb;
        dv \<leftarrow> pb_Data pb;
        s \<leftarrow> handleICMP s pb nh dv;
        Some (s, Handled) }
      else if proto \<in> set (stk_handlers s) then Some (s, Deliver proto pb)
      else Some (stack_count (\<lambda>st. st\<lparr>st_UnknownProtocol := st_UnknownProtocol st + 1\<rparr>) s, Unknown))"

text \<open>The part of \<open>readLoop\<close> after the packet passed validation: \<open>raw\<close> is the packet, \<open>hdr\<close> its header, \<open>d\<close> its payload.\<close>

definition readLoop_accept :: "bytes \<Rightarrow> int \<Rightarrow> Stack \<Rightarrow> PacketBuffer \<Rightarrow> bytes \<Rightarrow> bytes \<Rightarrow> bytes \<Rightarrow> (Stack \<times> verdict) go" where
  "readLoop_accept arr' now s pb raw hdr d = do {
     mf \<leftarrow> IPv4_More raw;
     fo \<leftarrow> IPv4_FragmentOffset raw;
     if mf \<or> fo \<noteq> 0 then do {
       (fr, res) \<leftarrow> process arr' (stk_fragments s) now raw hdr d;
       let s = s\<lparr>stk_fragments := fr\<rparr>;
       case res of
         None \<Rightarrow> Some (s, Ignored)
       | Some pb \<Rightarrow> do {
           nh \<leftarrow> pb_NetworkHeader pb;
           ipHdr \<leftarrow> view_bytes pb nh;
           proto \<leftarrow> IPv4_Protocol ipHdr;
           dispatch s pb proto } }
     else do {
       proto \<leftarrow> IPv4_Protocol raw;
       dispatch s pb proto } }"

text \<open>
  One round of \<open>readLoop\<close> in which the channel delivers \<open>pkt\<close> at time \<open>now\<close>. \<open>arr\<close> is the array of the pooled
  buffer the packet is read into, \<open>arr'\<close> the one a reassembled datagram would go to.
\<close>

definition readLoop_round :: "bytes \<Rightarrow> bytes \<Rightarrow> int \<Rightarrow> Stack \<Rightarrow> bytes \<Rightarrow> (Stack \<times> verdict) go" where
  "readLoop_round arr arr' now s pkt = do {
     let pb = NewPacketBuffer arr 0;
     buf \<leftarrow> Buf pb;
     let n = min (length buf) (length pkt);
     let pb = pb\<lparr>pb_buf := overwrite (pb_buf pb) (pb_headroom pb) pkt\<rparr>;
     buf \<leftarrow> Buf pb;
     raw \<leftarrow> subslice buf 0 n;
     if length raw < IPv4MinHeaderSize then Some (s, Ignored)
     else do {
       hdrLen \<leftarrow> IPv4_HeaderLength raw;
       if hdrLen < IPv4MinHeaderSize \<or> hdrLen > length raw then Some (s, Ignored)
       else do {
         tl \<leftarrow> IPv4_TotalLength raw;
         let totalLen = unat tl;
         if totalLen < hdrLen \<or> totalLen > length raw then Some (s, Ignored)
         else do {
           raw \<leftarrow> subslice raw 0 totalLen;
           hdr \<leftarrow> subslice raw 0 hdrLen;
           if Checksum hdr 0 \<noteq> 0 then Some (s, Ignored)
           else do {
             let s = stack_count (\<lambda>st. st\<lparr>st_PacketsIn := st_PacketsIn st + 1,
                                       st_BytesIn := st_BytesIn st + of_nat totalLen\<rparr>) s;
             d \<leftarrow> slice_from raw hdrLen;
             let pb = pb\<lparr>pb_NetworkHeader := Some (pb_headroom pb, hdrLen),
                        pb_Data := Some (pb_headroom pb + hdrLen, totalLen - hdrLen)\<rparr>;
             readLoop_accept arr' now s pb raw hdr d } } } } }"

end
