(* ===== verification/StackProps.thy ===== *)
theory StackProps
  imports StackCore
begin

text \<open>
  What the network layer guarantees: the packets it sends are well formed, a packet sent by one stack is
  taken apart correctly by another, whether or not it was fragmented on the way, and echo requests are
  answered by correct echo replies.
\<close>

section \<open>Headers of sent packets\<close>

text \<open>The header with its checksum filled in.\<close>

definition ip_hdr :: "IPv4Fields \<Rightarrow> bytes" where
  "ip_hdr f = IPv4_wire (f\<lparr>ip_Checksum := Checksum (IPv4_wire f) 0\<rparr>)"

lemma length_ip_hdr [simp]: "length (ip_hdr f) = 20"
  by (simp add: ip_hdr_def)

lemma poke_IPv4_wire: "poke16 (IPv4_wire f) 10 c = IPv4_wire (f\<lparr>ip_Checksum := c\<rparr>)"
  by (simp add: poke16_def IPv4_wire_def Let_def)

lemma zero_checksum: "ip_Checksum f = 0 \<Longrightarrow> f\<lparr>ip_Checksum := 0\<rparr> = f"
  by simp

lemma encode_ip_wire: "length b = 20 \<Longrightarrow> ip_Checksum f = 0 \<Longrightarrow> encode_ip b f = Some (ip_hdr f)"
proof -
  assume b: "length b = 20" and f: "ip_Checksum f = 0"
  note zero = zero_checksum [OF f]
  have put: "put16 (IPv4_wire g) 10 c = Some (IPv4_wire (g\<lparr>ip_Checksum := c\<rparr>))" for g c
    using put16_append [of 10 "IPv4_wire g" "[]" c] by (simp add: poke_IPv4_wire)
  show ?thesis
    using b by (simp add: encode_ip_def IPv4_Encode_wire IPv4_SetChecksum_def put zero ip_hdr_def del: put16_Some)
qed

lemma ip_hdr_checksum:
  assumes "ip_Checksum f = 0"
  shows "Checksum (ip_hdr f) 0 = 0"
proof -
  have "IPv4_wire f ! 10 = 0" "IPv4_wire f ! (10 + 1) = 0"
    using assms by (simp_all add: IPv4_wire_def Let_def)
  from Checksum_fill [OF _ _ _ this, of 0] show ?thesis
    by (simp add: poke16_def [symmetric] poke_IPv4_wire ip_hdr_def del: put16_Some)
       (simp add: poke16_def poke_IPv4_wire [symmetric])
qed

lemma ip_hdr_get:
  assumes "IPv4_valid f"
  shows "IPv4_HeaderLength (ip_hdr f @ r) = Some 20" "IPv4_TotalLength (ip_hdr f @ r) = Some (ip_TotalLength f)"
    "IPv4_Protocol (ip_hdr f @ r) = Some (ip_Protocol f)" "IPv4_SourceAddress (ip_hdr f @ r) = Some (ip_SrcAddr f)"
    "IPv4_DestinationAddress (ip_hdr f @ r) = Some (ip_DstAddr f)" "IPv4_Flags (ip_hdr f @ r) = Some (ip_Flags f)"
    "IPv4_FragmentOffset (ip_hdr f @ r) = Some (ip_FragmentOffset f)" "IPv4_ID (ip_hdr f @ r) = Some (ip_ID f)"
  using assms by (simp_all add: ip_hdr_def IPv4_get_defs IPv4_wire_def To4_def Let_def flags_of_word offset_of_word
      IPv4_valid_def)

lemma send_fields_valid [simp]: "IPv4_valid (send_fields n i ttl p a b)" "ip_Checksum (send_fields n i ttl p a b) = 0"
  "ip_TotalLength (send_fields n i ttl p a b) = n" "ip_Protocol (send_fields n i ttl p a b) = p"
  "ip_SrcAddr (send_fields n i ttl p a b) = a" "ip_DstAddr (send_fields n i ttl p a b) = b"
  "ip_Flags (send_fields n i ttl p a b) = 0" "ip_FragmentOffset (send_fields n i ttl p a b) = 0"
  "ip_ID (send_fields n i ttl p a b) = i"
  by (simp_all add: send_fields_def IPv4_valid_def)

section \<open>Sending\<close>

abbreviation sent_fields :: "Stack \<Rightarrow> nat \<Rightarrow> TransportProtocolNumber \<Rightarrow> Address \<Rightarrow> Address \<Rightarrow> IPv4Fields" where
  "sent_fields s n proto src dst \<equiv> send_fields (of_nat n) (fst (nextIPv4ID s)) (stk_ttl s) proto src dst"

lemma nextIPv4ID_ttl [simp]: "stk_ttl (snd (nextIPv4ID s)) = stk_ttl s"
  by (simp add: nextIPv4ID_def)

lemma AsSlice_buf_length:
  assumes "length buf = length (pb_buf pb)" and "AsSlice (pb\<lparr>pb_buf := buf\<rparr>) = Some b"
  obtains b1 where "AsSlice pb = Some b1" "length b1 = length b"
proof -
  have "\<exists>b1. subslice (pb_buf pb) i j = Some b1 \<and> length b1 = length b" if "subslice buf i j = Some b" for i j
    using that assms(1) length_subslice [OF that] by (auto simp: subslice_eq_Some_iff)
  with assms(2) show thesis
    using that by (cases "pb_Data pb") (auto simp: AsSlice_def Let_def split: if_splits)
qed

lemma SendPacket_spec:
  assumes wf: "pb_wf pb" "AsSlice pb = Some b" "pb_consumed pb + 20 \<le> pb_headroom pb"
  shows "20 + length b \<le> 0xffff \<Longrightarrow> \<exists>pb'. SendPacket pick s pb src dst proto =
      Some (enqueue pick (snd (nextIPv4ID s)) (NormalItem pb')) \<and>
      AsSlice pb' = Some (ip_hdr (sent_fields s (20 + length b) proto src dst) @ b)"
    and "20 + length b > 0xffff \<Longrightarrow> SendPacket pick s pb src dst proto = Some (Returns (stack_count dropped_out s))"
proof -
  let ?f = "sent_fields s (20 + length b) proto src dst"
  have "pb_consumed pb + length (ip_hdr ?f) \<le> pb_headroom pb"
    using wf(3) by simp
  from Prepend_write [OF wf(1,2) this]
  obtain pb1 v pb2 where p: "Prepend pb 20 = Some (pb1, v)" "snd v = 20" "fst v + 20 \<le> length (pb_buf pb1)"
      "write_at pb1 (fst v) (ip_hdr ?f) = Some pb2" "AsSlice pb2 = Some (ip_hdr ?f @ b)"
    by (metis length_ip_hdr snd_conv)
  have "pb2 = pb1\<lparr>pb_buf := pb_buf pb2\<rparr>" "length (pb_buf pb2) = length (pb_buf pb1)"
    using p(3,4) by (auto simp: write_at_def bind_Some_iff)
  with p(5) obtain b1 where len: "AsSlice pb1 = Some b1" "length b1 = 20 + length b"
    using AsSlice_buf_length [of "pb_buf pb2" pb1] by (metis length_append length_ip_hdr)
  obtain ipS where ipS: "view_bytes pb1 v = Some ipS" "length ipS = 20"
    using p(2,3) by (simp add: view_bytes_def)
  show "20 + length b \<le> 0xffff \<Longrightarrow> \<exists>pb'. SendPacket pick s pb src dst proto =
      Some (enqueue pick (snd (nextIPv4ID s)) (NormalItem pb')) \<and>
      AsSlice pb' = Some (ip_hdr ?f @ b)"
  proof -
    assume small: "20 + length b \<le> 0xffff"
    let ?pb = "pb2\<lparr>pb_NetworkHeader := Some v\<rparr>"
    have "AsSlice ?pb = AsSlice pb2"
      by (simp add: AsSlice_def split: option.split)
    moreover have "SendPacket pick s pb src dst proto = Some (enqueue pick (snd (nextIPv4ID s)) (NormalItem ?pb))"
      using p(1,4) len ipS small encode_ip_wire [OF ipS(2), of ?f]
      by (auto simp: SendPacket_def IPv4MinHeaderSize_def split_beta)
    ultimately show ?thesis
      using p(5) by auto
  qed
  show "20 + length b > 0xffff \<Longrightarrow> SendPacket pick s pb src dst proto = Some (Returns (stack_count dropped_out s))"
    using p(1) len by (auto simp: SendPacket_def IPv4MinHeaderSize_def)
qed

section \<open>Receiving\<close>

abbreviation counted_in :: "nat \<Rightarrow> Stack \<Rightarrow> Stack" where
  "counted_in n \<equiv> stack_count (\<lambda>st. st\<lparr>st_PacketsIn := st_PacketsIn st + 1, st_BytesIn := st_BytesIn st + of_nat n\<rparr>)"

lemma get_append:
  assumes "20 \<le> length h"
  shows "IPv4_HeaderLength (h @ d) = IPv4_HeaderLength h" "IPv4_TotalLength (h @ d) = IPv4_TotalLength h"
    "IPv4_More (h @ d) = IPv4_More h" "IPv4_FragmentOffset (h @ d) = IPv4_FragmentOffset h"
    "IPv4_Protocol (h @ d) = IPv4_Protocol h" "IPv4_SourceAddress (h @ d) = IPv4_SourceAddress h"
    "IPv4_DestinationAddress (h @ d) = IPv4_DestinationAddress h"
  using assms by (cases h; simp add: IPv4_get_defs nth_append index_def get16_def get32_def)+

text \<open>A header that \<open>readLoop\<close> accepts in front of the payload \<open>d\<close>.\<close>

definition good_header :: "bytes \<Rightarrow> bytes \<Rightarrow> bool" where
  "good_header h d \<longleftrightarrow> 20 \<le> length h \<and> IPv4_HeaderLength h = Some (length h) \<and>
     map_option unat (IPv4_TotalLength h) = Some (length h + length d) \<and> Checksum h 0 = 0"

lemma readLoop_round_good:
  assumes h: "good_header h d" and fit: "length h + length d \<le> length arr"
  obtains pb where "pb_packet pb h d"
    "readLoop_round arr arr' now s (h @ d) =
       readLoop_accept arr' now (counted_in (length h + length d) s) pb (h @ d) h d"
proof -
  let ?b = "overwrite arr 0 (h @ d)"
  let ?pb = "(NewPacketBuffer arr 0)\<lparr>pb_buf := ?b, pb_NetworkHeader := Some (0, length h),
      pb_Data := Some (length h, length d)\<rparr>"
  have b: "pb_buf (NewPacketBuffer arr 0) = arr"
    by (simp add: NewPacketBuffer_def ensureCapacity_def pb_reset_def pooled_def)
  have ow: "?b = h @ d @ drop (length h + length d) arr"
    using fit by (subst overwrite_fits) auto
  obtain n where n: "IPv4_TotalLength h = Some n" "unat n = length h + length d"
    using h by (auto simp: good_header_def)
  have g: "20 \<le> length h" "IPv4_HeaderLength h = Some (length h)" "Checksum h 0 = 0"
    using h by (auto simp: good_header_def)
  have "pb_packet ?pb h d"
    by (simp add: pb_packet_def ow)
  moreover have "readLoop_round arr arr' now s (h @ d) =
       readLoop_accept arr' now (counted_in (length h + length d) s) ?pb (h @ d) h d"
    using fit g n
    by (simp add: readLoop_round_def Buf_def b ow IPv4MinHeaderSize_def get_append Let_def)
  ultimately show thesis
    by (rule that)
qed

text \<open>Packets taken from the link one after the other.\<close>

fun read_all :: "Stack \<Rightarrow> (bytes \<times> bytes \<times> int \<times> bytes) list \<Rightarrow> (Stack \<times> verdict list) go" where
  "read_all s [] = Some (s, [])"
| "read_all s ((arr, arr', now, pkt) # ins) = do {
     (s, v) \<leftarrow> readLoop_round arr arr' now s pkt;
     (s, vs) \<leftarrow> read_all s ins;
     Some (s, v # vs) }"

lemma readLoop_deliver:
  assumes "good_header h d" "length h + length d \<le> length arr"
    and "IPv4_More h = Some False" "IPv4_FragmentOffset h = Some 0" "IPv4_Protocol h = Some proto"
    and "proto \<noteq> ICMPv4ProtocolNumber" "proto \<in> set (stk_handlers s)"
  shows "\<exists>pb. pb_packet pb h d \<and>
    readLoop_round arr arr' now s (h @ d) = Some (counted_in (length h + length d) s, Deliver proto pb)"
proof -
  have "20 \<le> length h"
    using assms(1) by (simp add: good_header_def)
  with assms(3-7) have acc: "readLoop_accept arr' now (counted_in (length h + length d) s) pb (h @ d) h d =
      Some (counted_in (length h + length d) s, Deliver proto pb)" for pb
    by (simp add: readLoop_accept_def get_append dispatch_def stack_count_def)
  show ?thesis
    by (rule readLoop_round_good [OF assms(1,2), of arr' now s]) (auto simp only: acc)
qed

text \<open>A fragment goes to the reassembler and nowhere else, until it completes its datagram.\<close>

lemma readLoop_fragment:
  assumes "good_header h d" "length h + length d \<le> length arr"
    and "IPv4_More h = Some mf" "IPv4_FragmentOffset h = Some fo" "mf \<or> fo \<noteq> 0"
    and "process arr' (stk_fragments s) now (h @ d) h d = Some (fr, res)"
  shows "readLoop_round arr arr' now s (h @ d) =
    (let s = (counted_in (length h + length d) s)\<lparr>stk_fragments := fr\<rparr> in
     case res of None \<Rightarrow> Some (s, Ignored)
     | Some pb \<Rightarrow> do { nh \<leftarrow> pb_NetworkHeader pb; ipHdr \<leftarrow> view_bytes pb nh; proto \<leftarrow> IPv4_Protocol ipHdr;
         dispatch s pb proto })"
proof -
  have "20 \<le> length h"
    using assms(1) by (simp add: good_header_def)
  obtain pb where "readLoop_round arr arr' now s (h @ d) =
       readLoop_accept arr' now (counted_in (length h + length d) s) pb (h @ d) h d"
    by (rule readLoop_round_good [OF assms(1,2), of arr' now s]) (rule that)
  with assms \<open>20 \<le> length h\<close> show ?thesis
    by (auto simp: readLoop_accept_def get_append stack_count_def Let_def)
qed

lemma dispatch_packet:
  assumes "pb_packet pb h d" "IPv4_Protocol h = Some proto" "proto \<noteq> ICMPv4ProtocolNumber" "proto \<in> set (stk_handlers s)"
  shows "do { nh \<leftarrow> pb_NetworkHeader pb; ipHdr \<leftarrow> view_bytes pb nh; proto \<leftarrow> IPv4_Protocol ipHdr; dispatch s pb proto } =
    Some (s, Deliver proto pb)"
proof -
  have len: "length h + length d \<le> length (pb_buf pb)"
    using assms(1) arg_cong [of _ _ length] by (fastforce simp: pb_packet_def)
  have eq: "take (length h + length d) (pb_buf pb) = h @ d"
    using assms(1) by (simp add: pb_packet_def)
  have "take (length h) (pb_buf pb) = take (length h) (take (length h + length d) (pb_buf pb))"
    by (simp add: min_def)
  then have "take (length h) (pb_buf pb) = h"
    by (simp only: eq) simp
  with len have "view_bytes pb (0, length h) = Some h"
    by (simp add: view_bytes_def)
  with assms show ?thesis
    by (simp add: pb_packet_def dispatch_def)
qed

text \<open>
  If the reassembler answers \<open>nil\<close> to all of a sequence of fragments but the last and a packet to that one,
  the read loop delivers that packet and nothing else.
\<close>

definition frag_input :: "bytes \<times> bytes \<times> int \<times> bytes \<Rightarrow> bool" where
  "frag_input x \<longleftrightarrow> (case x of (arr, arr', now, raw) \<Rightarrow> \<exists>h d mf fo. raw = h @ d \<and> good_header h d \<and>
     length raw \<le> length arr \<and> IPv4_More h = Some mf \<and> IPv4_FragmentOffset h = Some fo \<and> (mf \<or> fo \<noteq> 0))"

lemma read_all_fragments:
  assumes "process_all (stk_fragments s) (map snd ins) = Some (fr, replicate (length ins - 1) None @ [Some pb])"
    and "ins \<noteq> []"
    and "list_all frag_input ins"
    and "pb_packet pb h d" "IPv4_Protocol h = Some proto" "proto \<noteq> ICMPv4ProtocolNumber" "proto \<in> set (stk_handlers s)"
  shows "\<exists>s'. read_all s ins = Some (s', replicate (length ins - 1) Ignored @ [Deliver proto pb]) \<and> stk_fragments s' = fr"
  using assms
proof (induction ins arbitrary: s)
  case (Cons x ins)
  obtain arr arr' now raw where x: "x = (arr, arr', now, raw)"
    by (cases x)
  obtain h' d' mf fo where hd: "raw = h' @ d'" "good_header h' d'" "length h' + length d' \<le> length arr"
      "IPv4_More h' = Some mf" "IPv4_FragmentOffset h' = Some fo" "mf \<or> fo \<noteq> 0"
    using Cons.prems(3) x by (auto simp: frag_input_def)
  then have hl: "IPv4_HeaderLength raw = Some (length h')"
    by (simp add: good_header_def get_append)
  obtain r1 o1 os where step: "process arr' (stk_fragments s) now (h' @ d') h' d' = Some (r1, o1)"
      "process_all r1 (map snd ins) = Some (fr, os)" "replicate (length ins) None @ [Some pb] = o1 # os"
    using Cons.prems(1) x hl hd(1) by (auto simp: bind_Some_iff)
  let ?s = "(counted_in (length h' + length d') s)\<lparr>stk_fragments := r1\<rparr>"
  note rd = readLoop_fragment [OF hd(2-6) step(1)]
  show ?case
  proof (cases ins)
    case Nil
    then have "o1 = Some pb" "os = []" "r1 = fr"
      using step by auto
    moreover have "proto \<in> set (stk_handlers ?s)"
      using Cons.prems(7) by (simp add: stack_count_def)
    ultimately have "readLoop_round arr arr' now s raw = Some (?s, Deliver proto pb)"
      using rd dispatch_packet [OF Cons.prems(4,5,6), of ?s] hd(1) by (simp add: Let_def)
    with Nil x \<open>r1 = fr\<close> show ?thesis
      by simp
  next
    case ins: (Cons y ys)
    then have o1: "o1 = None" "os = replicate (length ins - 1) None @ [Some pb]"
      using step(3) by auto
    then have rd': "readLoop_round arr arr' now s raw = Some (?s, Ignored)"
      using rd hd(1) by (simp add: Let_def)
    have "\<exists>s'. read_all ?s ins = Some (s', replicate (length ins - 1) Ignored @ [Deliver proto pb]) \<and> stk_fragments s' = fr"
    proof (rule Cons.IH)
      show "process_all (stk_fragments ?s) (map snd ins) = Some (fr, replicate (length ins - 1) None @ [Some pb])"
        using step(2) o1 by simp
      show "ins \<noteq> []" using ins by simp
      show "proto \<in> set (stk_handlers ?s)"
        using Cons.prems(7) by (simp add: stack_count_def)
    qed (use Cons.prems in auto)
    then obtain s' where "read_all ?s ins = Some (s', replicate (length ins - 1) Ignored @ [Deliver proto pb])"
        "stk_fragments s' = fr"
      by blast
    moreover have "replicate (length (x # ins) - 1) Ignored = Ignored # replicate (length ins - 1) Ignored"
      using ins by simp
    ultimately show ?thesis
      using x rd' by simp
  qed
qed simp

section \<open>From one stack to another\<close>

definition flow_key :: "IPv4Fields \<Rightarrow> ipv4FragmentKey" where
  "flow_key f = \<lparr>fk_src = ip_SrcAddr f, fk_dst = ip_DstAddr f, fk_id = ip_ID f, fk_proto = ip_Protocol f\<rparr>"

text \<open>A stack that can take the datagram: a handler for its protocol, and room in an idle reassembler.\<close>

definition ready_for :: "Stack \<Rightarrow> IPv4Fields \<Rightarrow> nat \<Rightarrow> bool" where
  "ready_for s f n \<longleftrightarrow> ip_Protocol f \<noteq> ICMPv4ProtocolNumber \<and> ip_Protocol f \<in> set (stk_handlers s) \<and>
     rs_inv (stk_fragments s) \<and> map_of (rs_sets (stk_fragments s)) (flow_key f) = None \<and>
     rs_mem (stk_fragments s) + int n \<le> ipv4ReassemblyHighThreshold"

text \<open>The packets \<open>ws\<close> arrive in any order between \<open>t0\<close> and the reassembly timeout, into buffers from the pool.\<close>

definition arrives :: "bytes list \<Rightarrow> int \<Rightarrow> Stack \<Rightarrow> (bytes \<times> bytes \<times> int \<times> bytes) list \<Rightarrow> bool" where
  "arrives ws t0 s ins \<longleftrightarrow> mset (map (snd \<circ> snd \<circ> snd) ins) = mset ws \<and>
     list_all (\<lambda>(arr, arr', now, raw). 1500 \<le> length arr \<and> t0 \<le> now \<and> now \<le> t0 + rs_timeout (stk_fragments s)) ins"

lemma ip_hdr_key: "IPv4_valid f \<Longrightarrow> fragment_key (ip_hdr f) = Some (flow_key f)"
  using ip_hdr_get [of f "[]"] by (simp add: fragment_key_def flow_key_def)

lemma ip_hdr_good:
  assumes "IPv4_valid f" "ip_Checksum f = 0" "unat (ip_TotalLength f) = 20 + length b"
  shows "good_header (ip_hdr f) b"
  using assms ip_hdr_get [of f "[]"] by (simp add: good_header_def ip_hdr_checksum)

lemma of_nat_unat_eq: "unat w = n \<Longrightarrow> of_nat n = w"
  by auto

lemma be16_0: "be16 0 0 = 0"
  by (simp add: be16_def)

lemma rehdr_ip_hdr:
  assumes "ip_Flags f = 0" "ip_FragmentOffset f = 0" "ip_Checksum f = 0"
  shows "rehdr (ip_hdr f) (ip_TotalLength f) 0 = ip_hdr f"
proof (rule rehdr_fixed)
  show "get16 (ip_hdr f) 2 = Some (ip_TotalLength f)" "get16 (ip_hdr f) 6 = Some 0"
    using assms by (simp_all add: ip_hdr_def IPv4_wire_def To4_def flagsFrag_def Let_def be16_0)
  have "poke16 (ip_hdr f) 10 0 = IPv4_wire f"
    using zero_checksum [OF assms(3)] by (simp add: ip_hdr_def poke_IPv4_wire)
  then show "get16 (ip_hdr f) 10 = Some (Checksum (poke16 (ip_hdr f) 10 0) 0)"
    by (simp add: ip_hdr_def) (simp add: IPv4_wire_def Let_def To4_def)
qed

lemma piece_frag_input:
  assumes h: "20 \<le> length h" "IPv4_HeaderLength h = Some (length h)" "length h \<le> 60"
    and p: "aligned m tot p" "fst p + length (snd p) \<le> tot" "snd p \<noteq> []" "tot \<le> ipv4MaxPayloadSize"
    and cut: "m < tot" "length h + m \<le> length arr" "length h + m < 65536"
  shows "frag_input (arr, arr', now, piece_wire h 0 tot p)"
proof -
  note g = piece_hdr_get [OF h(1) _ p, of 0 "[]", simplified]
  have le: "length h + length (snd p) \<le> length arr"
    using p(1) cut(2) by (simp add: aligned_def)
  obtain fo where fo: "IPv4_FragmentOffset (piece_hdr h 0 tot p) = Some fo" "unat fo * 8 = fst p"
    using g(2) by blast
  have "good_header (piece_hdr h 0 tot p) (snd p)"
    using g(3,5) h p(1) cut(3) by (simp add: good_header_def aligned_def) (simp add: piece_hdr_def rehdr_valid)
  moreover have "fst p + length (snd p) < tot \<or> fo \<noteq> 0"
    using p(1,2) cut(1) fo(2) by (auto simp: aligned_def)
  ultimately show ?thesis
    using g(1) fo(1) le unfolding frag_input_def piece_wire_split by auto
qed

lemma fold_write:
  "map fst (stk_wire (fold (\<lambda>frag s. writeWirePacket s frag) ws s)) = map fst (stk_wire s) @ ws"
  by (induction ws arbitrary: s) (simp_all add: writeWirePacket_def countPacketOut_def stack_count_def Let_def)

text \<open>The packets the write loop puts on the wire for a datagram, and what becomes of them at the other end.\<close>

lemma writePacket_transfer:
  assumes f: "IPv4_valid f" "ip_Checksum f = 0" "ip_Flags f = 0" "ip_FragmentOffset f = 0"
      "unat (ip_TotalLength f) = 20 + length b"
    and mtu: "28 \<le> stk_mtu s" "stk_mtu s \<le> 1500"
  obtains s' ws where "writePacket s (ip_hdr f @ b) = Some s'" "map fst (stk_wire s') = map fst (stk_wire s) @ ws"
    "ws \<noteq> []" "list_all (\<lambda>w. int (length w) \<le> stk_mtu s) ws"
    "\<And>B t0 ins. ready_for B f (length b) \<Longrightarrow> arrives ws t0 B ins \<Longrightarrow>
      \<exists>B' pb. read_all B ins = Some (B', replicate (length ws - 1) Ignored @ [Deliver (ip_Protocol f) pb]) \<and>
        pb_packet pb (ip_hdr f) b"
proof (cases "int (20 + length b) \<le> stk_mtu s")
  case True
  let ?w = "ip_hdr f @ b"
  have "\<exists>B' pb. read_all B ins = Some (B', replicate (length [?w] - 1) Ignored @ [Deliver (ip_Protocol f) pb]) \<and>
        pb_packet pb (ip_hdr f) b" if B: "ready_for B f (length b)" "arrives [?w] t0 B ins" for B t0 ins
  proof -
    obtain arr arr' now where ins: "ins = [(arr, arr', now, ?w)]" "1500 \<le> length arr"
      using B(2) by (auto simp: arrives_def mset_single_iff map_eq_Cons_conv simp del: mset_map)
    have get: "IPv4_More (ip_hdr f) = Some False" "IPv4_FragmentOffset (ip_hdr f) = Some 0"
        "IPv4_Protocol (ip_hdr f) = Some (ip_Protocol f)"
      using ip_hdr_get [OF f(1), of "[]"] f(3,4) by (simp_all add: IPv4_More_def)
    have "length (ip_hdr f) + length b \<le> length arr"
      using True mtu(2) ins(2) by simp
    from readLoop_deliver [OF ip_hdr_good [OF f(1,2,5)] this get, of B arr' now] B(1)
    obtain pb B' where "pb_packet pb (ip_hdr f) b" "readLoop_round arr arr' now B ?w = Some (B', Deliver (ip_Protocol f) pb)"
      by (auto simp: ready_for_def)
    then show ?thesis
      by (simp add: ins)
  qed
  with True show thesis
    by (intro that [of "writeWirePacket s ?w" "[?w]"])
       (simp_all add: writePacket_def writeWirePacket_def countPacketOut_def stack_count_def Let_def)
next
  case False
  let ?h = "ip_hdr f" and ?tot = "length b"
  have h: "20 \<le> length ?h" "IPv4_HeaderLength ?h = Some (length ?h)" "IPv4_Flags ?h = Some 0"
      "IPv4_TotalLength ?h = Some (ip_TotalLength f)" "unat (ip_TotalLength f) = length ?h + length b"
      "stk_mtu s < int (length ?h + length b)" "int (length ?h) + 8 \<le> stk_mtu s"
    using ip_hdr_get [OF f(1), of "[]"] f(3,5) False mtu(1) by simp_all
  from fragmentIPv4Packet_cut [OF h(1-3) _ h(4-7)]
  obtain ps m where ps: "fragmentIPv4Packet (?h @ b) (stk_mtu s) = Some (Some (map (piece_wire ?h 0 ?tot) ps))"
      "contig 0 ps ?tot" "concat (map snd ps) = b" "list_all (aligned m ?tot) ps" "int (20 + m) \<le> stk_mtu s" "ps \<noteq> []"
    by auto
  let ?ws = "map (piece_wire ?h 0 ?tot) ps"
  have tot: "?tot \<le> ipv4MaxPayloadSize" and fill: "rehdr ?h (of_nat (length ?h + ?tot)) 0 = ?h"
  proof -
    show "?tot \<le> ipv4MaxPayloadSize"
      using f(5) unat_u16_less [of "ip_TotalLength f"] by (simp add: ipv4MaxPayloadSize_def IPv4MinHeaderSize_def)
    have "of_nat (length ?h + ?tot) = ip_TotalLength f"
      using of_nat_unat_eq [OF h(5)] .
    then show "rehdr ?h (of_nat (length ?h + ?tot)) 0 = ?h"
      by (simp only: rehdr_ip_hdr [OF f(3,4,2)])
  qed
  have "\<exists>B' pb. read_all B ins = Some (B', replicate (length ?ws - 1) Ignored @ [Deliver (ip_Protocol f) pb]) \<and>
        pb_packet pb ?h b" if B: "ready_for B f (length b)" "arrives ?ws t0 B ins" for B t0 ins
  proof -
    have r: "ip_Protocol f \<noteq> ICMPv4ProtocolNumber" "ip_Protocol f \<in> set (stk_handlers B)" "rs_inv (stk_fragments B)"
        "map_of (rs_sets (stk_fragments B)) (flow_key f) = None"
        "rs_mem (stk_fragments B) + int ?tot \<le> ipv4ReassemblyHighThreshold"
      using B(1) by (auto simp: ready_for_def)
    have perm: "mset (map (snd \<circ> snd) (map snd ins)) = mset ?ws"
      using B(2) by (simp add: arrives_def comp_def)
    have t: "t0 \<le> now \<and> now \<le> t0 + rs_timeout (stk_fragments B)" if "(arr, now, raw) \<in> set (map snd ins)" for arr now raw
      using that B(2) by (auto simp: arrives_def list_all_iff)
    have "\<exists>r' pb. process_all (stk_fragments B) (map snd ins) = Some (r', replicate (length ps - 1) None @ [Some pb]) \<and>
        rs_inv r' \<and> map_of (rs_sets r') (flow_key f) = None \<and>
        pb_packet pb (rehdr ?h (of_nat (length ?h + ?tot)) 0) (concat (map snd ps))"
      by (rule process_all_permuted [OF ps(2,4,6) tot h(1) ip_hdr_key [OF f(1)] h(2) perm r(3-5)]) (rule t)
    then obtain fr pb where fr: "pb_packet pb ?h b"
        "process_all (stk_fragments B) (map snd ins) = Some (fr, replicate (length ps - 1) None @ [Some pb])"
      unfolding fill ps(3) by blast
    have len: "length ins = length ps"
      using perm by (metis length_map mset_eq_length)
    have "frag_input x" if x: "x \<in> set ins" for x
    proof -
      obtain arr arr' now raw where xs: "x = (arr, arr', now, raw)" by (cases x)
      have "raw \<in> set (map (snd \<circ> snd) (map snd ins))"
        using x xs by force
      then obtain p where p: "p \<in> set ps" "raw = piece_wire ?h 0 ?tot p"
        unfolding mset_eq_setD [OF perm] by auto
      have "1500 \<le> length arr"
        using B(2) x xs by (auto simp: arrives_def list_all_iff)
      then show ?thesis
        unfolding xs p(2) using contig_bounds [OF ps(2) p(1)] ps(4,5) p(1) h(1,2) tot mtu False
        by (intro piece_frag_input [where m = m]) (auto simp: list_all_iff)
    qed
    then have "list_all frag_input ins"
      by (simp add: list_all_iff)
    moreover have "ins \<noteq> []"
      using len ps(6) by auto
    ultimately show ?thesis
      using fr len r(1,2) ip_hdr_get(3) [OF f(1), of "[]"]
        read_all_fragments [of B ins fr pb ?h b "ip_Protocol f"] by auto
  qed
  with ps False mtu show thesis
    by (intro that [of "fold (\<lambda>frag s. writeWirePacket s frag) ?ws s" ?ws])
       (auto simp: writePacket_def fold_write list_all_iff piece_wire_def aligned_def)
qed

lemma stack_transfer:
  fixes src dst :: Address and proto :: TransportProtocolNumber
  assumes pb: "pb_wf pb" "AsSlice pb = Some b" "pb_consumed pb + 20 \<le> pb_headroom pb" "20 + length b \<le> 0xffff"
    and s: "28 \<le> stk_mtu s" "stk_mtu s \<le> 1500" "stk_outboundCh s = []" "0 < stk_outboundCap s" "\<not> stk_done s"
  defines "f \<equiv> sent_fields s (20 + length b) proto src dst"
  shows "\<exists>s1 s2 ws. SendPacket pick s pb src dst proto = Some (Returns s1) \<and>
    writeLoop_round pick' s1 = Some (Returns (Some s2)) \<and>
    map fst (stk_wire s2) = map fst (stk_wire s) @ ws \<and> ws \<noteq> [] \<and> list_all (\<lambda>w. int (length w) \<le> stk_mtu s) ws \<and>
    (\<forall>B t0 ins. ready_for B f (length b) \<longrightarrow> arrives ws t0 B ins \<longrightarrow>
      (\<exists>B' pb'. read_all B ins = Some (B', replicate (length ws - 1) Ignored @ [Deliver proto pb']) \<and>
        pb_packet pb' (ip_hdr f) b))"
proof -
  obtain pb1 where pb1: "SendPacket pick s pb src dst proto = Some (enqueue pick (snd (nextIPv4ID s)) (NormalItem pb1))"
      "AsSlice pb1 = Some (ip_hdr f @ b)"
    using SendPacket_spec(1) [OF pb(1-4), of pick s src dst proto] by (auto simp: f_def)
  let ?s0 = "snd (nextIPv4ID s)"
  let ?s1 = "?s0\<lparr>stk_outboundCh := [NormalItem pb1]\<rparr>"
  have enq: "enqueue pick ?s0 (NormalItem pb1) = Returns ?s1"
    using s by (simp add: enqueue_def select2_def nextIPv4ID_def)
  have f: "IPv4_valid f" "ip_Checksum f = 0" "ip_Flags f = 0" "ip_FragmentOffset f = 0"
      "unat (ip_TotalLength f) = 20 + length b" "ip_Protocol f = proto"
    using pb(4) unat_of_nat_u16 [of "20 + length b"] by (simp_all add: f_def del: of_nat_add)
  have s': "28 \<le> stk_mtu ?s0" "stk_mtu ?s0 \<le> 1500" "stk_mtu ?s0 = stk_mtu s" "stk_wire ?s0 = stk_wire s"
      "?s0\<lparr>stk_outboundCh := []\<rparr> = ?s0" "\<not> stk_done ?s0"
    using s by (simp_all add: nextIPv4ID_def)
  show ?thesis
  proof (rule writePacket_transfer [OF f(1-5) s'(1,2)])
    fix s2 ws
    assume w: "writePacket ?s0 (ip_hdr f @ b) = Some s2" "map fst (stk_wire s2) = map fst (stk_wire ?s0) @ ws"
      "ws \<noteq> []" "list_all (\<lambda>w. int (length w) \<le> stk_mtu ?s0) ws"
      and rd: "\<And>B t0 ins. ready_for B f (length b) \<Longrightarrow> arrives ws t0 B ins \<Longrightarrow>
        \<exists>B' pb. read_all B ins = Some (B', replicate (length ws - 1) Ignored @ [Deliver (ip_Protocol f) pb]) \<and>
          pb_packet pb (ip_hdr f) b"
    have "writeLoop_round pick' ?s1 = Some (Returns (Some s2))"
      using w(1) pb1(2) s' by (simp add: writeLoop_round_def select2_def)
    with w rd pb1(1) enq s'(3,4) f(6) show ?thesis
      by (intro exI [of _ ?s1] exI [of _ s2] exI [of _ ws]) simp
  qed
qed

section \<open>Echo replies\<close>

text \<open>The header and the message of the reply to an echo request.\<close>

definition reply_header :: "bytes \<Rightarrow> bytes \<Rightarrow> bool" where
  "reply_header h h' \<longleftrightarrow> length h' = length h \<and>
     IPv4_SourceAddress h' = IPv4_DestinationAddress h \<and> IPv4_DestinationAddress h' = IPv4_SourceAddress h \<and>
     IPv4_TTL h' = Some 64 \<and> IPv4_TotalLength h' = IPv4_TotalLength h \<and> IPv4_Protocol h' = IPv4_Protocol h \<and>
     take 8 h' = take 8 h \<and> drop 20 h' = drop 20 h \<and> Checksum h' 0 = 0"

definition reply_message :: "bytes \<Rightarrow> bytes \<Rightarrow> bool" where
  "reply_message d d' \<longleftrightarrow> length d' = length d \<and> ICMPv4_Type d' = Some ICMPv4EchoReply \<and> ICMPv4_Code d' = ICMPv4_Code d \<and>
     ICMPv4_Ident d' = ICMPv4_Ident d \<and> ICMPv4_Sequence d' = ICMPv4_Sequence d \<and> ICMPv4_Payload d' = ICMPv4_Payload d \<and>
     Checksum d' 0 = 0"

lemma echo_ip_reply:
  assumes "20 \<le> length h" "length h < 65536"
  shows "\<exists>h'. echo_ip (length h) h = Some h' \<and> reply_header h h'"
proof -
  obtain x0 x1 x2 x3 x4 x5 x6 x7 x8 x9 x10 x11 x12 x13 x14 x15 x16 x17 x18 x19 r where
    h: "h = x0 # x1 # x2 # x3 # x4 # x5 # x6 # x7 # x8 # x9 # x10 # x11 # x12 # x13 # x14 # x15 # x16 # x17 # x18 # x19 # r"
    using assms(1) by (auto simp: numeral_le_length_iff Suc_le_length_iff)
  let ?z = "x0 # x1 # x2 # x3 # x4 # x5 # x6 # x7 # 64 # x9 # 0 # 0 # x16 # x17 # x18 # x19 # x12 # x13 # x14 # x15 # r"
  have "length ?z \<le> 131068"
    using assms(2) h by simp
  from Checksum_fill [of 10 ?z, OF _ _ this, of 0] h show ?thesis
    by (simp add: echo_ip_def IPv4_get_defs IPv4_set_defs reply_header_def)
qed

lemma echo_icmp_reply:
  assumes "8 \<le> length d" "length d < 65536"
  shows "\<exists>d'. echo_icmp d = Some d' \<and> reply_message d d'"
proof -
  obtain x0 x1 x2 x3 x4 x5 x6 x7 r where d: "d = x0 # x1 # x2 # x3 # x4 # x5 # x6 # x7 # r"
    using assms(1) by (auto simp: numeral_le_length_iff Suc_le_length_iff)
  let ?z = "0 # x1 # 0 # 0 # x4 # x5 # x6 # x7 # r"
  have "length ?z \<le> 131068"
    using assms(2) d by simp
  from Checksum_fill [of 2 ?z, OF _ _ this, of 0] d show ?thesis
    by (simp add: echo_icmp_def ICMPv4_get_defs ICMPv4_SetType_def ICMPv4_SetChecksum_def reply_message_def ICMPv4EchoReply_def
        ICMPv4_Payload_def ICMPv4HeaderSize_def)
qed

lemma handleICMP_reply:
  assumes pb: "pb_packet pb h d" "pb_NetworkHeader pb = Some nh" "pb_Data pb = Some dv"
    and len: "20 \<le> length h" "length h < 65536" "8 \<le> length d" "length d < 65536"
    and echo: "ICMPv4_Type d = Some ICMPv4Echo"
  shows "\<exists>s' h' d'. handleICMP s pb nh dv = Some s' \<and> stk_wire s' = stk_wire s @ [(h' @ d', None)] \<and>
    reply_header h h' \<and> reply_message d d'"
proof -
  obtain h' where h': "echo_ip (length h) h = Some h'" "reply_header h h'"
    using echo_ip_reply [OF len(1,2)] by blast
  obtain d' where d': "echo_icmp d = Some d'" "reply_message d d'"
    using echo_icmp_reply [OF len(3,4)] by blast
  obtain r where buf: "pb_buf pb = h @ d @ r" and v: "nh = (0, length h)" "dv = (length h, length d)"
    using pb by (auto simp: pb_packet_def) (metis append.assoc append_take_drop_id)
  have l: "length h' = length h" "length d' = length d"
    using h'(2) d'(2) by (simp_all add: reply_header_def reply_message_def)
  have 1: "update_view pb nh (echo_ip (snd nh)) = Some (pb\<lparr>pb_buf := h' @ d @ r\<rparr>)"
    using h'(1) l by (simp add: update_view_def view_bytes_def write_at_def v buf overwrite_def)
  have 2: "update_view (pb\<lparr>pb_buf := h' @ d @ r\<rparr>) dv echo_icmp = Some (pb\<lparr>pb_buf := h' @ d' @ r\<rparr>)"
    using d'(1) l by (simp add: update_view_def view_bytes_def write_at_def v overwrite_def)
  have 3: "view_bytes (pb\<lparr>pb_buf := h' @ d' @ r\<rparr>) (0, length h + length d) = Some (h' @ d')"
    using l by (simp add: view_bytes_def)
  have 4: "view_bytes pb dv = Some d"
    by (simp add: view_bytes_def v buf)
  have "handleICMP s pb nh dv = Some ((countPacketOut (length h + length d) s)
      \<lparr>stk_wire := stk_wire s @ [(h' @ d', None)]\<rparr>)"
    using echo len(3) 1 2 3 4 by (simp add: handleICMP_def v ICMPv4HeaderSize_def countPacketOut_def stack_count_def)
  with h' d' show ?thesis
    by auto
qed

lemma good_header_bounds:
  assumes "good_header h d"
  shows "20 \<le> length h" "length h < 65536" "length d < 65536"
proof -
  obtain n :: u16 where "unat n = length h + length d"
    using assms by (auto simp: good_header_def)
  with unat_u16_less [of n] assms show "20 \<le> length h" "length h < 65536" "length d < 65536"
    by (auto simp: good_header_def)
qed

lemma reply_good:
  assumes "good_header h d" "reply_header h h'" "length d' = length d"
  shows "good_header h' d'"
proof -
  have len: "20 \<le> length h" "length h' = length h" "take 8 h' = take 8 h"
    using assms(1,2) unfolding good_header_def reply_header_def by blast+
  then have "0 < length h" "0 < length h'" "h' ! 0 = h ! 0"
    by linarith+ (metis len(3) nth_take zero_less_numeral)
  then have "IPv4_HeaderLength h' = IPv4_HeaderLength h"
    by (simp add: IPv4_HeaderLength_def index_def)
  with assms show ?thesis
    unfolding good_header_def reply_header_def by metis
qed

lemma handleICMP_frame:
  "handleICMP s pb nh dv = Some s' \<Longrightarrow> stk_fragments s' = stk_fragments s \<and> stk_handlers s' = stk_handlers s"
  by (auto simp: handleICMP_def countPacketOut_def stack_count_def bind_Some_iff Let_def split: if_splits)

section \<open>Reading any packet\<close>

lemma handleICMP_total:
  assumes "pb_packet pb h d" "20 \<le> length h" "length h < 65536" "length d < 65536"
  shows "\<exists>nh dv s'. pb_NetworkHeader pb = Some nh \<and> pb_Data pb = Some dv \<and> handleICMP s pb nh dv = Some s'"
proof -
  have v: "pb_NetworkHeader pb = Some (0, length h)" "pb_Data pb = Some (length h, length d)"
    using assms(1) by (auto simp: pb_packet_def)
  obtain r where buf: "pb_buf pb = h @ d @ r"
    using assms(1) by (auto simp: pb_packet_def) (metis append.assoc append_take_drop_id)
  have b: "view_bytes pb (length h, length d) = Some d"
    by (simp add: view_bytes_def buf)
  consider (short) "length d < 8" | (other) "8 \<le> length d" "d ! 0 \<noteq> ICMPv4Echo" | (echo) "8 \<le> length d" "d ! 0 = ICMPv4Echo"
    by linarith
  then have "\<exists>s'. handleICMP s pb (0, length h) (length h, length d) = Some s'"
  proof cases
    case echo
    then have "0 < length d" by linarith
    with echo have "ICMPv4_Type d = Some ICMPv4Echo"
      by (simp add: ICMPv4_Type_def index_def)
    from handleICMP_reply [OF assms(1) v assms(2,3) echo(1) assms(4) this] show ?thesis
      by blast
  qed (use b in \<open>auto simp: handleICMP_def ICMPv4HeaderSize_def ICMPv4_Type_def index_def\<close>)
  with v show ?thesis
    by blast
qed

text \<open>A packet that is cut to the buffer it is read into, and is not a fragment.\<close>

definition unfragmented :: "bytes \<Rightarrow> bool" where
  "unfragmented pkt \<longleftrightarrow> length pkt < 20 \<or> IPv4_More pkt = Some False \<and> IPv4_FragmentOffset pkt = Some 0"

lemma get_take:
  assumes "20 \<le> k" "20 \<le> length b"
  shows "IPv4_More (take k b) = IPv4_More b" "IPv4_FragmentOffset (take k b) = IPv4_FragmentOffset b"
    "IPv4_Protocol (take k b) = Some (b ! 9)" "IPv4_HeaderLength (take k b) = IPv4_HeaderLength b"
    "IPv4_TotalLength (take k b) = IPv4_TotalLength b"
  using get_append [of "take k b" "drop k b"] assms
  by (auto simp: IPv4_Protocol_def)

lemma split_packet:
  assumes "hl \<le> n" "n \<le> length b"
  shows "take hl b @ drop hl (take n b) = take n b" "length (take hl b) = hl" "length (drop hl (take n b)) = n - hl"
  using assms append_take_drop_id [of hl "take n b"] by (simp_all add: min_absorb1)

text \<open>What \<open>readLoop\<close> makes of a packet: it is dropped, or it is the header and the payload it declares.\<close>

lemma readLoop_round_cases:
  assumes arr: "1500 \<le> length arr"
  obtains "readLoop_round arr arr' now s pkt = Some (s, Ignored)"
  | h d r pb where "pkt = h @ d @ r" "good_header h d" "pb_packet pb h d"
      "readLoop_round arr arr' now s pkt = readLoop_accept arr' now (counted_in (length h + length d) s) pb (h @ d) h d"
proof -
  let ?b = "overwrite arr 0 pkt" and ?raw = "take (length arr) pkt"
  have b: "pb_buf (NewPacketBuffer arr 0) = arr"
    by (simp add: NewPacketBuffer_def ensureCapacity_def pb_reset_def pooled_def)
  have raw: "take (min (length arr) (length pkt)) ?b = ?raw"
    by (simp add: overwrite_def min_def)
  have ex: "\<exists>hl n. IPv4_HeaderLength b = Some hl \<and> IPv4_TotalLength b = Some n" if "20 \<le> length b" for b
    using that by (auto simp: IPv4_get_defs numeral_le_length_iff Suc_le_length_iff)
  obtain hl n where g: "20 \<le> length ?raw \<Longrightarrow> IPv4_HeaderLength ?raw = Some hl \<and> IPv4_TotalLength ?raw = Some n"
    using ex [of ?raw] by blast
  define h where "h = take hl ?raw"
  define d where "d = drop hl (take (unat n) ?raw)"
  consider (short) "length ?raw < 20" | (hdr) "20 \<le> length ?raw" "hl < 20 \<or> hl > length ?raw"
    | (len) "20 \<le> length ?raw" "20 \<le> hl" "hl \<le> length ?raw" "unat n < hl \<or> unat n > length ?raw"
    | (ok) "20 \<le> length ?raw" "20 \<le> hl" "hl \<le> unat n" "unat n \<le> length ?raw"
    by linarith
  then show thesis
  proof cases
    case ok
    have hd: "h @ d = take (unat n) ?raw" "length h = hl" "length d = unat n - hl"
      using split_packet [OF ok(3,4)] by (simp_all only: h_def d_def)
    have split: "pkt = h @ d @ drop (unat n) pkt"
      using ok append_take_drop_id [of "unat n" pkt] hd(1) by (simp add: min_absorb1 flip: append.assoc)
    let ?pb = "(NewPacketBuffer arr 0)\<lparr>pb_buf := ?b, pb_NetworkHeader := Some (0, length h),
      pb_Data := Some (length h, length d)\<rparr>"
    have pb: "pb_packet ?pb h d"
      using ok hd raw [THEN arg_cong [of _ _ "take (unat n)"]] by (simp add: pb_packet_def) 
    have sl: "subslice ?raw 0 (unat n) = Some (h @ d)" "subslice (h @ d) 0 hl = Some h" "slice_from (h @ d) hl = Some d"
      using ok(4) by (simp add: hd(1)) (simp_all flip: hd(2))
    show thesis
    proof (cases "Checksum h 0 = 0")
      case True
      then have "good_header h d"
        using g ok hd get_take [of hl ?raw] by (simp add: good_header_def) (simp add: h_def)
      moreover have "readLoop_round arr arr' now s pkt =
          readLoop_accept arr' now (counted_in (length h + length d) s) ?pb (h @ d) h d"
        using g ok hd(2,3) sl True by (auto simp: readLoop_round_def Buf_def b raw IPv4MinHeaderSize_def Let_def)
      ultimately show thesis
        using that(2) split pb by blast
    next
      case False
      then show thesis
        using g ok hd(2,3) sl by (intro that(1)) (auto simp: readLoop_round_def Buf_def b raw IPv4MinHeaderSize_def Let_def)
    qed
  qed (use g in \<open>simp_all add: that(1) readLoop_round_def Buf_def b raw IPv4MinHeaderSize_def Let_def\<close>)
qed

lemma readLoop_unfragmented:
  assumes "1500 \<le> length arr" "unfragmented pkt"
  shows "\<exists>s' v. readLoop_round arr arr' now s pkt = Some (s', v) \<and> stk_fragments s' = stk_fragments s \<and>
    (v = Ignored \<and> s' = s \<or> (\<exists>h d r. pkt = h @ d @ r \<and> good_header h d \<and>
      (case v of Ignored \<Rightarrow> False
       | Handled \<Rightarrow> IPv4_Protocol h = Some ICMPv4ProtocolNumber
       | Unknown \<Rightarrow> IPv4_Protocol h \<notin> Some ` set (stk_handlers s)
       | Deliver proto pb \<Rightarrow> IPv4_Protocol h = Some proto \<and> proto \<in> set (stk_handlers s) \<and> pb_packet pb h d)))"
proof (rule readLoop_round_cases [OF assms(1), of arr' now s pkt])
  fix h d r :: bytes and pb
  let ?s = "counted_in (length h + length d) s"
  assume pkt: "pkt = h @ d @ r" "good_header h d" "pb_packet pb h d"
    "readLoop_round arr arr' now s pkt = readLoop_accept arr' now ?s pb (h @ d) h d"
  have len: "20 \<le> length h" "length h < 65536" "length d < 65536"
    using good_header_bounds [OF pkt(2)] by auto
  then obtain proto where proto: "IPv4_Protocol h = Some proto"
    by (auto simp: IPv4_Protocol_def)
  have "readLoop_accept arr' now ?s pb (h @ d) h d = dispatch ?s pb proto"
    using assms(2) pkt(1) len(1) proto by (simp add: readLoop_accept_def unfragmented_def get_append)
  moreover obtain nh dv s' where "pb_NetworkHeader pb = Some nh" "pb_Data pb = Some dv" "handleICMP ?s pb nh dv = Some s'"
    using handleICMP_total [OF pkt(3) len, of ?s] by blast
  moreover from this have "stk_fragments s' = stk_fragments s"
    using handleICMP_frame [of ?s pb nh dv s'] by (simp add: stack_count_def)
  ultimately show ?thesis
    unfolding pkt(4) using proto pkt(1-3)
    by (cases "proto = ICMPv4ProtocolNumber"; cases "proto \<in> set (stk_handlers s)")
       (force simp: dispatch_def stack_count_def)+
qed simp

section \<open>The contract of a transport handler\<close>

text \<open>
  What the stack needs of \<open>HandlePacket\<close>: on a packet the read loop delivers it does not panic, and it keeps
  its invariant. \<open>serve\<close> is the read loop together with the handler registered for \<open>proto\<close>.
\<close>

locale transport =
  fixes proto :: TransportProtocolNumber
    and inv :: "'h \<Rightarrow> bool"
    and handle :: "'h \<Rightarrow> PacketBuffer \<Rightarrow> 'h go"
  assumes handle_ok: "inv h \<Longrightarrow> pb_packet pb hdr d \<Longrightarrow> good_header hdr d \<Longrightarrow> \<exists>h'. handle h pb = Some h' \<and> inv h'"
begin

fun serve :: "Stack \<Rightarrow> 'h \<Rightarrow> (bytes \<times> bytes \<times> int \<times> bytes) list \<Rightarrow> (Stack \<times> 'h) go" where
  "serve s h [] = Some (s, h)"
| "serve s h ((arr, arr', now, pkt) # ins) = do {
     (s, v) \<leftarrow> readLoop_round arr arr' now s pkt;
     h \<leftarrow> (case v of Deliver p pb \<Rightarrow> if p = proto then handle h pb else Some h | _ \<Rightarrow> Some h);
     serve s h ins }"

lemma serve_total:
  assumes "inv h" "list_all (\<lambda>(arr, arr', now, pkt). 1500 \<le> length arr \<and> unfragmented pkt) ins"
  shows "\<exists>s' h'. serve s h ins = Some (s', h') \<and> inv h'"
  using assms
proof (induction ins arbitrary: s h)
  case (Cons x ins)
  obtain arr arr' now pkt where x: "x = (arr, arr', now, pkt)" "1500 \<le> length arr" "unfragmented pkt"
    using Cons.prems(2) by (cases x) auto
  obtain s1 v where s1: "readLoop_round arr arr' now s pkt = Some (s1, v)"
      "\<And>p pb. v = Deliver p pb \<Longrightarrow> \<exists>hdr d. pb_packet pb hdr d \<and> good_header hdr d"
    using readLoop_unfragmented [OF x(2,3), of arr' now s] by fastforce
  have "\<exists>h1. (case v of Deliver p pb \<Rightarrow> if p = proto then handle h pb else Some h | _ \<Rightarrow> Some h) = Some h1 \<and> inv h1"
    using s1(2) handle_ok [OF Cons.prems(1)] Cons.prems(1) by (cases v) force+
  then obtain h1 where "(case v of Deliver p pb \<Rightarrow> if p = proto then handle h pb else Some h | _ \<Rightarrow> Some h) = Some h1" "inv h1"
    by blast
  with Cons s1(1) x(1) show ?case
    by simp
qed simp

end

section \<open>The guarantees\<close>


definition sample_stack :: Stack where
  "sample_stack = \<lparr>stk_mtu = 28, stk_gsoOK = False, stk_outboundCh = [], stk_outboundCap = 256, stk_handlers = [17],
     stk_fragments = newIPv4Reassembler, stk_ipv4ID = 0, stk_ttl = 64, stk_stats = None, stk_done = False, stk_wire = []\<rparr>"

definition sample_payload :: bytes where
  "sample_payload = [1, 2, 3, 4, 5, 6, 7, 8, 9, 10, 11, 12]"

definition sample_buffer :: PacketBuffer where
  "sample_buffer = \<lparr>pb_buf = replicate 20 0 @ sample_payload, pb_headroom = 20, pb_consumed = 0,
     pb_NetworkHeader = None, pb_TransportHeader = None, pb_Data = Some (20, 12)\<rparr>"


text \<open>C6: An echo request that arrives as one packet is answered at once by a correct echo reply: the source and
  destination addresses are exchanged, the TTL is 64, the other header fields and the options are those of
  the request, the message has type 0 and the code, identifier, sequence number and payload of the
  request, and the checksums of the header and of the message verify.\<close>

theorem echo_reply:
  assumes "good_header h d" "length h + length d \<le> length arr" "IPv4_More h = Some False" "IPv4_FragmentOffset h = Some 0"
    and "IPv4_Protocol h = Some ICMPv4ProtocolNumber" "8 \<le> length d" "ICMPv4_Type d = Some ICMPv4Echo"
  shows "\<exists>s' h' d'. readLoop_round arr arr' now s (h @ d) = Some (s', Handled) \<and>
    stk_wire s' = stk_wire s @ [(h' @ d', None)] \<and> reply_header h h' \<and> reply_message d d' \<and> good_header h' d'"
proof -
  have len: "20 \<le> length h" "length h < 65536" "length d < 65536"
    using good_header_bounds [OF assms(1)] by auto
  obtain pb where pb: "pb_packet pb h d" "readLoop_round arr arr' now s (h @ d) =
       readLoop_accept arr' now (counted_in (length h + length d) s) pb (h @ d) h d"
    by (rule readLoop_round_good [OF assms(1,2), of arr' now s]) (rule that)
  let ?s = "counted_in (length h + length d) s"
  have v: "pb_NetworkHeader pb = Some (0, length h)" "pb_Data pb = Some (length h, length d)"
    using pb(1) by (auto simp: pb_packet_def)
  obtain s' h' d' where r: "handleICMP ?s pb (0, length h) (length h, length d) = Some s'"
      "stk_wire s' = stk_wire ?s @ [(h' @ d', None)]" "reply_header h h'" "reply_message d d'"
    using handleICMP_reply [OF pb(1) v len(1,2) assms(6) len(3) assms(7), of ?s] by blast
  have "readLoop_round arr arr' now s (h @ d) = Some (s', Handled)"
    using pb(2) assms(3,4,5) len(1) v r(1) by (simp add: readLoop_accept_def get_append dispatch_def)
  moreover have "stk_wire s' = stk_wire s @ [(h' @ d', None)]"
    using r(2) by (simp add: stack_count_def)
  ultimately show ?thesis
    using r(3,4) reply_good [OF assms(1) r(3)] by (auto simp: reply_message_def)
qed

text \<open>The same with the request of \<open>ping\<close> from 10.0.0.1 to 10.0.0.2.\<close>

definition ping_header :: bytes where
  "ping_header = [69, 0, 0, 29, 0, 1, 0, 0, 7, 1, 0x9f, 0xdd, 10, 0, 0, 1, 10, 0, 0, 2]"

definition ping_message :: bytes where
  "ping_message = [8, 0, 0xd5, 0xfc, 0, 1, 0, 2, 0x21]"

theorem echo_reply_witness:
  "\<exists>s' h' d'. readLoop_round (replicate 40 0) [] 0 sample_stack (ping_header @ ping_message) = Some (s', Handled) \<and>
    stk_wire s' = [(h' @ d', None)] \<and> reply_header ping_header h' \<and> reply_message ping_message d' \<and> good_header h' d'"
proof -
  have "good_header ping_header ping_message" "IPv4_More ping_header = Some False" "IPv4_FragmentOffset ping_header = Some 0"
    "IPv4_Protocol ping_header = Some ICMPv4ProtocolNumber" "ICMPv4_Type ping_message = Some ICMPv4Echo"
    by code_simp+
  from echo_reply [OF this(1) _ this(2-4) _ this(5), of "replicate 40 0" "[]" 0 sample_stack] show ?thesis
    by (simp add: ping_header_def ping_message_def) (simp add: sample_stack_def)
qed

text \<open>C7: \<open>readLoop\<close> is safe on any bytes that are not a fragment: it never panics, a packet that is too short or
  whose header length, total length or header checksum is wrong changes nothing, and whatever is handed
  to a transport handler is the packet without the bytes behind its total length, given to the handler
  registered for its protocol.\<close>

theorem readLoop_safe:
  assumes "1500 \<le> length arr" "unfragmented pkt"
  shows "\<exists>s' v. readLoop_round arr arr' now s pkt = Some (s', v) \<and> stk_fragments s' = stk_fragments s \<and>
    (v = Ignored \<and> s' = s \<or> (\<exists>h d r. pkt = h @ d @ r \<and> good_header h d \<and>
      (case v of Ignored \<Rightarrow> False
       | Handled \<Rightarrow> IPv4_Protocol h = Some ICMPv4ProtocolNumber
       | Unknown \<Rightarrow> IPv4_Protocol h \<notin> Some ` set (stk_handlers s)
       | Deliver proto pb \<Rightarrow> IPv4_Protocol h = Some proto \<and> proto \<in> set (stk_handlers s) \<and> pb_packet pb h d)))"
  by (rule readLoop_unfragmented [OF assms])

theorem readLoop_safe_witness:
  "\<exists>s' v. readLoop_round (replicate 1500 0) [] 0 sample_stack (ping_header @ ping_message @ [0, 0]) = Some (s', v) \<and>
    stk_fragments s' = newIPv4Reassembler"
proof -
  have "unfragmented (ping_header @ ping_message @ [0, 0])"
    by code_simp
  from readLoop_safe [OF _ this, of "replicate 1500 0" "[]" 0 sample_stack] show ?thesis
    by (auto simp: sample_stack_def)
qed

end
