(* ===== verification/UdpHandler.thy ===== *)
theory UdpHandler
  imports StackProps
begin

text \<open>
  The UDP transport: \<open>src/transport/udp/\<close>.

  The Go channel \<open>inbound\<close> is the list of the datagrams in it and its capacity. Arrays that come out of a
  pool, with whatever bytes are left in them, are arguments (\<open>arr\<close>). A call that can block has a result
  of type \<open>blocking\<close>, and \<open>pick\<close> is the choice a \<open>select\<close> makes when both of its cases are ready.
\<close>

section \<open>State\<close>

definition maxIPv4UDPPayload :: nat where
  "maxIPv4UDPPayload = 0xffff - IPv4MinHeaderSize - UDPHeaderSize"

datatype udp_error = errClosed | ErrMessageTooLong

record UDPConfig =
  ucfg_InboundQueueSize :: nat

definition defaultUDPConfig :: UDPConfig where
  "defaultUDPConfig = \<lparr>ucfg_InboundQueueSize = 256\<rparr>"

definition WithInboundQueueSize :: "nat \<Rightarrow> UDPConfig \<Rightarrow> UDPConfig" where
  "WithInboundQueueSize n c = c\<lparr>ucfg_InboundQueueSize := n\<rparr>"

record UDPStats =
  us_DatagramsIn :: u64
  us_DatagramsOut :: u64
  us_BytesIn :: u64
  us_BytesOut :: u64
  us_DroppedInbound :: u64
  us_OversizedOut :: u64
  us_ChecksumErrors :: u64

record udpDatagram =
  dg_ref :: RefBuf
  dg_src :: FullAddress
  dg_dst :: FullAddress

record UDPHandler =
  uh_inbound :: "udpDatagram list"
  uh_inboundCap :: nat
  uh_done :: bool
  uh_stats :: "UDPStats option"
  uh_maxPayload :: nat

definition NewUDPHandler :: "(UDPConfig \<Rightarrow> UDPConfig) list \<Rightarrow> UDPHandler" where
  "NewUDPHandler opts = (let cfg = fold (\<lambda>opt cfg. opt cfg) opts defaultUDPConfig in
     \<lparr>uh_inbound = [], uh_inboundCap = ucfg_InboundQueueSize cfg, uh_done = False, uh_stats = None,
      uh_maxPayload = maxIPv4UDPPayload\<rparr>)"

definition EnableUDPStats :: "UDPHandler \<Rightarrow> UDPHandler" where
  "EnableUDPStats h = h\<lparr>uh_stats := Some \<lparr>us_DatagramsIn = 0, us_DatagramsOut = 0, us_BytesIn = 0, us_BytesOut = 0,
     us_DroppedInbound = 0, us_OversizedOut = 0, us_ChecksumErrors = 0\<rparr>\<rparr>"

definition udp_count :: "(UDPStats \<Rightarrow> UDPStats) \<Rightarrow> UDPHandler \<Rightarrow> UDPHandler" where
  "udp_count f h = h\<lparr>uh_stats := map_option f (uh_stats h)\<rparr>"

section \<open>Receiving\<close>

definition copy_to_ref :: "bytes \<Rightarrow> bytes \<Rightarrow> RefBuf" where
  "copy_to_ref arr payload =
     (let ref = EnsureCapacity (GetRefBuf arr) (length payload);
          ref = ref\<lparr>ref_buf := overwrite (ref_buf ref) 0 payload\<rparr>
      in SetLen ref (length payload))"

definition UDP_HandlePacket :: "bytes \<Rightarrow> UDPHandler \<Rightarrow> PacketBuffer \<Rightarrow> UDPHandler go" where
  "UDP_HandlePacket arr h pb =
     (case pb_Data pb of
        None \<Rightarrow> Some h
      | Some dv \<Rightarrow>
          if snd dv < UDPHeaderSize then Some h
          else do {
            nh \<leftarrow> pb_NetworkHeader pb;
            ipHdr \<leftarrow> view_bytes pb nh;
            d \<leftarrow> view_bytes pb dv;
            udpHdr \<leftarrow> subslice d 0 UDPHeaderSize;
            payload \<leftarrow> slice_from d UDPHeaderSize;
            let ref = copy_to_ref arr payload;
            sa \<leftarrow> IPv4_SourceAddress ipHdr;
            sp \<leftarrow> UDP_SourcePort udpHdr;
            da \<leftarrow> IPv4_DestinationAddress ipHdr;
            dp \<leftarrow> UDP_DestinationPort udpHdr;
            let dg = \<lparr>dg_ref = ref, dg_src = \<lparr>fa_Addr = sa, fa_Port = sp\<rparr>, dg_dst = \<lparr>fa_Addr = da, fa_Port = dp\<rparr>\<rparr>;
            if length (uh_inbound h) < uh_inboundCap h
            then Some (udp_count (\<lambda>st. st\<lparr>us_DatagramsIn := us_DatagramsIn st + 1,
                                         us_BytesIn := us_BytesIn st + of_nat (length payload)\<rparr>)
                         (h\<lparr>uh_inbound := uh_inbound h @ [dg]\<rparr>))
            else Some (udp_count (\<lambda>st. st\<lparr>us_DroppedInbound := us_DroppedInbound st + 1\<rparr>) h) })"

text \<open>\<open>ReadFrom\<close>: the bytes of \<open>b\<close> afterwards, how many were copied, and the two addresses.\<close>

definition UDP_ReadFrom :: "bool \<Rightarrow> UDPHandler \<Rightarrow> bytes \<Rightarrow>
    ((udp_error + bytes \<times> nat \<times> FullAddress \<times> FullAddress) \<times> UDPHandler) blocking go" where
  "UDP_ReadFrom pick h b =
     (case select2 pick (uh_inbound h \<noteq> []) (uh_done h) of
        None \<Rightarrow> Some Blocks
      | Some True \<Rightarrow> do {
          let dg = hd (uh_inbound h);
          d \<leftarrow> RefBuf_Bytes (dg_ref dg);
          Some (Returns (Inr (overwrite b 0 d, min (length b) (length d), dg_src dg, dg_dst dg),
                         h\<lparr>uh_inbound := tl (uh_inbound h)\<rparr>)) }
      | Some False \<Rightarrow> Some (Returns (Inl errClosed, h)))"

section \<open>Sending\<close>

text \<open>Building the packet: the UDP header in front of the payload, with its checksum.\<close>

definition udp_packet :: "bytes \<Rightarrow> bytes \<Rightarrow> FullAddress \<Rightarrow> FullAddress \<Rightarrow> PacketBuffer go" where
  "udp_packet arr b src dst = do {
     let pb = NewPacketBuffer arr (IPv4MinHeaderSize + UDPHeaderSize);
     pb \<leftarrow> AppendData pb b;
     let udpTotalLen = of_nat (UDPHeaderSize + length b);
     (pb, v) \<leftarrow> Prepend pb UDPHeaderSize;
     pb \<leftarrow> update_view pb v (\<lambda>udp. UDP_Encode udp \<lparr>udp_SrcPort = fa_Port src, udp_DstPort = fa_Port dst,
                                                 udp_Length = udpTotalLen, udp_Checksum = 0\<rparr>);
     pb \<leftarrow> update_view pb v (\<lambda>udp. UDP_SetChecksum udp 0);
     fullUDP \<leftarrow> AsSlice pb;
     phc \<leftarrow> PseudoHeaderChecksum UDPProtocolNumber (fa_Addr src) (fa_Addr dst) udpTotalLen;
     update_view pb v (\<lambda>udp. UDP_SetChecksum udp (Checksum fullUDP phc)) }"

definition UDP_WriteTo :: "bytes \<Rightarrow> bool \<Rightarrow> UDPHandler \<Rightarrow> Stack \<Rightarrow> bytes \<Rightarrow> FullAddress \<Rightarrow> FullAddress \<Rightarrow>
    ((udp_error + nat) \<times> UDPHandler \<times> Stack) blocking go" where
  "UDP_WriteTo arr pick h s b src dst =
     (if uh_done h then Some (Returns (Inl errClosed, h, s))
      else if length b > uh_maxPayload h
      then Some (Returns (Inl ErrMessageTooLong,
                          udp_count (\<lambda>st. st\<lparr>us_OversizedOut := us_OversizedOut st + 1\<rparr>) h, s))
      else do {
        pb \<leftarrow> udp_packet arr b src dst;
        let h = udp_count (\<lambda>st. st\<lparr>us_DatagramsOut := us_DatagramsOut st + 1,
                                   us_BytesOut := us_BytesOut st + of_nat (length b)\<rparr>) h;
        r \<leftarrow> SendPacket pick s pb (fa_Addr src) (fa_Addr dst) UDPProtocolNumber;
        Some (map_blocking (\<lambda>s. (Inr (length b), h, s)) r) })"

definition UDP_Close :: "UDPHandler \<Rightarrow> UDPHandler" where
  "UDP_Close h = (if uh_done h then h else h\<lparr>uh_done := True\<rparr>)"

section \<open>The datagram on the wire\<close>

definition udp_segment :: "FullAddress \<Rightarrow> FullAddress \<Rightarrow> bytes \<Rightarrow> bytes" where
  "udp_segment src dst b =
     (let n = of_nat (8 + length b);
          f = \<lparr>udp_SrcPort = fa_Port src, udp_DstPort = fa_Port dst, udp_Length = n, udp_Checksum = 0\<rparr>;
          phc = the (PseudoHeaderChecksum UDPProtocolNumber (fa_Addr src) (fa_Addr dst) n)
      in UDP_wire (f\<lparr>udp_Checksum := Checksum (UDP_wire f @ b) phc\<rparr>) @ b)"

lemma length_udp_segment [simp]: "length (udp_segment src dst b) = 8 + length b"
  by (simp add: udp_segment_def Let_def)

lemma UDP_SetChecksum_wire: "UDP_SetChecksum (UDP_wire f) c = Some (UDP_wire (f\<lparr>udp_Checksum := c\<rparr>))"
  by (simp add: UDP_SetChecksum_def UDP_wire_def)

lemma udp_packet_segment:
  "\<exists>pb. udp_packet arr b src dst = Some pb \<and> pb_wf pb \<and> AsSlice pb = Some (udp_segment src dst b) \<and>
     pb_consumed pb + 20 \<le> pb_headroom pb"
proof -
  let ?n = "of_nat (UDPHeaderSize + length b) :: u16"
  define f where "f = \<lparr>udp_SrcPort = fa_Port src, udp_DstPort = fa_Port dst, udp_Length = ?n, udp_Checksum = 0\<rparr>"
  obtain phc where phc: "PseudoHeaderChecksum UDPProtocolNumber (fa_Addr src) (fa_Addr dst) ?n = Some phc"
    using PseudoHeaderChecksum_Some by blast
  obtain pb0 where 0: "AppendData (NewPacketBuffer arr 28) b = Some pb0" "pb_wf pb0" "AsSlice pb0 = Some b"
      "pb_headroom pb0 = 28" "pb_consumed pb0 = 0"
    by (rule AppendData_new)
  then obtain pb1 v u where 1: "Prepend pb0 8 = Some (pb1, v)" "front pb1 v u b" "length u = 8"
      "pb_headroom pb1 = 28" "pb_consumed pb1 = 8"
    using Prepend_front [OF 0(2,3), of 8] by auto
  have "UDP_Encode u f = Some (UDP_wire f)"
    using 1(3) by (simp add: UDP_Encode_wire)
  then obtain pb2 where 2: "update_view pb1 v (\<lambda>u. UDP_Encode u f) = Some pb2" "front pb2 v (UDP_wire f) b"
      "pb_headroom pb2 = 28" "pb_consumed pb2 = 8"
    using update_front [OF 1(2), of "\<lambda>u. UDP_Encode u f"] 1 by auto
  have "f\<lparr>udp_Checksum := 0\<rparr> = f"
    by (simp add: f_def)
  then obtain pb3 where 3: "update_view pb2 v (\<lambda>u. UDP_SetChecksum u 0) = Some pb3" "front pb3 v (UDP_wire f) b"
      "pb_headroom pb3 = 28" "pb_consumed pb3 = 8"
    using update_front [OF 2(2), of "\<lambda>u. UDP_SetChecksum u 0"] 2 by (auto simp: UDP_SetChecksum_wire)
  let ?c = "Checksum (UDP_wire f @ b) phc"
  obtain pb4 where 4: "update_view pb3 v (\<lambda>u. UDP_SetChecksum u ?c) = Some pb4"
      "front pb4 v (UDP_wire (f\<lparr>udp_Checksum := ?c\<rparr>)) b" "pb_headroom pb4 = 28" "pb_consumed pb4 = 8"
    using update_front [OF 3(2), of "\<lambda>u. UDP_SetChecksum u ?c"] 3 by (auto simp: UDP_SetChecksum_wire)
  have "udp_packet arr b src dst = Some pb4"
    using 0 1 2 3 4 phc unfolding udp_packet_def
    by (simp add: IPv4MinHeaderSize_def UDPHeaderSize_def front_def f_def)
  moreover have "udp_segment src dst b = UDP_wire (f\<lparr>udp_Checksum := ?c\<rparr>) @ b"
    using phc by (simp add: udp_segment_def f_def UDPHeaderSize_def Let_def)
  ultimately show ?thesis
    using 4 by (simp add: front_def)
qed

text \<open>The checksum of the segment verifies at the receiver.\<close>

lemma udp_segment_checksum:
  assumes "length b \<le> maxIPv4UDPPayload"
    and "PseudoHeaderChecksum UDPProtocolNumber (fa_Addr src) (fa_Addr dst) (of_nat (8 + length b)) = Some phc"
  shows "Checksum (udp_segment src dst b) phc = 0"
proof -
  define f where "f = \<lparr>udp_SrcPort = fa_Port src, udp_DstPort = fa_Port dst, udp_Length = of_nat (8 + length b),
      udp_Checksum = 0\<rparr>"
  let ?z = "UDP_wire f @ b"
  have "even (6 :: nat)" "6 + 2 \<le> length ?z" "length ?z \<le> 131068" "?z ! 6 = 0" "?z ! (6 + 1) = 0"
    using assms(1) by (simp_all add: maxIPv4UDPPayload_def IPv4MinHeaderSize_def UDPHeaderSize_def f_def)
      (simp_all add: UDP_wire_def)
  from Checksum_fill [OF this, of phc] show ?thesis
    using assms(2) by (simp add: udp_segment_def Let_def f_def) (simp add: UDP_wire_def)
qed

lemma copy_to_ref_bytes: "RefBuf_Bytes (copy_to_ref arr d) = Some d"
proof -
  let ?r = "EnsureCapacity (GetRefBuf arr) (length d)"
  have "length d \<le> length (ref_buf ?r)"
    by (simp add: EnsureCapacity_def)
  then show ?thesis
    by (simp add: copy_to_ref_def SetLen_def RefBuf_Bytes_def overwrite_fits Let_def)
qed

lemma udp_segment_ports:
  "UDP_SourcePort (take 8 (udp_segment src dst b)) = Some (fa_Port src)"
  "UDP_DestinationPort (take 8 (udp_segment src dst b)) = Some (fa_Port dst)"
  "drop 8 (udp_segment src dst b) = b"
  by (simp_all add: udp_segment_def Let_def UDP_get_defs UDP_wire_def)

text \<open>What the handler of the peer makes of the packet.\<close>

lemma HandlePacket_segment:
  assumes pb: "pb_packet pb (ip_hdr f) (udp_segment src dst b)"
    and f: "IPv4_valid f" "ip_SrcAddr f = fa_Addr src" "ip_DstAddr f = fa_Addr dst"
    and h: "length (uh_inbound h) < uh_inboundCap h"
  shows "\<exists>h'. UDP_HandlePacket arr h pb = Some h' \<and> uh_done h' = uh_done h \<and>
    uh_inbound h' = uh_inbound h @ [\<lparr>dg_ref = copy_to_ref arr b, dg_src = src, dg_dst = dst\<rparr>]"
proof -
  let ?d = "udp_segment src dst b"
  obtain r where buf: "pb_buf pb = ip_hdr f @ ?d @ r"
    using pb by (auto simp: pb_packet_def) (metis append.assoc append_take_drop_id)
  have v: "pb_NetworkHeader pb = Some (0, 20)" "pb_Data pb = Some (20, 8 + length b)"
    using pb by (auto simp: pb_packet_def)
  have b: "view_bytes pb (0, 20) = Some (ip_hdr f)" "view_bytes pb (20, 8 + length b) = Some ?d"
    by (simp_all add: view_bytes_def buf)
  have a: "\<lparr>fa_Addr = fa_Addr x, fa_Port = fa_Port x\<rparr> = x" for x :: FullAddress
    by simp
  show ?thesis
    using v b h f udp_segment_ports [of src dst b] ip_hdr_get(4,5) [OF f(1), of "[]"]
    by (simp add: UDP_HandlePacket_def UDPHeaderSize_def udp_count_def a)
qed

lemma ReadFrom_first:
  assumes "uh_inbound h = [\<lparr>dg_ref = copy_to_ref arr b, dg_src = src, dg_dst = dst\<rparr>]" "\<not> uh_done h"
  shows "UDP_ReadFrom pick h buf =
    Some (Returns (Inr (overwrite buf 0 b, min (length buf) (length b), src, dst), h\<lparr>uh_inbound := []\<rparr>))"
  using assms by (simp add: UDP_ReadFrom_def select2_def copy_to_ref_bytes)

section \<open>The guarantees\<close>

text \<open>C3: UDP end to end. A payload of at most 65507 bytes that is given to \<open>WriteTo\<close> of a running handler is
  accepted in full; what \<open>writeLoop\<close> puts on the wire, read by the peer's stack in any order, is delivered
  as one packet; and when the peer's handler takes that packet into an empty queue, \<open>ReadFrom\<close> with a large
  enough buffer returns the same bytes with the same source and destination address and port, whatever the
  pooled arrays on the way contained.\<close>

theorem udp_transfer:
  assumes h: "\<not> uh_done h" "uh_maxPayload h = maxIPv4UDPPayload" "length b \<le> maxIPv4UDPPayload"
    and s: "28 \<le> stk_mtu s" "stk_mtu s \<le> 1500" "stk_outboundCh s = []" "0 < stk_outboundCap s" "\<not> stk_done s"
    and f: "f = sent_fields s (28 + length b) UDPProtocolNumber (fa_Addr src) (fa_Addr dst)"
    and peer: "uh_inbound g = []" "0 < uh_inboundCap g" "\<not> uh_done g" "length b \<le> length buf"
  shows "\<exists>h' s1 s2 ws. UDP_WriteTo arr pick h s b src dst = Some (Returns (Inr (length b), h', s1)) \<and>
    writeLoop_round pick' s1 = Some (Returns (Some s2)) \<and> map fst (stk_wire s2) = map fst (stk_wire s) @ ws \<and>
    (\<forall>B t0 ins. ready_for B f (8 + length b) \<longrightarrow> arrives ws t0 B ins \<longrightarrow>
      (\<exists>B' pb g' buf'. read_all B ins = Some (B', replicate (length ws - 1) Ignored @ [Deliver UDPProtocolNumber pb]) \<and>
        UDP_HandlePacket arr' g pb = Some g' \<and>
        UDP_ReadFrom pick'' g' buf = Some (Returns (Inr (buf', length b, src, dst), g'\<lparr>uh_inbound := []\<rparr>)) \<and>
        take (length b) buf' = b))"
proof -
  obtain pb where pb: "udp_packet arr b src dst = Some pb" "pb_wf pb" "AsSlice pb = Some (udp_segment src dst b)"
      "pb_consumed pb + 20 \<le> pb_headroom pb"
    using udp_packet_segment by blast
  have len: "20 + length (udp_segment src dst b) \<le> 0xffff"
    using h(3) by (simp add: maxIPv4UDPPayload_def IPv4MinHeaderSize_def UDPHeaderSize_def)
  have f': "f = sent_fields s (20 + length (udp_segment src dst b)) UDPProtocolNumber (fa_Addr src) (fa_Addr dst)"
    using f by (simp add: algebra_simps)
  obtain s1 s2 ws where st: "SendPacket pick s pb (fa_Addr src) (fa_Addr dst) UDPProtocolNumber = Some (Returns s1)"
      "writeLoop_round pick' s1 = Some (Returns (Some s2))" "map fst (stk_wire s2) = map fst (stk_wire s) @ ws"
    and rd: "\<And>B t0 ins. ready_for B f (length (udp_segment src dst b)) \<Longrightarrow> arrives ws t0 B ins \<Longrightarrow>
      \<exists>B' pb'. read_all B ins = Some (B', replicate (length ws - 1) Ignored @ [Deliver UDPProtocolNumber pb']) \<and>
        pb_packet pb' (ip_hdr f) (udp_segment src dst b)"
    using stack_transfer [OF pb(2-4) len s, of pick "fa_Addr src" "fa_Addr dst" UDPProtocolNumber pick']
    unfolding f' [symmetric] by blast
  have deliver: "\<exists>g' buf'. UDP_HandlePacket arr' g pb' = Some g' \<and>
      UDP_ReadFrom pick'' g' buf = Some (Returns (Inr (buf', length b, src, dst), g'\<lparr>uh_inbound := []\<rparr>)) \<and>
      take (length b) buf' = b" if pb': "pb_packet pb' (ip_hdr f) (udp_segment src dst b)" for pb'
  proof -
    have "length (uh_inbound g) < uh_inboundCap g"
      using peer by simp
    from HandlePacket_segment [OF pb' _ _ _ this, of arr'] obtain g' where
      g': "UDP_HandlePacket arr' g pb' = Some g'" "uh_done g' = uh_done g"
        "uh_inbound g' = [\<lparr>dg_ref = copy_to_ref arr' b, dg_src = src, dg_dst = dst\<rparr>]"
      using f peer(1) by auto
    with ReadFrom_first [OF g'(3), of pick'' buf] peer(3,4) show ?thesis
      by (simp add: min_absorb2 overwrite_fits)
  qed
  obtain h' where "UDP_WriteTo arr pick h s b src dst = Some (Returns (Inr (length b), h', s1))"
    using h pb(1) st(1) by (simp add: UDP_WriteTo_def)
  moreover have "\<exists>B' pb g' buf'. read_all B ins = Some (B', replicate (length ws - 1) Ignored @ [Deliver UDPProtocolNumber pb]) \<and>
        UDP_HandlePacket arr' g pb = Some g' \<and>
        UDP_ReadFrom pick'' g' buf = Some (Returns (Inr (buf', length b, src, dst), g'\<lparr>uh_inbound := []\<rparr>)) \<and>
        take (length b) buf' = b" if "ready_for B f (8 + length b)" "arrives ws t0 B ins" for B t0 ins
    using rd [of B t0 ins] that deliver by (metis length_udp_segment)
  ultimately show ?thesis
    using st(2,3) by blast
qed

theorem udp_transfer_witness:
  "\<exists>h' s1 s2 ws. UDP_WriteTo [] True (NewUDPHandler []) sample_stack sample_payload
      \<lparr>fa_Addr = 0x0a000001, fa_Port = 53\<rparr> \<lparr>fa_Addr = 0x0a000002, fa_Port = 4000\<rparr> = Some (Returns (Inr 12, h', s1)) \<and>
    writeLoop_round True s1 = Some (Returns (Some s2)) \<and> map fst (stk_wire s2) = ws \<and>
    (\<exists>B' pb g' buf'. read_all sample_stack (map (\<lambda>w. (replicate 1500 0, [], 0, w)) (rev ws)) =
        Some (B', replicate (length ws - 1) Ignored @ [Deliver UDPProtocolNumber pb]) \<and>
      UDP_HandlePacket [] (NewUDPHandler []) pb = Some g' \<and>
      UDP_ReadFrom True g' (replicate 20 0) = Some (Returns (Inr (buf', 12, \<lparr>fa_Addr = 0x0a000001, fa_Port = 53\<rparr>,
        \<lparr>fa_Addr = 0x0a000002, fa_Port = 4000\<rparr>), g'\<lparr>uh_inbound := []\<rparr>)) \<and>
      take 12 buf' = sample_payload)"
proof -
  let ?a = "\<lparr>fa_Addr = 0x0a000001, fa_Port = 53\<rparr>" and ?b = "\<lparr>fa_Addr = 0x0a000002, fa_Port = 4000\<rparr>"
  let ?f = "sent_fields sample_stack (28 + length sample_payload) UDPProtocolNumber (fa_Addr ?a) (fa_Addr ?b)"
  have len: "length sample_payload = 12"
    by (simp add: sample_payload_def)
  have h: "\<not> uh_done (NewUDPHandler [])" "uh_maxPayload (NewUDPHandler []) = maxIPv4UDPPayload"
      "length sample_payload \<le> maxIPv4UDPPayload"
    by (simp_all add: NewUDPHandler_def len maxIPv4UDPPayload_def IPv4MinHeaderSize_def UDPHeaderSize_def)
  have g: "uh_inbound (NewUDPHandler []) = []" "0 < uh_inboundCap (NewUDPHandler [])"
      "length sample_payload \<le> length (replicate 20 (0 :: u8))"
    by (simp_all add: NewUDPHandler_def len defaultUDPConfig_def)
  have st: "28 \<le> stk_mtu sample_stack" "stk_mtu sample_stack \<le> 1500" "stk_outboundCh sample_stack = []"
      "0 < stk_outboundCap sample_stack" "\<not> stk_done sample_stack"
    by (simp_all add: sample_stack_def)
  have ready: "ready_for sample_stack ?f (8 + length sample_payload)"
    using rs_inv_new by (simp add: ready_for_def len) (simp add: sample_stack_def ICMPv4ProtocolNumber_def
        UDPProtocolNumber_def newIPv4Reassembler_def ipv4ReassemblyHighThreshold_def)
  have arrives: "arrives ws 0 sample_stack (map (\<lambda>w. (replicate 1500 0, [], 0, w)) (rev ws))" for ws
    by (simp add: arrives_def sample_stack_def list_all_iff comp_def newIPv4Reassembler_def ipv4ReassemblyTimeout_def)
  note tr = udp_transfer [OF h st refl g(1,2) h(1) g(3), of "[]" True ?a ?b True "[]" True, unfolded len]
  obtain h' s1 s2 ws where w: "UDP_WriteTo [] True (NewUDPHandler []) sample_stack sample_payload ?a ?b =
      Some (Returns (Inr 12, h', s1))" "writeLoop_round True s1 = Some (Returns (Some s2))"
      "map fst (stk_wire s2) = map fst (stk_wire sample_stack) @ ws"
    and rd: "\<And>B t0 ins. ready_for B ?f (8 + length sample_payload) \<Longrightarrow> arrives ws t0 B ins \<Longrightarrow>
      \<exists>B' pb g' buf'. read_all B ins = Some (B', replicate (length ws - 1) Ignored @ [Deliver UDPProtocolNumber pb]) \<and>
      UDP_HandlePacket [] (NewUDPHandler []) pb = Some g' \<and>
      UDP_ReadFrom True g' (replicate 20 0) = Some (Returns (Inr (buf', 12, ?a, ?b), g'\<lparr>uh_inbound := []\<rparr>)) \<and>
      take 12 buf' = sample_payload"
    using tr unfolding len by blast
  moreover have "map fst (stk_wire s2) = ws"
    using w(3) by (simp add: sample_stack_def)
  ultimately show ?thesis
    using rd [OF ready arrives] by blast
qed



section \<open>The handler behind the read loop\<close>

definition uh_inv :: "UDPHandler \<Rightarrow> bool" where
  "uh_inv h \<longleftrightarrow> length (uh_inbound h) \<le> uh_inboundCap h \<and>
     list_all (\<lambda>dg. ref_len (dg_ref dg) \<le> length (ref_buf (dg_ref dg))) (uh_inbound h)"

lemma copy_to_ref_ok: "ref_len (copy_to_ref arr d) \<le> length (ref_buf (copy_to_ref arr d))"
  by (simp add: copy_to_ref_def SetLen_def EnsureCapacity_def Let_def)

lemma HandlePacket_inv:
  assumes "uh_inv h" "pb_packet pb hdr d" "good_header hdr d"
  shows "\<exists>h'. UDP_HandlePacket arr h pb = Some h' \<and> uh_inv h'"
proof (cases "length d < 8")
  case True
  then show ?thesis
    using assms(1,2) by (simp add: UDP_HandlePacket_def pb_packet_def UDPHeaderSize_def)
next
  case False
  obtain r where buf: "pb_buf pb = hdr @ d @ r"
    using assms(2) by (auto simp: pb_packet_def) (metis append.assoc append_take_drop_id)
  have v: "pb_NetworkHeader pb = Some (0, length hdr)" "pb_Data pb = Some (length hdr, length d)"
    using assms(2) by (auto simp: pb_packet_def)
  have b: "view_bytes pb (0, length hdr) = Some hdr" "view_bytes pb (length hdr, length d) = Some d"
    by (simp_all add: view_bytes_def buf)
  have "20 \<le> length hdr"
    using assms(3) by (simp add: good_header_def)
  then show ?thesis
    using v b False assms(1) copy_to_ref_ok [of arr]
    by (auto simp: UDP_HandlePacket_def UDPHeaderSize_def udp_count_def IPv4_get_defs UDP_get_defs uh_inv_def)
qed

interpretation udp: transport UDPProtocolNumber uh_inv "\<lambda>h pb. UDP_HandlePacket [] h pb"
  by unfold_locales (use HandlePacket_inv in blast)



end
