(* ===== verification/TcpTypes.thy ===== *)
theory TcpTypes
  imports TCPHeader Ringbuf Packet Channel
begin

text \<open>
  The data of the TCP implementation: \<open>src/transport/tcp/state.go\<close>, \<open>flow.go\<close>, \<open>options.go\<close>, \<open>stats.go\<close>,
  the types of \<open>segment.go\<close>, \<open>snd.go\<close>, \<open>rcv.go\<close> and \<open>conn.go\<close>, and sequence number arithmetic.

  Conventions. A pointer that may be \<open>nil\<close> is an option, and following \<open>nil\<close> is a panic. Durations and points in
  time are integers in nanoseconds; a timer is its deadline, or \<open>None\<close> while it is stopped. Buffer sizes are
  natural numbers. A channel of capacity one that only carries a signal is a boolean, as is a \<open>sync.Once\<close>
  and a channel that is only ever closed. \<open>receiver.readBuf\<close> and \<open>receiver.conn\<close> are the read buffer and the
  connection the receiver belongs to and have no field of their own. What a connection hands to the layer
  below, and to the listener, is appended to \<open>c_out\<close> in the order of the calls. \<open>c_stats\<close> is what this
  connection contributed to the counters of its handler, which are only ever added to.
\<close>

section \<open>Sequence numbers\<close>

definition seqGreaterThan :: "u32 \<Rightarrow> u32 \<Rightarrow> bool" where
  "seqGreaterThan a b \<longleftrightarrow> sint (a - b) > 0"

definition seqLessThan :: "u32 \<Rightarrow> u32 \<Rightarrow> bool" where
  "seqLessThan a b \<longleftrightarrow> sint (a - b) < 0"

definition seqWithinWindow :: "u32 \<Rightarrow> u32 \<Rightarrow> u32 \<Rightarrow> bool" where
  "seqWithinWindow seq start wnd \<longleftrightarrow> \<not> seqLessThan seq start \<and> seqLessThan seq (start + wnd)"

section \<open>States and flows\<close>

datatype tcpState = stateClosed | stateSynRcvd | stateEstablished | stateFinWait1 | stateFinWait2
  | stateCloseWait | stateLastAck | stateTimeWait | stateClosing

fun tcpState_String :: "tcpState \<Rightarrow> string" where
  "tcpState_String stateClosed = ''CLOSED''"
| "tcpState_String stateSynRcvd = ''SYN_RCVD''"
| "tcpState_String stateEstablished = ''ESTABLISHED''"
| "tcpState_String stateFinWait1 = ''FIN_WAIT_1''"
| "tcpState_String stateFinWait2 = ''FIN_WAIT_2''"
| "tcpState_String stateCloseWait = ''CLOSE_WAIT''"
| "tcpState_String stateLastAck = ''LAST_ACK''"
| "tcpState_String stateTimeWait = ''TIME_WAIT''"
| "tcpState_String stateClosing = ''CLOSING''"

record FlowID =
  fl_SrcAddr :: Address
  fl_DstAddr :: Address
  fl_SrcPort :: u16
  fl_DstPort :: u16

definition flow_reverse :: "FlowID \<Rightarrow> FlowID" where
  "flow_reverse f = \<lparr>fl_SrcAddr = fl_DstAddr f, fl_DstAddr = fl_SrcAddr f, fl_SrcPort = fl_DstPort f, fl_DstPort = fl_SrcPort f\<rparr>"

section \<open>Configuration\<close>

abbreviation seconds :: "int \<Rightarrow> int" where
  "seconds n \<equiv> n * 1000000000"

abbreviation milliseconds :: "int \<Rightarrow> int" where
  "milliseconds n \<equiv> n * 1000000"

record Config =
  cfg_ReadBufferSize :: nat
  cfg_WriteBufferSize :: nat
  cfg_InitialReadBufferSize :: nat
  cfg_InitialWriteBufferSize :: nat
  cfg_AcceptQueueSize :: nat
  cfg_InboundQueueSize :: nat
  cfg_KeepaliveIdle :: int
  cfg_KeepaliveInterval :: int
  cfg_KeepaliveCount :: int
  cfg_SynRcvdTimeout :: int
  cfg_FinWait2Timeout :: int
  cfg_TimeWaitDuration :: int
  cfg_DelayedACKTimeout :: int
  cfg_MaxZeroWindowProbeInterval :: int
  cfg_MinRTO :: int
  cfg_MaxRTO :: int
  cfg_InitialRTO :: int
  cfg_MaxRetries :: int
  cfg_InitialSSThresh :: u32
  cfg_ReceiveWindowSize :: u16
  cfg_MaxReadBufferSize :: nat

definition defaultConfig :: Config where
  "defaultConfig = \<lparr>cfg_ReadBufferSize = 256 * 1024, cfg_WriteBufferSize = 256 * 1024,
     cfg_InitialReadBufferSize = 32 * 1024, cfg_InitialWriteBufferSize = 32 * 1024,
     cfg_AcceptQueueSize = 16, cfg_InboundQueueSize = 256,
     cfg_KeepaliveIdle = seconds 7200, cfg_KeepaliveInterval = seconds 75, cfg_KeepaliveCount = 9,
     cfg_SynRcvdTimeout = seconds 75, cfg_FinWait2Timeout = seconds 60, cfg_TimeWaitDuration = seconds 120,
     cfg_DelayedACKTimeout = milliseconds 200, cfg_MaxZeroWindowProbeInterval = seconds 60,
     cfg_MinRTO = milliseconds 200, cfg_MaxRTO = seconds 60, cfg_InitialRTO = seconds 1, cfg_MaxRetries = 15,
     cfg_InitialSSThresh = 65535, cfg_ReceiveWindowSize = 65535, cfg_MaxReadBufferSize = 4 * 1024 * 1024\<rparr>"

definition WithReadBufferSize :: "nat \<Rightarrow> Config \<Rightarrow> Config" where
  "WithReadBufferSize n c = c\<lparr>cfg_ReadBufferSize := n\<rparr>"

definition WithWriteBufferSize :: "nat \<Rightarrow> Config \<Rightarrow> Config" where
  "WithWriteBufferSize n c = c\<lparr>cfg_WriteBufferSize := n\<rparr>"

definition WithAcceptQueueSize :: "nat \<Rightarrow> Config \<Rightarrow> Config" where
  "WithAcceptQueueSize n c = c\<lparr>cfg_AcceptQueueSize := n\<rparr>"

definition WithTCPInboundQueueSize :: "nat \<Rightarrow> Config \<Rightarrow> Config" where
  "WithTCPInboundQueueSize n c = c\<lparr>cfg_InboundQueueSize := n\<rparr>"

definition WithKeepaliveIdle :: "int \<Rightarrow> Config \<Rightarrow> Config" where
  "WithKeepaliveIdle d c = c\<lparr>cfg_KeepaliveIdle := d\<rparr>"

definition WithKeepaliveInterval :: "int \<Rightarrow> Config \<Rightarrow> Config" where
  "WithKeepaliveInterval d c = c\<lparr>cfg_KeepaliveInterval := d\<rparr>"

definition WithKeepaliveCount :: "int \<Rightarrow> Config \<Rightarrow> Config" where
  "WithKeepaliveCount n c = c\<lparr>cfg_KeepaliveCount := n\<rparr>"

definition WithSynRcvdTimeout :: "int \<Rightarrow> Config \<Rightarrow> Config" where
  "WithSynRcvdTimeout d c = c\<lparr>cfg_SynRcvdTimeout := d\<rparr>"

definition WithFinWait2Timeout :: "int \<Rightarrow> Config \<Rightarrow> Config" where
  "WithFinWait2Timeout d c = c\<lparr>cfg_FinWait2Timeout := d\<rparr>"

definition WithTimeWaitDuration :: "int \<Rightarrow> Config \<Rightarrow> Config" where
  "WithTimeWaitDuration d c = c\<lparr>cfg_TimeWaitDuration := d\<rparr>"

definition WithDelayedACKTimeout :: "int \<Rightarrow> Config \<Rightarrow> Config" where
  "WithDelayedACKTimeout d c = c\<lparr>cfg_DelayedACKTimeout := d\<rparr>"

definition WithMaxZeroWindowProbeInterval :: "int \<Rightarrow> Config \<Rightarrow> Config" where
  "WithMaxZeroWindowProbeInterval d c = c\<lparr>cfg_MaxZeroWindowProbeInterval := d\<rparr>"

definition WithMinRTO :: "int \<Rightarrow> Config \<Rightarrow> Config" where
  "WithMinRTO d c = c\<lparr>cfg_MinRTO := d\<rparr>"

definition WithMaxRTO :: "int \<Rightarrow> Config \<Rightarrow> Config" where
  "WithMaxRTO d c = c\<lparr>cfg_MaxRTO := d\<rparr>"

definition WithInitialRTO :: "int \<Rightarrow> Config \<Rightarrow> Config" where
  "WithInitialRTO d c = c\<lparr>cfg_InitialRTO := d\<rparr>"

definition WithMaxRetries :: "int \<Rightarrow> Config \<Rightarrow> Config" where
  "WithMaxRetries n c = c\<lparr>cfg_MaxRetries := n\<rparr>"

definition WithInitialSSThresh :: "u32 \<Rightarrow> Config \<Rightarrow> Config" where
  "WithInitialSSThresh n c = c\<lparr>cfg_InitialSSThresh := n\<rparr>"

definition WithReceiveWindowSize :: "u16 \<Rightarrow> Config \<Rightarrow> Config" where
  "WithReceiveWindowSize n c = c\<lparr>cfg_ReceiveWindowSize := n\<rparr>"

definition WithMaxReadBufferSize :: "nat \<Rightarrow> Config \<Rightarrow> Config" where
  "WithMaxReadBufferSize n c = c\<lparr>cfg_MaxReadBufferSize := n\<rparr>"

definition WithInitialReadBufferSize :: "nat \<Rightarrow> Config \<Rightarrow> Config" where
  "WithInitialReadBufferSize n c = c\<lparr>cfg_InitialReadBufferSize := n\<rparr>"

definition WithInitialWriteBufferSize :: "nat \<Rightarrow> Config \<Rightarrow> Config" where
  "WithInitialWriteBufferSize n c = c\<lparr>cfg_InitialWriteBufferSize := n\<rparr>"

section \<open>Statistics\<close>

record TCPStats =
  ts_ActiveConns :: u64
  ts_TotalAccepted :: u64
  ts_TotalClosed :: u64
  ts_TotalReset :: u64
  ts_SegmentsIn :: u64
  ts_SegmentsOut :: u64
  ts_PayloadBytesIn :: u64
  ts_PayloadBytesOut :: u64
  ts_ChecksumErrors :: u64
  ts_DroppedInbound :: u64
  ts_Retransmits :: u64
  ts_FastRetransmits :: u64
  ts_DupACKsIn :: u64
  ts_ResetsSent :: u64
  ts_ResetsReceived :: u64
  ts_ZeroWindowProbes :: u64
  ts_PAWSDrops :: u64
  ts_TimeoutKeepalive :: u64
  ts_TimeoutFinWait2 :: u64
  ts_TimeoutSynRcvd :: u64

definition zero_stats :: TCPStats where
  "zero_stats = \<lparr>ts_ActiveConns = 0, ts_TotalAccepted = 0, ts_TotalClosed = 0, ts_TotalReset = 0, ts_SegmentsIn = 0,
     ts_SegmentsOut = 0, ts_PayloadBytesIn = 0, ts_PayloadBytesOut = 0, ts_ChecksumErrors = 0, ts_DroppedInbound = 0,
     ts_Retransmits = 0, ts_FastRetransmits = 0, ts_DupACKsIn = 0, ts_ResetsSent = 0, ts_ResetsReceived = 0,
     ts_ZeroWindowProbes = 0, ts_PAWSDrops = 0, ts_TimeoutKeepalive = 0, ts_TimeoutFinWait2 = 0, ts_TimeoutSynRcvd = 0\<rparr>"

record ConnSnapshot =
  sn_Flow :: FlowID
  sn_State :: string
  sn_SRTT :: int
  sn_RTO :: int
  sn_Cwnd :: u32
  sn_SSThresh :: u32
  sn_SndWnd :: u32
  sn_SndNxt :: u32
  sn_SndMSS :: int
  sn_SndMaxWnd :: u32
  sn_RcvWnd :: u16
  sn_Unacked :: nat
  sn_OOO :: nat
  sn_ReadBufUsed :: nat
  sn_WriteBufUsed :: nat
  sn_BufCap :: nat
  sn_ReadBufCap :: nat
  sn_WriteBufCap :: nat
  sn_DSACKSeen :: bool
  sn_Retries :: int
  sn_InRecovery :: bool

section \<open>Segments, sender, receiver\<close>

record segment =
  sg_flags :: u8
  sg_seq :: u32
  sg_ack :: u32
  sg_wnd :: u16
  sg_options :: bytes
  sg_payload :: bytes
  sg_tsVal :: u32
  sg_tsEcr :: u32
  sg_hasTS :: bool

record unackedSegment =
  us_seq :: u32
  us_ref :: "RefBuf option"
  us_fin :: bool
  us_sentAt :: int
  us_retransmitted :: bool
  us_sacked :: bool

record sender =
  snd_iss :: u32
  snd_nxt :: u32
  snd_una :: u32
  snd_wnd :: u32
  snd_mss :: int
  snd_rto :: int
  snd_srtt :: int
  snd_rttvar :: int
  snd_minRTO :: int
  snd_maxRTO :: int
  snd_unacked :: "unackedSegment list"
  snd_retries :: int
  snd_maxRetries :: int
  snd_cwnd :: u32
  snd_ssthresh :: u32
  snd_dupACKCount :: int
  snd_inRecovery :: bool
  snd_recoveryPoint :: u32
  snd_dsackSeen :: bool
  snd_maxWnd :: u32

record oooSegment =
  oo_seq :: u32
  oo_data :: bytes

record autoTune =
  at_measureStart :: "int option"
  at_bytesDelivered :: nat
  at_readBufSize :: nat
  at_maxBufSize :: nat

record receiver =
  rcv_irs :: u32
  rcv_nxt :: u32
  rcv_ooo :: "oooSegment list"
  rcv_finReceived :: bool
  rcv_finSeq :: u32
  rcv_dsackBlock :: SACKBlock
  rcv_hasDSACKBlock :: bool
  rcv_autoTune :: autoTune

section \<open>The connection\<close>

text \<open>What a connection does outside of itself: a packet or an offload buffer for the stack, or itself for the accept queue.\<close>

datatype conn_out = OutPacket PacketBuffer | OutGSO bytes nat PacketOptions | OutAccept

record ConnConfig =
  cc_keepaliveIdle :: int
  cc_keepaliveInterval :: int
  cc_keepaliveCount :: int
  cc_finWait2Timeout :: int
  cc_synRcvdTimeout :: int
  cc_timeWaitDuration :: int
  cc_delayedACKTimeout :: int
  cc_maxZWPInterval :: int
  cc_rcvWndSize :: u16
  cc_minRTO :: int
  cc_maxRTO :: int
  cc_initialRTO :: int
  cc_maxRetries :: int
  cc_initialSSThresh :: u32
  cc_maxReadBufSize :: nat
  cc_readBufSize :: nat
  cc_writeBufSize :: nat

record TCPConn =
  c_flow :: FlowID
  c_state :: tcpState
  c_iss :: u32
  c_irs :: u32
  c_sndWndScale :: u8
  c_rcvWndScale :: u8
  c_sackPermitted :: bool
  c_peerMSS :: u16
  c_tsEnabled :: bool
  c_tsRecent :: u32
  c_tsLastAckSent :: u32
  c_tsOffset :: u32
  c_noDelay :: bool
  c_delayedACKTimer :: "int option"
  c_unackedSegs :: int
  c_zeroWindowTimer :: "int option"
  c_zeroWindowProbing :: bool
  c_probeInterval :: int
  c_keepaliveTimer :: "int option"
  c_keepaliveProbes :: int
  c_writeShutdown :: bool
  c_readShutdown :: bool
  c_finPending :: bool
  c_snd :: "sender option"
  c_rcv :: "receiver option"
  c_readBuf :: ringBuffer
  c_writeBuf :: ringBuffer
  c_writeNotify :: bool
  c_windowNotify :: bool
  c_lastWndZero :: bool
  c_inbound :: "PacketBuffer list"
  c_inboundCap :: nat
  c_done :: bool
  c_closeOnce :: bool
  c_closeReadOnce :: bool
  c_closeCh :: bool
  c_forceCloseCh :: bool
  c_timeWaitTimer :: "int option"
  c_finWait2Timer :: "int option"
  c_synRcvdTimer :: "int option"
  c_rtoTimer :: "int option"
  c_stats :: "TCPStats option"
  c_statsActive :: bool
  c_snapshotData :: "ConnSnapshot option"
  c_cfg :: ConnConfig
  c_out :: "conn_out list"

text \<open>
  What a connection sees of its handler and of the system while it handles one event: the time, the MTU
  of the stack, the offload capability of the channel, the timestamp clock, and the arrays the packet and
  payload pools return, by the number of calls made before.
\<close>

record env =
  e_now :: int
  e_mtu :: int
  e_gso :: bool
  e_gsoMaxSize :: int
  e_tsOffset :: u32
  e_tsEpoch :: int
  e_packets :: "nat \<Rightarrow> bytes"
  e_payloads :: "nat \<Rightarrow> bytes"
  e_gsoBufs :: "nat \<Rightarrow> bytes"

definition tcp_now :: "env \<Rightarrow> u32" where
  "tcp_now e = word_of_int ((e_now e - e_tsEpoch e) div 1000000) + e_tsOffset e"

definition tcp_count :: "(TCPStats \<Rightarrow> TCPStats) \<Rightarrow> TCPConn \<Rightarrow> TCPConn" where
  "tcp_count f c = c\<lparr>c_stats := map_option f (c_stats c)\<rparr>"

end
