(* ===== verification/TcpSegment.thy ===== *)
theory TcpSegment
  imports TcpTypes IPv4
begin

text \<open>
  Segments on the wire: \<open>src/transport/tcp/segment.go\<close>, the keepalive probe of \<open>conn.go\<close>, and what they need of
  the receiver (\<open>rcvWnd\<close>, \<open>wnd\<close> and \<open>sackBlocks\<close> of \<open>rcv.go\<close>).
\<close>

section \<open>Parsing\<close>

definition pb_bytes :: "PacketBuffer \<Rightarrow> bytes go" where
  "pb_bytes pb = (case pb_Data pb of None \<Rightarrow> Some [] | Some v \<Rightarrow> view_bytes pb v)"

definition parseSeg :: "PacketBuffer \<Rightarrow> segment go" where
  "parseSeg pb = do {
     d \<leftarrow> pb_bytes pb;
     off \<leftarrow> TCP_DataOffset d;
     let dataOffset = unat off;
     let payload = (if dataOffset < length d then drop dataOffset d else []);
     flags \<leftarrow> TCP_Flags d;
     seq \<leftarrow> TCP_SequenceNumber d;
     ack \<leftarrow> TCP_AckNumber d;
     wnd \<leftarrow> TCP_WindowSize d;
     options \<leftarrow> TCP_Options d;
     Some \<lparr>sg_flags = flags, sg_seq = seq, sg_ack = ack, sg_wnd = wnd, sg_options = options, sg_payload = payload,
           sg_tsVal = 0, sg_tsEcr = 0, sg_hasTS = False\<rparr> }"

section \<open>What the receiver advertises\<close>

definition rcvWnd :: "TCPConn \<Rightarrow> u32 go" where
  "rcvWnd c = do { free \<leftarrow> Free (c_readBuf c); Some (of_nat free) }"

definition rcv_wnd :: "TCPConn \<Rightarrow> u16 go" where
  "rcv_wnd c = do {
     free \<leftarrow> Free (c_readBuf c);
     let mss = (case c_snd c of None \<Rightarrow> 536 | Some s \<Rightarrow> snd_mss s);
     let threshold = min mss (int (Cap (c_readBuf c) div 2));
     if int free < threshold then Some 0
     else do {
       let scaled = free div 2 ^ unat (c_rcvWndScale c);
       Some (if scaled > 0xFFFF then 0xFFFF else of_nat scaled) } }"

definition oo_end :: "oooSegment \<Rightarrow> u32" where
  "oo_end e = oo_seq e + of_nat (length (oo_data e))"

text \<open>The loop that joins neighbouring out-of-order segments into ranges.\<close>

fun sack_ranges :: "SACKBlock \<Rightarrow> oooSegment list \<Rightarrow> SACKBlock list" where
  "sack_ranges cur [] = [cur]"
| "sack_ranges cur (e # es) =
     (if oo_seq e \<le> sb_End cur
      then sack_ranges (if oo_end e > sb_End cur then cur\<lparr>sb_End := oo_end e\<rparr> else cur) es
      else cur # sack_ranges \<lparr>sb_Start = oo_seq e, sb_End = oo_end e\<rparr> es)"

definition sackBlocks :: "bool \<Rightarrow> receiver \<Rightarrow> SACKBlock list \<times> receiver" where
  "sackBlocks tsEnabled r =
     (let hasDSACK = rcv_hasDSACKBlock r in
      if rcv_ooo r = [] \<and> \<not> hasDSACK then ([], r)
      else
        let maxBlocks = (if tsEnabled then 3 else 4);
            blocks = (if hasDSACK then [rcv_dsackBlock r] else []);
            r = (if hasDSACK then r\<lparr>rcv_hasDSACKBlock := False, rcv_dsackBlock := \<lparr>sb_Start = 0, sb_End = 0\<rparr>\<rparr> else r)
        in case rcv_ooo r of
             [] \<Rightarrow> (blocks, r)
           | e # es \<Rightarrow>
               let ranges = sack_ranges \<lparr>sb_Start = oo_seq e, sb_End = oo_end e\<rparr> es;
                   remaining = maxBlocks - length blocks
               in (blocks @ take remaining (rev ranges), r))"

section \<open>Options\<close>

text \<open>An encoder applied to \<open>optBuf[optLen:]\<close>.\<close>

definition add_option :: "(bytes \<Rightarrow> (bytes \<times> nat) go) \<Rightarrow> bytes \<times> nat \<Rightarrow> (bytes \<times> nat) go" where
  "add_option enc = (\<lambda>(optBuf, optLen). do {
     rest \<leftarrow> slice_from optBuf optLen;
     (rest, n) \<leftarrow> enc rest;
     Some (take optLen optBuf @ rest, optLen + n) })"

definition add_nop :: "bytes \<times> nat \<Rightarrow> (bytes \<times> nat) go" where
  "add_nop = (\<lambda>(optBuf, optLen). do { optBuf \<leftarrow> store optBuf optLen 1; Some (optBuf, optLen + 1) })"

text \<open>The loop that pads to a multiple of four: it runs at most three times.\<close>

definition pad_options :: "bytes \<times> nat \<Rightarrow> (bytes \<times> nat) go" where
  "pad_options o0 = do {
     o1 \<leftarrow> (if snd o0 mod 4 \<noteq> 0 then add_nop o0 else Some o0);
     o2 \<leftarrow> (if snd o1 mod 4 \<noteq> 0 then add_nop o1 else Some o1);
     (if snd o2 mod 4 \<noteq> 0 then add_nop o2 else Some o2) }"

definition ts_option :: "env \<Rightarrow> TCPConn \<Rightarrow> bytes \<times> nat \<Rightarrow> (bytes \<times> nat) go" where
  "ts_option e c ob = (if c_tsEnabled c then add_option (\<lambda>b. EncodeTimestampOption b (tcp_now e) (c_tsRecent c)) ob else Some ob)"

definition used_options :: "bytes \<times> nat \<Rightarrow> bytes go" where
  "used_options ob = subslice (fst ob) 0 (snd ob)"

definition synack_options :: "env \<Rightarrow> TCPConn \<Rightarrow> bytes go" where
  "synack_options e c = do {
     let mss = word_of_int (e_mtu e - int IPv4MinHeaderSize - int TCPMinHeaderSize);
     ob \<leftarrow> add_option (\<lambda>b. EncodeMSSOption b mss) (replicate 24 0, 0);
     ob \<leftarrow> (if c_rcvWndScale c > 0 then do {
              ob \<leftarrow> add_nop ob;
              add_option (\<lambda>b. EncodeWSOption b (uint (c_rcvWndScale c))) ob }
            else Some ob);
     ob \<leftarrow> (if c_sackPermitted c then add_option EncodeSACKPermittedOption ob else Some ob);
     ob \<leftarrow> ts_option e c ob;
     ob \<leftarrow> pad_options ob;
     used_options ob }"

text \<open>The options of an acknowledgement with the given SACK blocks, and those of any other segment.\<close>

definition ack_options :: "env \<Rightarrow> TCPConn \<Rightarrow> SACKBlock list \<Rightarrow> bytes go" where
  "ack_options e c blocks = do {
     ob \<leftarrow> ts_option e c (replicate 48 0, 0);
     ob \<leftarrow> (if blocks \<noteq> [] then add_option (\<lambda>b. EncodeSACKBlocks b blocks) ob else Some ob);
     ob \<leftarrow> pad_options ob;
     used_options ob }"

definition data_options :: "env \<Rightarrow> TCPConn \<Rightarrow> bytes go" where
  "data_options e c = do { ob \<leftarrow> ts_option e c (replicate 12 0, 0); used_options ob }"

section \<open>Building a packet\<close>

text \<open>
  The header slice \<open>v\<close> that \<open>Prepend\<close> returned is extended to \<open>tcpLen\<close> bytes for the checksum, over the payload
  that follows it in the same array.
\<close>

definition setTCPChecksum :: "PacketBuffer \<Rightarrow> view \<Rightarrow> Address \<Rightarrow> Address \<Rightarrow> u16 \<Rightarrow> PacketBuffer go" where
  "setTCPChecksum pb v src dst tcpLen = do {
     pb \<leftarrow> update_view pb v (\<lambda>hdr. TCP_SetChecksum hdr 0);
     partial \<leftarrow> PseudoHeaderChecksum TCPProtocolNumber src dst tcpLen;
     b \<leftarrow> view_bytes pb (fst v, unat tcpLen);
     update_view pb v (\<lambda>hdr. TCP_SetChecksum hdr (Checksum b partial)) }"

definition setTCPPartialChecksum :: "bytes \<Rightarrow> Address \<Rightarrow> Address \<Rightarrow> u16 \<Rightarrow> bytes go" where
  "setTCPPartialChecksum hdr src dst tcpLen = do {
     partial \<leftarrow> PseudoHeaderChecksum TCPProtocolNumber src dst tcpLen;
     TCP_SetChecksum hdr partial }"

text \<open>
  The statements all senders share: a packet buffer, the payload if there is one, the header in front of it,
  the options and the checksum. \<open>f\<close> is the literal passed to \<open>Encode\<close>.
\<close>

definition tcp_packet :: "bytes \<Rightarrow> bytes option \<Rightarrow> TCPFields \<Rightarrow> bytes \<Rightarrow> Address \<Rightarrow> Address \<Rightarrow> PacketBuffer go" where
  "tcp_packet arr payload f opts src dst = do {
     let hdrSize = TCPMinHeaderSize + length opts;
     let tcpLen = of_nat (hdrSize + (case payload of None \<Rightarrow> 0 | Some d \<Rightarrow> length d));
     let pb = NewPacketBuffer arr MaxHeadroom;
     pb \<leftarrow> (case payload of None \<Rightarrow> Some pb | Some d \<Rightarrow> AppendData pb d);
     (pb, v) \<leftarrow> Prepend pb hdrSize;
     pb \<leftarrow> update_view pb v (\<lambda>hdr. TCP_Encode hdr f);
     pb \<leftarrow> update_view pb v (\<lambda>hdr. copy_at hdr TCPMinHeaderSize opts);
     setTCPChecksum pb v src dst tcpLen }"

abbreviation tcp_literal :: "u16 \<Rightarrow> u16 \<Rightarrow> u32 \<Rightarrow> u32 \<Rightarrow> nat \<Rightarrow> u8 \<Rightarrow> u16 \<Rightarrow> TCPFields" where
  "tcp_literal sp dp seq ack hdrSize flags wnd \<equiv> \<lparr>tcp_SrcPort = sp, tcp_DstPort = dp, tcp_SeqNum = seq, tcp_AckNum = ack,
     tcp_DataOffset = of_nat (hdrSize div 4), tcp_Flags = flags, tcp_WindowSize = wnd, tcp_Checksum = 0, tcp_UrgentPointer = 0\<rparr>"

text \<open>A packet of the connection \<open>c\<close> to its peer.\<close>

definition conn_packet :: "env \<Rightarrow> TCPConn \<Rightarrow> bytes option \<Rightarrow> u32 \<Rightarrow> u32 \<Rightarrow> u8 \<Rightarrow> u16 \<Rightarrow> bytes \<Rightarrow> PacketBuffer go" where
  "conn_packet e c payload seq ack flags wnd opts =
     tcp_packet (e_packets e (length (c_out c))) payload
       (tcp_literal (fl_DstPort (c_flow c)) (fl_SrcPort (c_flow c)) seq ack (TCPMinHeaderSize + length opts) flags wnd)
       opts (fl_DstAddr (c_flow c)) (fl_SrcAddr (c_flow c))"

definition emit :: "conn_out \<Rightarrow> TCPConn \<Rightarrow> TCPConn" where
  "emit x c = c\<lparr>c_out := c_out c @ [x]\<rparr>"

abbreviation segment_out :: "nat \<Rightarrow> TCPStats \<Rightarrow> TCPStats" where
  "segment_out n st \<equiv> st\<lparr>ts_SegmentsOut := ts_SegmentsOut st + 1, ts_PayloadBytesOut := ts_PayloadBytesOut st + of_nat n\<rparr>"

definition updateTSLastAckSent :: "TCPConn \<Rightarrow> TCPConn" where
  "updateTSLastAckSent c =
     (case c_rcv c of None \<Rightarrow> c | Some r \<Rightarrow> if c_tsEnabled c then c\<lparr>c_tsLastAckSent := rcv_nxt r\<rparr> else c)"

section \<open>Sending\<close>

definition sendSYNACK :: "env \<Rightarrow> TCPConn \<Rightarrow> TCPConn go" where
  "sendSYNACK e c = do {
     opts \<leftarrow> synack_options e c;
     pb \<leftarrow> conn_packet e c None (c_iss c) (c_irs c + 1) (TCPFlagSYN OR TCPFlagACK) (cc_rcvWndSize (c_cfg c)) opts;
     Some (emit (OutPacket pb) (tcp_count (segment_out 0) c)) }"

text \<open>The sequence number, acknowledgement number and window of a segment without data.\<close>

definition ack_numbers :: "TCPConn \<Rightarrow> (u32 \<times> u32 \<times> u16) go" where
  "ack_numbers c = do {
     let seqNum = (case c_snd c of None \<Rightarrow> c_iss c + 1 | Some s \<Rightarrow> snd_nxt s);
     (case c_rcv c of
        None \<Rightarrow> Some (seqNum, c_irs c + 1, cc_rcvWndSize (c_cfg c))
      | Some r \<Rightarrow> do { wnd \<leftarrow> rcv_wnd c; Some (seqNum, rcv_nxt r, wnd) }) }"

definition sendACK :: "env \<Rightarrow> TCPConn \<Rightarrow> TCPConn go" where
  "sendACK e c = do {
     (seqNum, ackNum, wnd) \<leftarrow> ack_numbers c;
     let (blocks, c) = (case c_rcv c of
         Some r \<Rightarrow> if c_sackPermitted c then let (blocks, r) = sackBlocks (c_tsEnabled c) r in (blocks, c\<lparr>c_rcv := Some r\<rparr>)
                  else ([], c)
       | None \<Rightarrow> ([], c));
     opts \<leftarrow> ack_options e c blocks;
     pb \<leftarrow> conn_packet e c None seqNum ackNum TCPFlagACK wnd opts;
     let c = emit (OutPacket pb) (tcp_count (segment_out 0) c);
     Some ((updateTSLastAckSent c)\<lparr>c_lastWndZero := (wnd = 0)\<rparr>) }"

definition sendData :: "env \<Rightarrow> TCPConn \<Rightarrow> bytes \<Rightarrow> u32 \<Rightarrow> TCPConn go" where
  "sendData e c d seq = do {
     opts \<leftarrow> data_options e c;
     r \<leftarrow> c_rcv c;
     wnd \<leftarrow> rcv_wnd c;
     pb \<leftarrow> conn_packet e c (Some d) seq (rcv_nxt r) TCPFlagACK wnd opts;
     let c = emit (OutPacket pb) (tcp_count (segment_out (length d)) c);
     Some ((updateTSLastAckSent c)\<lparr>c_lastWndZero := (wnd = 0)\<rparr>) }"

definition gsoDataOffset :: "TCPConn \<Rightarrow> nat" where
  "gsoDataOffset c = IPv4MinHeaderSize + TCPMinHeaderSize + (if c_tsEnabled c then 12 else 0)"

definition sendDataGSO :: "env \<Rightarrow> TCPConn \<Rightarrow> bytes \<Rightarrow> nat \<Rightarrow> u32 \<Rightarrow> TCPConn go" where
  "sendDataGSO e c buf dataLen seq = do {
     opts \<leftarrow> data_options e c;
     let tcpHdrSize = TCPMinHeaderSize + length opts;
     let totalLen = IPv4MinHeaderSize + tcpHdrSize + dataLen;
     tcpBuf \<leftarrow> subslice buf IPv4MinHeaderSize (IPv4MinHeaderSize + tcpHdrSize);
     r \<leftarrow> c_rcv c;
     wnd \<leftarrow> rcv_wnd c;
     tcpBuf \<leftarrow> TCP_Encode tcpBuf (tcp_literal (fl_DstPort (c_flow c)) (fl_SrcPort (c_flow c)) seq (rcv_nxt r) tcpHdrSize
                 TCPFlagACK wnd);
     tcpBuf \<leftarrow> copy_at tcpBuf TCPMinHeaderSize opts;
     tcpBuf \<leftarrow> setTCPPartialChecksum tcpBuf (fl_DstAddr (c_flow c)) (fl_SrcAddr (c_flow c)) (of_nat (tcpHdrSize + dataLen));
     buf \<leftarrow> copy_at buf IPv4MinHeaderSize tcpBuf;
     s \<leftarrow> c_snd c;
     let opts = \<lparr>po_GSOType = GSOTCPv4, po_GSOSize = word_of_int (snd_mss s), po_HdrLen = of_nat (IPv4MinHeaderSize + tcpHdrSize),
                 po_CsumStart = of_nat IPv4MinHeaderSize, po_CsumOffset = 16\<rparr>;
     let c = emit (OutGSO buf totalLen opts) (tcp_count (segment_out dataLen) c);
     Some ((updateTSLastAckSent c)\<lparr>c_lastWndZero := (wnd = 0)\<rparr>) }"

definition sendFINSegment :: "env \<Rightarrow> TCPConn \<Rightarrow> u32 \<Rightarrow> TCPConn go" where
  "sendFINSegment e c seq = do {
     (_, ackNum, wnd) \<leftarrow> ack_numbers c;
     opts \<leftarrow> data_options e c;
     pb \<leftarrow> conn_packet e c None seq ackNum (TCPFlagFIN OR TCPFlagACK) wnd opts;
     Some (updateTSLastAckSent (emit (OutPacket pb) (tcp_count (segment_out 0) c))) }"

definition sendRSTSegment :: "env \<Rightarrow> TCPConn \<Rightarrow> u32 \<Rightarrow> TCPConn go" where
  "sendRSTSegment e c seqNum = do {
     pb \<leftarrow> conn_packet e c None seqNum 0 TCPFlagRST 0 [];
     Some (emit (OutPacket pb) (tcp_count (\<lambda>st. (segment_out 0 st)\<lparr>ts_ResetsSent := ts_ResetsSent st + 1\<rparr>) c)) }"

definition sendKeepaliveProbe :: "env \<Rightarrow> TCPConn \<Rightarrow> TCPConn go" where
  "sendKeepaliveProbe e c =
     (case (c_snd c, c_rcv c) of
        (Some s, Some r) \<Rightarrow> do {
          opts \<leftarrow> data_options e c;
          wnd \<leftarrow> rcv_wnd c;
          pb \<leftarrow> conn_packet e c None (snd_una s - 1) (rcv_nxt r) TCPFlagACK wnd opts;
          Some (updateTSLastAckSent (emit (OutPacket pb) c)) }
      | _ \<Rightarrow> Some c)"

text \<open>\<open>TCPHandler.sendRST\<close>: the packet that answers the unexpected segment in \<open>pb\<close>, with its addresses.\<close>

definition reset_packet :: "bytes \<Rightarrow> PacketBuffer \<Rightarrow> (PacketBuffer \<times> Address \<times> Address) go" where
  "reset_packet arr pb = do {
     nh \<leftarrow> pb_NetworkHeader pb;
     ipHdr \<leftarrow> view_bytes pb nh;
     tcpHdr \<leftarrow> pb_bytes pb;
     srcAddr \<leftarrow> IPv4_DestinationAddress ipHdr;
     dstAddr \<leftarrow> IPv4_SourceAddress ipHdr;
     fl \<leftarrow> TCP_Flags tcpHdr;
     (seqNum, ackNum, flags) \<leftarrow>
       (if Has fl TCPFlagACK then do { a \<leftarrow> TCP_AckNumber tcpHdr; Some (a, 0, TCPFlagRST) }
        else do {
          off \<leftarrow> TCP_DataOffset tcpHdr;
          let segLen = of_nat (length tcpHdr) - ucast off;
          let segLen = (if Has fl TCPFlagSYN then segLen + 1 else segLen);
          sq \<leftarrow> TCP_SequenceNumber tcpHdr;
          Some (0, sq + segLen, TCPFlagRST OR TCPFlagACK) });
     dp \<leftarrow> TCP_DestinationPort tcpHdr;
     sp \<leftarrow> TCP_SourcePort tcpHdr;
     rst \<leftarrow> tcp_packet arr None (tcp_literal dp sp seqNum ackNum TCPMinHeaderSize flags 0) [] srcAddr dstAddr;
     Some (rst, srcAddr, dstAddr) }"

end
