(* ===== verification/TcpReceiver.thy ===== *)
theory TcpReceiver
  imports TcpSegment
begin

text \<open>
  The receive side of a connection: \<open>src/transport/tcp/rcv.go\<close>, with \<open>processFIN\<close> of \<open>conn.go\<close>, which the
  receiver calls when a deferred FIN becomes due.
\<close>

section \<open>Construction\<close>

definition newReceiver :: "u32 \<Rightarrow> ringBuffer \<Rightarrow> nat \<Rightarrow> nat \<Rightarrow> receiver" where
  "newReceiver irs readBuf readBufSize maxBufSize =
     (let cap = Cap readBuf;
          tuned = readBufSize > cap \<or> maxBufSize > cap
      in \<lparr>rcv_irs = irs, rcv_nxt = irs + 1, rcv_ooo = [], rcv_finReceived = False, rcv_finSeq = 0,
          rcv_dsackBlock = \<lparr>sb_Start = 0, sb_End = 0\<rparr>, rcv_hasDSACKBlock = False,
          rcv_autoTune = \<lparr>at_measureStart = None, at_bytesDelivered = 0,
            at_readBufSize = (if tuned then readBufSize else 0), at_maxBufSize = (if tuned then maxBufSize else 0)\<rparr>\<rparr>)"

definition set_rcv :: "receiver \<Rightarrow> TCPConn \<Rightarrow> TCPConn" where
  "set_rcv r c = c\<lparr>c_rcv := Some r\<rparr>"

section \<open>Delivery and the growth of the read buffer\<close>

definition autoTuneCheck :: "env \<Rightarrow> TCPConn \<Rightarrow> TCPConn go" where
  "autoTuneCheck e c = do {
     r \<leftarrow> c_rcv c;
     let a = rcv_autoTune r;
     let curCap = Cap (c_readBuf c);
     rb \<leftarrow> (if at_readBufSize a > 0 \<and> curCap < at_readBufSize a then
              (if at_bytesDelivered a > 0 \<and> curCap < at_readBufSize a
               then Grow (c_readBuf c) (min (curCap * 2) (at_readBufSize a)) else Some (c_readBuf c))
            else
              (if at_bytesDelivered a > curCap div 2 \<and> curCap < at_maxBufSize a
               then Grow (c_readBuf c) (min (curCap * 2) (at_maxBufSize a)) else Some (c_readBuf c)));
     Some (set_rcv (r\<lparr>rcv_autoTune := a\<lparr>at_measureStart := Some (e_now e), at_bytesDelivered := 0\<rparr>\<rparr>)
             (c\<lparr>c_readBuf := rb\<rparr>)) }"

definition senderSRTT :: "TCPConn \<Rightarrow> int" where
  "senderSRTT c = (case c_snd c of None \<Rightarrow> 0 | Some s \<Rightarrow> snd_srtt s)"

definition autoTuneAccumulate :: "env \<Rightarrow> nat \<Rightarrow> TCPConn \<Rightarrow> TCPConn go" where
  "autoTuneAccumulate e n c = do {
     r \<leftarrow> c_rcv c;
     let a = rcv_autoTune r;
     if at_maxBufSize a = 0 \<and> at_readBufSize a = 0 then Some c
     else do {
       let start = (case at_measureStart a of None \<Rightarrow> e_now e | Some t \<Rightarrow> t);
       let a = a\<lparr>at_measureStart := Some start, at_bytesDelivered := at_bytesDelivered a + n\<rparr>;
       let c = set_rcv (r\<lparr>rcv_autoTune := a\<rparr>) c;
       let srtt = senderSRTT c;
       if srtt \<le> 0 then Some c
       else if e_now e - start < srtt then Some c
       else autoTuneCheck e c } }"

definition deliver :: "env \<Rightarrow> TCPConn \<Rightarrow> bytes \<Rightarrow> (TCPConn \<times> nat) go" where
  "deliver e c d = do {
     (rb, n) \<leftarrow> WriteNoBlock (c_readBuf c) d;
     let c = c\<lparr>c_readBuf := rb\<rparr>;
     c \<leftarrow> (if n > 0 then autoTuneAccumulate e n c else Some c);
     Some (c, n) }"

section \<open>Out-of-order segments\<close>

definition dsack :: "u32 \<Rightarrow> u32 \<Rightarrow> receiver \<Rightarrow> receiver" where
  "dsack start end r = r\<lparr>rcv_dsackBlock := \<lparr>sb_Start = start, sb_End = end\<rparr>, rcv_hasDSACKBlock := True\<rparr>"

text \<open>The loop that absorbs the segments following the one at the insertion point.\<close>

fun merge_next :: "oooSegment \<Rightarrow> oooSegment list \<Rightarrow> oooSegment list go" where
  "merge_next cur [] = Some [cur]"
| "merge_next cur (nx # rest) =
     (if seqLessThan (oo_end cur) (oo_seq nx) then Some (cur # nx # rest)
      else do {
        cur \<leftarrow> (if seqGreaterThan (oo_end nx) (oo_end cur) then do {
                  d \<leftarrow> slice_from (oo_data nx) (unat (oo_end cur - oo_seq nx));
                  Some (cur\<lparr>oo_data := oo_data cur @ d\<rparr>) }
                else Some cur);
        merge_next cur rest })"

text \<open>Merging with the preceding segment: the insertion point and the segment to put there.\<close>

definition merge_prev :: "oooSegment list \<Rightarrow> nat \<Rightarrow> u32 \<Rightarrow> bytes \<Rightarrow> (nat \<times> oooSegment) go" where
  "merge_prev ooo i seq saved =
     (let new = \<lparr>oo_seq = seq, oo_data = saved\<rparr> in
      if i > 0 then
        let prev = ooo ! (i - 1); prevEnd = oo_end prev in
        if \<not> seqLessThan prevEnd seq then do {
          prev \<leftarrow> (if seqGreaterThan (oo_end new) prevEnd then do {
                     d \<leftarrow> slice_from saved (unat (prevEnd - seq));
                     Some (prev\<lparr>oo_data := oo_data prev @ d\<rparr>) }
                   else Some prev);
          Some (i - 1, prev) }
        else Some (i, new)
      else Some (i, new))"

definition insertOOO :: "receiver \<Rightarrow> u32 \<Rightarrow> bytes \<Rightarrow> receiver go" where
  "insertOOO r seq d =
     (let ooo = rcv_ooo r; origEnd = seq + of_nat (length d) in
      if list_ex (\<lambda>entry. \<not> seqLessThan seq (oo_seq entry) \<and> \<not> seqGreaterThan origEnd (oo_end entry)) ooo
      then Some (dsack seq origEnd r)
      else do {
        let i = length (takeWhile (\<lambda>entry. seqLessThan (oo_seq entry) seq) ooo);
        (i, cur) \<leftarrow> merge_prev ooo i seq d;
        let rest = (if i < length ooo \<and> oo_seq (ooo ! i) = oo_seq cur then drop (i + 1) ooo else drop i ooo);
        merged \<leftarrow> merge_next cur rest;
        Some (r\<lparr>rcv_ooo := take i ooo @ merged\<rparr>) })"

section \<open>Incoming data\<close>

definition cancelDelayedACK :: "TCPConn \<Rightarrow> TCPConn" where
  "cancelDelayedACK c = c\<lparr>c_delayedACKTimer := None\<rparr>"

definition processFIN :: "env \<Rightarrow> TCPConn \<Rightarrow> TCPConn go" where
  "processFIN e c = do {
     r \<leftarrow> c_rcv c;
     let c = cancelDelayedACK (set_rcv (r\<lparr>rcv_nxt := rcv_nxt r + 1\<rparr>) c);
     c \<leftarrow> sendACK e c;
     let c = (if \<not> c_readShutdown c then c\<lparr>c_readBuf := CloseWrite (c_readBuf c)\<rparr> else c);
     Some (c\<lparr>c_state := stateCloseWait\<rparr>) }"

abbreviation payload_in :: "nat \<Rightarrow> TCPConn \<Rightarrow> TCPConn" where
  "payload_in n \<equiv> tcp_count (\<lambda>st. st\<lparr>ts_PayloadBytesIn := ts_PayloadBytesIn st + of_nat n\<rparr>)"

text \<open>\<open>deliver\<close>, the byte counter and the advance of \<open>nxt\<close>, as both callers do it.\<close>

definition deliver_advance :: "env \<Rightarrow> TCPConn \<Rightarrow> bytes \<Rightarrow> (TCPConn \<times> nat) go" where
  "deliver_advance e c d = do {
     (c, n) \<leftarrow> deliver e c d;
     let c = (if n > 0 then payload_in n c else c);
     r \<leftarrow> c_rcv c;
     Some (set_rcv (r\<lparr>rcv_nxt := rcv_nxt r + of_nat n\<rparr>) c, n) }"

text \<open>The loop of \<open>deliverOOO\<close>: the argument list is what is left of \<open>r.ooo\<close>.\<close>

fun deliverOOO_loop :: "env \<Rightarrow> TCPConn \<Rightarrow> oooSegment list \<Rightarrow> TCPConn go" where
  "deliverOOO_loop e c [] = do { r \<leftarrow> c_rcv c; Some (set_rcv (r\<lparr>rcv_ooo := []\<rparr>) c) }"
| "deliverOOO_loop e c (seg # rest) = do {
     r \<leftarrow> c_rcv c;
     if seqGreaterThan (oo_seq seg) (rcv_nxt r) then Some (set_rcv (r\<lparr>rcv_ooo := seg # rest\<rparr>) c)
     else if seqLessThan (oo_seq seg) (rcv_nxt r) \<and> rcv_nxt r - oo_seq seg \<ge> of_nat (length (oo_data seg))
     then deliverOOO_loop e c rest
     else do {
       d \<leftarrow> (if seqLessThan (oo_seq seg) (rcv_nxt r) then slice_from (oo_data seg) (unat (rcv_nxt r - oo_seq seg))
             else Some (oo_data seg));
       let seq = (if seqLessThan (oo_seq seg) (rcv_nxt r) then rcv_nxt r else oo_seq seg);
       (c, n) \<leftarrow> deliver_advance e c d;
       if n < length d then do {
         r \<leftarrow> c_rcv c;
         Some (set_rcv (r\<lparr>rcv_ooo := \<lparr>oo_seq = seq + of_nat n, oo_data = drop n d\<rparr> # rest\<rparr>) c) }
       else deliverOOO_loop e c rest } }"

definition deliverOOO :: "env \<Rightarrow> TCPConn \<Rightarrow> TCPConn go" where
  "deliverOOO e c = do {
     r \<leftarrow> c_rcv c;
     c \<leftarrow> deliverOOO_loop e c (rcv_ooo r);
     r \<leftarrow> c_rcv c;
     if rcv_finReceived r \<and> rcv_nxt r = rcv_finSeq r
     then processFIN e (set_rcv (r\<lparr>rcv_finReceived := False\<rparr>) c)
     else Some c }"

text \<open>The part of \<open>handleData\<close> after the segment was trimmed to the receive window.\<close>

definition handleData_trimmed :: "env \<Rightarrow> TCPConn \<Rightarrow> u32 \<Rightarrow> bytes \<Rightarrow> TCPConn go" where
  "handleData_trimmed e c seq d = do {
     r \<leftarrow> c_rcv c;
     if c_readShutdown c then
       Some (if seq = rcv_nxt r then set_rcv (r\<lparr>rcv_nxt := rcv_nxt r + of_nat (length d)\<rparr>) c else c)
     else if seq = rcv_nxt r then do {
       (c, n) \<leftarrow> deliver_advance e c d;
       if n > 0 then deliverOOO e c else Some c }
     else if seqGreaterThan seq (rcv_nxt r) then do { r \<leftarrow> insertOOO r seq d; Some (set_rcv r c) }
     else Some c }"

definition handleData :: "env \<Rightarrow> TCPConn \<Rightarrow> u32 \<Rightarrow> bytes \<Rightarrow> TCPConn go" where
  "handleData e c seq d =
     (if d = [] then Some c
      else do {
        r \<leftarrow> c_rcv c;
        let nxt = rcv_nxt r;
        if seqLessThan seq nxt \<and> nxt - seq \<ge> of_nat (length d)
        then Some (set_rcv (dsack seq (seq + of_nat (length d)) r) c)
        else do {
          d \<leftarrow> (if seqLessThan seq nxt then slice_from d (unat (nxt - seq)) else Some d);
          let seq = (if seqLessThan seq nxt then nxt else seq);
          wnd \<leftarrow> rcvWnd c;
          if wnd = 0 then Some c
          else do {
            let wndEnd = nxt + wnd;
            let segEnd = seq + of_nat (length d);
            if \<not> seqLessThan seq wndEnd then Some c
            else do {
              d \<leftarrow> (if seqGreaterThan segEnd wndEnd then subslice d 0 (unat (wndEnd - seq)) else Some d);
              handleData_trimmed e c seq d } } } })"

end
