(* ===== verification/TcpSegProps.thy ===== *)
theory TcpSegProps
  imports TcpSegment
begin

text \<open>
  What the segments of \<open>src/transport/tcp/segment.go\<close> look like on the wire: every packet a connection sends is a
  header, its options and the payload, its checksum verifies, and building it cannot fail.
\<close>

section \<open>Packets\<close>

lemma front_view:
  assumes "front pb v h s"
  shows "view_bytes pb (fst v, length h + length s) = Some (h @ s)"
proof -
  have v: "fst v = pb_headroom pb - pb_consumed pb" and as: "AsSlice pb = Some (h @ s)"
    using assms by (simp_all add: front_def)
  obtain en where en: "subslice (pb_buf pb) (fst v) en = Some (h @ s)"
    using as v by (auto simp: AsSlice_def Let_def split: if_splits)
  have "fst v \<le> en" "length (h @ s) = en - fst v"
    using en length_subslice [OF en] by (simp add: subslice_def split: if_splits, blast)
  then have "en = fst v + (length h + length s)"
    by simp
  with en show ?thesis
    by (simp add: view_bytes_def)
qed

lemma TCP_SetChecksum_wire: "TCP_SetChecksum (TCP_wire f @ r) c = Some (TCP_wire (f\<lparr>tcp_Checksum := c\<rparr>) @ r)"
  by (simp add: TCP_SetChecksum_def TCP_wire_def To4_def)

text \<open>The segment with its checksum: header \<open>f\<close>, options and payload between two addresses.\<close>

definition tcp_segment :: "TCPFields \<Rightarrow> bytes \<Rightarrow> bytes \<Rightarrow> Address \<Rightarrow> Address \<Rightarrow> bytes" where
  "tcp_segment f opts d src dst =
     (let n = of_nat (20 + length opts + length d);
          phc = the (PseudoHeaderChecksum TCPProtocolNumber src dst n);
          f = f\<lparr>tcp_Checksum := 0\<rparr>
      in TCP_wire (f\<lparr>tcp_Checksum := Checksum (TCP_wire f @ opts @ d) phc\<rparr>) @ opts @ d)"

lemma length_tcp_segment [simp]: "length (tcp_segment f opts d src dst) = 20 + length opts + length d"
  by (simp add: tcp_segment_def Let_def)

abbreviation payload_bytes :: "bytes option \<Rightarrow> bytes" where
  "payload_bytes p \<equiv> (case p of None \<Rightarrow> [] | Some d \<Rightarrow> d)"

lemma new_packet_payload:
  obtains pb where "(case payload of None \<Rightarrow> Some (NewPacketBuffer arr h) | Some d \<Rightarrow> AppendData (NewPacketBuffer arr h) d) = Some pb"
    "pb_wf pb" "AsSlice pb = Some (payload_bytes payload)" "pb_headroom pb = h" "pb_consumed pb = 0"
proof (cases payload)
  case None
  then show thesis
    using that pb_wf_new AsSlice_new by simp
next
  case (Some d)
  show thesis
    by (rule AppendData_new [of arr h d]) (use Some that in simp)
qed

lemma update_front_tcp:
  assumes "front pb v (TCP_wire f @ opts) s"
  shows "\<exists>pb'. update_view pb v (\<lambda>hdr. TCP_SetChecksum hdr c) = Some pb' \<and>
    front pb' v (TCP_wire (f\<lparr>tcp_Checksum := c\<rparr>) @ opts) s \<and> pb_headroom pb' = pb_headroom pb \<and> pb_consumed pb' = pb_consumed pb"
  by (rule update_front [OF assms]) (simp_all add: TCP_SetChecksum_wire)

lemma setTCPChecksum_spec:
  assumes fr: "front pb v (TCP_wire f @ opts) d" and len: "20 + length opts + length d < 65536"
  shows "\<exists>pb'. setTCPChecksum pb v src dst (of_nat (20 + length opts + length d)) = Some pb' \<and> pb_wf pb' \<and>
    AsSlice pb' = Some (tcp_segment f opts d src dst) \<and> pb_headroom pb' = pb_headroom pb \<and> pb_consumed pb' = pb_consumed pb"
proof -
  let ?n = "of_nat (20 + length opts + length d) :: u16"
  obtain phc where phc: "PseudoHeaderChecksum TCPProtocolNumber src dst ?n = Some phc"
    using PseudoHeaderChecksum_Some by blast
  let ?f0 = "f\<lparr>tcp_Checksum := 0\<rparr>"
  let ?c = "Checksum (TCP_wire ?f0 @ opts @ d) phc"
  obtain pb0 where 0: "update_view pb v (\<lambda>hdr. TCP_SetChecksum hdr 0) = Some pb0" "front pb0 v (TCP_wire ?f0 @ opts) d"
      "pb_headroom pb0 = pb_headroom pb" "pb_consumed pb0 = pb_consumed pb"
    using update_front_tcp [OF fr] by blast
  obtain pb1 where 1: "update_view pb0 v (\<lambda>hdr. TCP_SetChecksum hdr ?c) = Some pb1"
      "front pb1 v (TCP_wire (?f0\<lparr>tcp_Checksum := ?c\<rparr>) @ opts) d" "pb_headroom pb1 = pb_headroom pb"
      "pb_consumed pb1 = pb_consumed pb"
    using update_front_tcp [OF 0(2), of ?c] 0(3,4) by auto
  have "unat ?n = 20 + length opts + length d"
    using len by (rule unat_of_nat_u16)
  then have view: "view_bytes pb0 (fst v, unat ?n) = Some (TCP_wire ?f0 @ opts @ d)"
    using front_view [OF 0(2)] by (simp only: length_append length_TCP_wire append.assoc)
  have "setTCPChecksum pb v src dst ?n = Some pb1"
    using 0(1) phc view 1(1) by (simp add: setTCPChecksum_def del: of_nat_add)
  moreover have "AsSlice pb1 = Some (tcp_segment f opts d src dst)" "pb_wf pb1"
    using 1(2) phc by (simp_all add: front_def tcp_segment_def Let_def del: of_nat_add)
  ultimately show ?thesis
    using 1(3,4) by blast
qed

lemma tcp_packet_segment:
  assumes "length opts \<le> 40" "20 + length opts + length (payload_bytes payload) < 65536"
  shows "\<exists>pb. tcp_packet arr payload f opts src dst = Some pb \<and> pb_wf pb \<and> pb_consumed pb + 20 \<le> pb_headroom pb \<and>
    AsSlice pb = Some (tcp_segment f opts (payload_bytes payload) src dst)"
proof -
  let ?d = "payload_bytes payload" and ?h = "20 + length opts"
  obtain pb0 where 0: "(case payload of None \<Rightarrow> Some (NewPacketBuffer arr 80) | Some d \<Rightarrow> AppendData (NewPacketBuffer arr 80) d) = Some pb0"
      "pb_wf pb0" "AsSlice pb0 = Some ?d" "pb_headroom pb0 = 80" "pb_consumed pb0 = 0"
    by (rule new_packet_payload)
  have "pb_consumed pb0 + ?h \<le> pb_headroom pb0"
    using 0 assms(1) by simp
  from Prepend_front [OF 0(2,3) this] obtain pb1 v u where 1: "Prepend pb0 ?h = Some (pb1, v)" "front pb1 v u ?d"
      "length u = ?h" "pb_headroom pb1 = 80" "pb_consumed pb1 = ?h"
    using 0 by auto
  have enc: "TCP_Encode u f = Some (TCP_wire f @ drop 20 u)"
    using 1(3) by (simp add: TCP_Encode_wire)
  obtain pb2 where 2: "update_view pb1 v (\<lambda>hdr. TCP_Encode hdr f) = Some pb2" "front pb2 v (TCP_wire f @ drop 20 u) ?d"
      "pb_headroom pb2 = 80" "pb_consumed pb2 = ?h"
    using update_front [OF 1(2), of "\<lambda>hdr. TCP_Encode hdr f", OF enc] 1 by auto
  have cp: "copy_at (TCP_wire f @ drop 20 u) 20 opts = Some (TCP_wire f @ opts)"
    using 1(3) by (simp add: overwrite_def)
  obtain pb3 where 3: "update_view pb2 v (\<lambda>hdr. copy_at hdr 20 opts) = Some pb3" "front pb3 v (TCP_wire f @ opts) ?d"
      "pb_headroom pb3 = 80" "pb_consumed pb3 = ?h"
    using update_front [OF 2(2), of "\<lambda>hdr. copy_at hdr 20 opts", OF cp] 1(3) 2 by auto
  have n: "?h + (case payload of None \<Rightarrow> 0 | Some d \<Rightarrow> length d) = 20 + length opts + length ?d"
    by (simp split: option.split)
  show ?thesis
    using setTCPChecksum_spec [OF 3(2) assms(2), of src dst] 0(1) 1(1) 2(1) 3(1,3,4) assms(1)
    by (auto simp: tcp_packet_def TCPMinHeaderSize_def MaxHeadroom_def n simp del: of_nat_add)
qed

text \<open>The checksum of a segment verifies at the receiver.\<close>

lemma tcp_segment_checksum:
  assumes "length opts + length d \<le> 65515"
    and "PseudoHeaderChecksum TCPProtocolNumber src dst (of_nat (20 + length opts + length d)) = Some phc"
  shows "Checksum (tcp_segment f opts d src dst) phc = 0"
proof -
  define g where "g = f\<lparr>tcp_Checksum := 0\<rparr>"
  let ?z = "TCP_wire g @ opts @ d"
  have "even (16 :: nat)" "16 + 2 \<le> length ?z" "length ?z \<le> 131068" "?z ! 16 = 0" "?z ! (16 + 1) = 0"
    using assms(1) by (simp_all add: g_def) (simp_all add: TCP_wire_def To4_def)
  from Checksum_fill [OF this, of phc] have "TCP_SetChecksum ?z (Checksum ?z phc) \<bind> (\<lambda>b. Some (Checksum b phc)) = Some 0"
    by (simp only: TCP_SetChecksum_def)
  then show ?thesis
    using assms(2) by (simp add: TCP_SetChecksum_wire tcp_segment_def Let_def g_def del: of_nat_add)
qed

section \<open>Options\<close>

text \<open>A zeroed option buffer of \<open>n\<close> bytes into which \<open>w\<close> was written.\<close>

definition opt_buf :: "nat \<Rightarrow> bytes \<Rightarrow> bytes \<times> nat" where
  "opt_buf n w = (w @ replicate (n - length w) 0, length w)"

text \<open>An encoder that writes \<open>x\<close> wherever there is room for it.\<close>

definition writes :: "(bytes \<Rightarrow> (bytes \<times> nat) go) \<Rightarrow> bytes \<Rightarrow> bool" where
  "writes enc x \<longleftrightarrow> (\<forall>b. length x \<le> length b \<longrightarrow> enc b = Some (x @ drop (length x) b, length x))"

lemma opt_buf_start: "(replicate n 0, 0) = opt_buf n []"
  by (simp add: opt_buf_def)

lemma add_option_buf:
  assumes "writes enc x" "length w + length x \<le> n"
  shows "add_option enc (opt_buf n w) = Some (opt_buf n (w @ x))"
proof -
  have "enc (replicate (n - length w) 0) = Some (x @ drop (length x) (replicate (n - length w) 0), length x)"
    using assms by (simp add: writes_def)
  then show ?thesis
    using assms(2) by (simp add: add_option_def opt_buf_def diff_diff_eq)
qed

lemma add_nop_buf: "length w < n \<Longrightarrow> add_nop (opt_buf n w) = Some (opt_buf n (w @ [1]))"
proof -
  assume "length w < n"
  then obtain k where k: "n = length w + Suc k"
    using less_iff_Suc_add by auto
  show ?thesis
    by (simp add: add_nop_def opt_buf_def k store_def)
qed

lemma used_options_buf: "used_options (opt_buf n w) = Some w"
  by (simp add: used_options_def opt_buf_def)

definition padding :: "bytes \<Rightarrow> bytes" where
  "padding w = replicate ((4 - length w mod 4) mod 4) 1"

lemma padded_length: "length (w @ padding w) mod 4 = 0" "length (w @ padding w) \<le> length w + 3"
proof -
  have "(n + (4 - n mod 4) mod 4) mod 4 = 0" for n :: nat
  proof -
    have "(n + (4 - n mod 4) mod 4) mod 4 = (n mod 4 + (4 - n mod 4)) mod 4"
      by (simp only: mod_add_right_eq mod_add_left_eq)
    then show ?thesis
      by (simp add: less_imp_le)
  qed
  moreover have "(4 - k) mod 4 \<le> 3" for k :: nat
    using mod_less_divisor [of 4 "4 - k"] by linarith
  ultimately show "length (w @ padding w) mod 4 = 0" "length (w @ padding w) \<le> length w + 3"
    by (simp_all only: padding_def length_append length_replicate add_le_cancel_left)
qed

lemma snd_opt_buf [simp]: "snd (opt_buf n w) = length w"
  by (simp add: opt_buf_def)

lemma pad_options_buf:
  assumes "length (w @ padding w) \<le> n"
  shows "pad_options (opt_buf n w) = Some (opt_buf n (w @ padding w))"
proof -
  have reps: "replicate 3 (1 :: u8) = [1, 1, 1]" "replicate 2 (1 :: u8) = [1, 1]"
    by (simp_all add: numeral_eq_Suc)
  have "length w mod 4 < 4" by simp
  then consider "length w mod 4 = 0" | "length w mod 4 = 1" | "length w mod 4 = 2" | "length w mod 4 = 3"
    by linarith
  then show ?thesis
  proof cases
    case 1
    then show ?thesis by (simp add: pad_options_def padding_def)
  next
    case 2
    then have "padding w = [1, 1, 1]" by (simp add: padding_def reps)
    with 2 assms show ?thesis by (simp add: pad_options_def add_nop_buf mod_Suc)
  next
    case 3
    then have "padding w = [1, 1]" by (simp add: padding_def reps)
    with 3 assms show ?thesis by (simp add: pad_options_def add_nop_buf mod_Suc)
  next
    case 4
    then have "padding w = [1]" by (simp add: padding_def)
    with 4 assms show ?thesis by (simp add: pad_options_def add_nop_buf mod_Suc)
  qed
qed

lemma ts_writes: "writes (\<lambda>b. EncodeTimestampOption b v ecr) (ts_wire v ecr)"
  by (simp add: writes_def EncodeTimestampOption_wire)

lemma sack_writes: "blocks \<noteq> [] \<Longrightarrow> length blocks \<le> 4 \<Longrightarrow> writes (\<lambda>b. EncodeSACKBlocks b blocks) (sack_wire blocks)"
proof -
  assume bl: "blocks \<noteq> []" "length blocks \<le> 4"
  show ?thesis
    unfolding writes_def
  proof (intro allI impI)
    fix b :: bytes
    assume "length (sack_wire blocks) \<le> length b"
    then have "sack_fit (length b) (min (length blocks) 4) = length blocks"
      using bl sack_fit_spec(3) by (simp add: min_absorb1)
    with EncodeSACKBlocks_wire [OF refl, of b blocks] bl
    show "EncodeSACKBlocks b blocks = Some (sack_wire blocks @ drop (length (sack_wire blocks)) b, length (sack_wire blocks))"
      by simp
  qed
qed

definition ts_bytes :: "env \<Rightarrow> TCPConn \<Rightarrow> bytes" where
  "ts_bytes e c = (if c_tsEnabled c then ts_wire (tcp_now e) (c_tsRecent c) else [])"

lemma ts_option_buf:
  "length w + length (ts_bytes e c) \<le> n \<Longrightarrow> ts_option e c (opt_buf n w) = Some (opt_buf n (w @ ts_bytes e c))"
  by (auto simp: ts_option_def ts_bytes_def intro: add_option_buf [OF ts_writes])

lemma length_ts_bytes: "length (ts_bytes e c) = (if c_tsEnabled c then 12 else 0)"
  by (simp add: ts_bytes_def)

lemma data_options_wire: "data_options e c = Some (ts_bytes e c)"
  using ts_option_buf [of "[]" e c 12]
  by (simp add: data_options_def opt_buf_start length_ts_bytes used_options_buf split: if_splits)

definition ack_bytes :: "env \<Rightarrow> TCPConn \<Rightarrow> SACKBlock list \<Rightarrow> bytes" where
  "ack_bytes e c blocks = (let w = ts_bytes e c @ (if blocks = [] then [] else sack_wire blocks) in w @ padding w)"

text \<open>A number of blocks that fits the option space.\<close>

definition blocks_fit :: "TCPConn \<Rightarrow> SACKBlock list \<Rightarrow> bool" where
  "blocks_fit c blocks \<longleftrightarrow> length blocks \<le> (if c_tsEnabled c then 3 else 4)"

lemma length_ack_bytes:
  assumes "blocks_fit c blocks"
  shows "length (ack_bytes e c blocks) \<le> 40" "length (ack_bytes e c blocks) mod 4 = 0"
proof -
  let ?w = "ts_bytes e c @ (if blocks = [] then [] else sack_wire blocks)"
  have n: "length (?w @ padding ?w) mod 4 = 0" "length (?w @ padding ?w) \<le> length ?w + 3"
    by (rule padded_length)+
  have "length ?w \<le> 38"
    using assms by (auto simp: blocks_fit_def length_ts_bytes)
  moreover have "k mod 4 = 0 \<Longrightarrow> k \<le> m + 3 \<Longrightarrow> m \<le> 38 \<Longrightarrow> k \<le> 40" for k m :: nat
    by presburger
  ultimately show "length (ack_bytes e c blocks) \<le> 40" "length (ack_bytes e c blocks) mod 4 = 0"
    using n by (simp_all only: ack_bytes_def Let_def)
qed

lemma ack_options_wire:
  assumes "blocks_fit c blocks"
  shows "ack_options e c blocks = Some (ack_bytes e c blocks)"
proof -
  let ?s = "if blocks = [] then [] else sack_wire blocks"
  let ?w = "ts_bytes e c @ ?s"
  have len: "length (ts_bytes e c) \<le> 48" "length (ts_bytes e c) + length ?s \<le> 48" "length (?w @ padding ?w) \<le> 48"
    using assms length_ack_bytes(1) [OF assms, of e] by (auto simp: blocks_fit_def length_ts_bytes ack_bytes_def Let_def)
  have ts: "ts_option e c (opt_buf 48 []) = Some (opt_buf 48 (ts_bytes e c))"
    using ts_option_buf [of "[]" e c 48] len(1) by simp
  have "(if blocks \<noteq> [] then add_option (\<lambda>b. EncodeSACKBlocks b blocks) (opt_buf 48 (ts_bytes e c))
      else Some (opt_buf 48 (ts_bytes e c))) = Some (opt_buf 48 ?w)"
    using assms len(2) by (auto simp: blocks_fit_def intro!: add_option_buf sack_writes split: if_splits)
  with ts pad_options_buf [OF len(3)] show ?thesis
    by (simp add: ack_options_def opt_buf_start used_options_buf ack_bytes_def Let_def)
qed

text \<open>The peer reads the same timestamp and the same blocks.\<close>

lemma parse_ack_bytes:
  assumes "blocks_fit c blocks"
  shows "ParseSegmentOptions (ack_bytes e c blocks) = Some \<lparr>so_SACKBlocks = blocks, so_TSEnabled = c_tsEnabled c,
    so_TSVal = (if c_tsEnabled c then tcp_now e else 0), so_TSecr = (if c_tsEnabled c then c_tsRecent c else 0)\<rparr>"
proof -
  have "length blocks \<le> 4"
    using assms by (simp add: blocks_fit_def split: if_splits)
  then have sack: "blocks \<noteq> [] \<Longrightarrow> ParseSegmentOptions_loop (sack_wire blocks @ r) 0 so =
      ParseSegmentOptions_loop r 0 (so\<lparr>so_SACKBlocks := blocks\<rparr>)" for r so
    using parse_sack by blast
  have pad: "ParseSegmentOptions_loop (padding w) 0 so = Some so" for w so
    using parse_nops [of _ "[]" so] by (simp add: padding_def parse_nil)
  show ?thesis
    by (cases "c_tsEnabled c"; cases "blocks = []")
       (simp_all add: ParseSegmentOptions_def ack_bytes_def ts_bytes_def Let_def parse_ts sack pad no_segment_options_def)
qed

section \<open>The options of a SYN+ACK\<close>

definition mss_wire :: "u16 \<Rightarrow> bytes" where
  "mss_wire m = [2, 4, ucast (drop_bit 8 m), ucast m]"

definition local_mss :: "env \<Rightarrow> u16" where
  "local_mss e = word_of_int (e_mtu e - 40)"

definition synack_bytes :: "env \<Rightarrow> TCPConn \<Rightarrow> bytes" where
  "synack_bytes e c = (let w = mss_wire (local_mss e) @ (if c_rcvWndScale c > 0 then [1, 3, 3, c_rcvWndScale c] else []) @
     (if c_sackPermitted c then [4, 2] else []) @ ts_bytes e c in w @ padding w)"

lemma mss_writes: "writes (\<lambda>b. EncodeMSSOption b m) (mss_wire m)"
  by (auto simp: writes_def EncodeMSSOption_def mss_wire_def numeral_le_length_iff Suc_le_length_iff)

lemma ws_writes: "writes (\<lambda>b. EncodeWSOption b (uint s)) [3, 3, s]"
  by (auto simp: writes_def EncodeWSOption_def Suc_le_length_iff)

lemma sackperm_writes: "writes EncodeSACKPermittedOption [4, 2]"
  by (auto simp: writes_def EncodeSACKPermittedOption_def Suc_le_length_iff)

lemma length_synack_bytes: "length (synack_bytes e c) \<le> 24" "length (synack_bytes e c) mod 4 = 0"
proof -
  let ?w = "mss_wire (local_mss e) @ (if c_rcvWndScale c > 0 then [1, 3, 3, c_rcvWndScale c] else []) @
     (if c_sackPermitted c then [4, 2] else []) @ ts_bytes e c"
  have n: "length (?w @ padding ?w) mod 4 = 0" "length (?w @ padding ?w) \<le> length ?w + 3"
    by (rule padded_length)+
  moreover have "length ?w \<le> 22"
    by (simp add: mss_wire_def length_ts_bytes)
  moreover have "k mod 4 = 0 \<Longrightarrow> k \<le> m + 3 \<Longrightarrow> m \<le> 22 \<Longrightarrow> k \<le> 24" for k m :: nat
    by presburger
  ultimately show "length (synack_bytes e c) \<le> 24" "length (synack_bytes e c) mod 4 = 0"
    by (simp_all only: synack_bytes_def Let_def)
qed

lemma synack_options_wire: "synack_options e c = Some (synack_bytes e c)"
proof -
  let ?m = "mss_wire (local_mss e)" and ?s = "if c_rcvWndScale c > 0 then [1, 3, 3, c_rcvWndScale c] else []"
  let ?p = "if c_sackPermitted c then [4, 2] else []" and ?t = "ts_bytes e c"
  have len: "length ?m = 4" "length ?s \<le> 4" "length ?p \<le> 2" "length ?t \<le> 12"
    by (simp_all add: mss_wire_def length_ts_bytes)
  have mss: "add_option (\<lambda>b. EncodeMSSOption b (local_mss e)) (opt_buf 24 []) = Some (opt_buf 24 ?m)"
    using add_option_buf [OF mss_writes, of "[]" "local_mss e" 24] len(1) by simp
  have ws: "(if c_rcvWndScale c > 0 then do { ob \<leftarrow> add_nop (opt_buf 24 ?m);
      add_option (\<lambda>b. EncodeWSOption b (uint (c_rcvWndScale c))) ob } else Some (opt_buf 24 ?m)) = Some (opt_buf 24 (?m @ ?s))"
    using add_option_buf [OF ws_writes, of "?m @ [1]" "c_rcvWndScale c" 24] len(1) by (simp add: add_nop_buf)
  have sp: "(if c_sackPermitted c then add_option EncodeSACKPermittedOption (opt_buf 24 (?m @ ?s)) else Some (opt_buf 24 (?m @ ?s)))
      = Some (opt_buf 24 ((?m @ ?s) @ ?p))"
    using add_option_buf [OF sackperm_writes, of "?m @ ?s" 24] len(1,2) by simp
  have ts: "ts_option e c (opt_buf 24 ((?m @ ?s) @ ?p)) = Some (opt_buf 24 (((?m @ ?s) @ ?p) @ ?t))"
    using len by (intro ts_option_buf) simp
  have "length (synack_bytes e c) \<le> 24"
    by (rule length_synack_bytes)
  then have pad: "pad_options (opt_buf 24 (((?m @ ?s) @ ?p) @ ?t)) = Some (opt_buf 24 (synack_bytes e c))"
    using pad_options_buf [of "((?m @ ?s) @ ?p) @ ?t" 24] unfolding synack_bytes_def Let_def append.assoc by blast
  have m: "word_of_int (e_mtu e - int IPv4MinHeaderSize - int TCPMinHeaderSize) = local_mss e"
    by (simp add: local_mss_def IPv4MinHeaderSize_def TCPMinHeaderSize_def)
  show ?thesis
    unfolding synack_options_def m Let_def opt_buf_start
    by (simp only: mss bind.bind_lunit ws sp ts pad used_options_buf)
qed

text \<open>Parsing them at the other end.\<close>

lemma syn_option_append: "syn_option (xs @ ys) (length xs + i) k n so = syn_option ys i k n so"
  using get16_append [of xs ys "i + 2"] get32_append [of xs ys "i + 2"] index_append [of xs ys "i + 2"]
  by (simp add: syn_option_def add.assoc)

lemma ParseSynOptions_loop_append:
  "ParseSynOptions_loop (xs @ ys) (length xs + i) so = ParseSynOptions_loop ys i so"
proof (induction ys i so rule: ParseSynOptions_loop.induct)
  case (1 ys i so)
  show ?case
  proof (cases "i < length ys")
    case True
    have "index (xs @ ys) (length xs + i + 1) = index ys (i + 1)"
      using index_append [of xs ys "i + 1"] by (simp add: add.assoc)
    with True 1 show ?thesis
      by (simp add: ParseSynOptions_loop.simps [of "xs @ ys" "length xs + i"] ParseSynOptions_loop.simps [of ys i]
          syn_option_append add.assoc Let_def cong: Option.bind_cong if_cong)
  next
    case False
    then show ?thesis
      by (simp add: ParseSynOptions_loop.simps)
  qed
qed

lemma ParseSynOptions_loop_skip:
  "length xs = i \<Longrightarrow> ParseSynOptions_loop (xs @ ys) i so = ParseSynOptions_loop ys 0 so"
  using ParseSynOptions_loop_append [of xs ys 0] by simp

lemma syn_nop: "ParseSynOptions_loop (1 # r) 0 so = ParseSynOptions_loop r 0 so"
  using ParseSynOptions_loop_skip [of "[1]" 1 r so] by (simp add: ParseSynOptions_loop.simps [of "1 # r" 0])

lemma syn_padding: "ParseSynOptions_loop (replicate n 1) 0 so = Some so"
  by (induction n) (simp_all add: syn_nop ParseSynOptions_loop.simps [of "[]"])

lemma syn_mss: "ParseSynOptions_loop (mss_wire m @ r) 0 so = ParseSynOptions_loop r 0 (so\<lparr>syn_MSS := m\<rparr>)"
proof -
  have "syn_option (mss_wire m @ r) 0 2 4 so = Some (so\<lparr>syn_MSS := m\<rparr>)"
    by (simp add: syn_option_def mss_wire_def)
  moreover have "ParseSynOptions_loop (mss_wire m @ r) 4 so' = ParseSynOptions_loop r 0 so'" for so'
    by (rule ParseSynOptions_loop_skip) (simp add: mss_wire_def)
  ultimately show ?thesis
    by (subst ParseSynOptions_loop.simps) (simp add: mss_wire_def)
qed

lemma syn_ws: "ParseSynOptions_loop ([3, 3, w] @ r) 0 so = ParseSynOptions_loop r 0 (so\<lparr>syn_WS := min (int (unat w)) 14\<rparr>)"
proof -
  have "syn_option ([3, 3, w] @ r) 0 3 3 so = Some (so\<lparr>syn_WS := min (int (unat w)) 14\<rparr>)"
    by (simp add: syn_option_def MaxWndScale_def)
  moreover have "ParseSynOptions_loop ([3, 3, w] @ r) 3 so' = ParseSynOptions_loop r 0 so'" for so'
    by (rule ParseSynOptions_loop_skip) simp
  ultimately show ?thesis
    by (subst ParseSynOptions_loop.simps) simp
qed

lemma syn_sackperm: "ParseSynOptions_loop ([4, 2] @ r) 0 so = ParseSynOptions_loop r 0 (so\<lparr>syn_SACKPermit := True\<rparr>)"
proof -
  have "syn_option ([4, 2] @ r) 0 4 2 so = Some (so\<lparr>syn_SACKPermit := True\<rparr>)"
    by (simp add: syn_option_def)
  moreover have "ParseSynOptions_loop ([4, 2] @ r) (Suc (Suc 0)) so' = ParseSynOptions_loop r 0 so'" for so'
    by (rule ParseSynOptions_loop_skip) simp
  ultimately show ?thesis
    by (subst ParseSynOptions_loop.simps) simp
qed

lemma syn_ts: "ParseSynOptions_loop (ts_wire v ecr @ r) 0 so = ParseSynOptions_loop r 0 (so\<lparr>syn_TSEnabled := True, syn_TSVal := v\<rparr>)"
proof -
  let ?o = "[8, 10] @ To4 v @ To4 ecr"
  have "syn_option (?o @ r) 0 8 10 so = Some (so\<lparr>syn_TSEnabled := True, syn_TSVal := v\<rparr>)"
    by (simp add: syn_option_def To4_def)
  moreover have "ParseSynOptions_loop (?o @ r) 10 so' = ParseSynOptions_loop r 0 so'" for so'
    by (rule ParseSynOptions_loop_skip) simp
  ultimately have "ParseSynOptions_loop (?o @ r) 0 so = ParseSynOptions_loop r 0 (so\<lparr>syn_TSEnabled := True, syn_TSVal := v\<rparr>)"
    by (subst ParseSynOptions_loop.simps) simp
  then show ?thesis
    by (simp add: ts_wire_def syn_nop)
qed

lemma parse_synack_bytes:
  "ParseSynOptions (synack_bytes e c) = Some \<lparr>syn_MSS = local_mss e,
     syn_WS = (if c_rcvWndScale c > 0 then min (int (unat (c_rcvWndScale c))) 14 else -1),
     syn_SACKPermit = c_sackPermitted c, syn_TSEnabled = c_tsEnabled c, syn_TSVal = (if c_tsEnabled c then tcp_now e else 0)\<rparr>"
  by (cases "c_rcvWndScale c > 0"; cases "c_sackPermitted c"; cases "c_tsEnabled c")
     (simp_all add: ParseSynOptions_def synack_bytes_def Let_def ts_bytes_def padding_def syn_mss syn_nop
        syn_ws [simplified] syn_sackperm [simplified] syn_ts syn_padding)

section \<open>What sending changes in the connection\<close>

text \<open>
  The part of a connection that sending a segment leaves alone: everything but what was sent, the counters and
  the memory of the last acknowledgement.
\<close>

definition core :: "TCPConn \<Rightarrow> TCPConn" where
  "core c = c\<lparr>c_tsLastAckSent := 0, c_lastWndZero := False, c_stats := None, c_out := []\<rparr>"

definition same_out :: "TCPConn \<Rightarrow> TCPConn \<Rightarrow> bool" where
  "same_out c c' \<longleftrightarrow> core c' = core c"

lemma same_out_refl [simp]: "same_out c c"
  by (simp add: same_out_def)

lemma same_out_trans [trans]: "same_out a b \<Longrightarrow> same_out b c \<Longrightarrow> same_out a c"
  by (simp add: same_out_def)

lemma same_outD:
  assumes "same_out c c'"
  shows "c_flow c' = c_flow c" "c_state c' = c_state c" "c_iss c' = c_iss c" "c_irs c' = c_irs c"
    "c_sndWndScale c' = c_sndWndScale c" "c_rcvWndScale c' = c_rcvWndScale c"
    "c_sackPermitted c' = c_sackPermitted c" "c_peerMSS c' = c_peerMSS c" "c_tsEnabled c' = c_tsEnabled c"
    "c_tsRecent c' = c_tsRecent c" "c_tsOffset c' = c_tsOffset c" "c_noDelay c' = c_noDelay c"
    "c_delayedACKTimer c' = c_delayedACKTimer c" "c_unackedSegs c' = c_unackedSegs c"
    "c_zeroWindowTimer c' = c_zeroWindowTimer c" "c_zeroWindowProbing c' = c_zeroWindowProbing c"
    "c_probeInterval c' = c_probeInterval c" "c_keepaliveTimer c' = c_keepaliveTimer c"
    "c_keepaliveProbes c' = c_keepaliveProbes c" "c_writeShutdown c' = c_writeShutdown c"
    "c_readShutdown c' = c_readShutdown c" "c_finPending c' = c_finPending c" "c_snd c' = c_snd c"
    "c_rcv c' = c_rcv c" "c_readBuf c' = c_readBuf c" "c_writeBuf c' = c_writeBuf c"
    "c_writeNotify c' = c_writeNotify c" "c_windowNotify c' = c_windowNotify c" "c_inbound c' = c_inbound c"
    "c_inboundCap c' = c_inboundCap c" "c_done c' = c_done c" "c_closeOnce c' = c_closeOnce c"
    "c_closeReadOnce c' = c_closeReadOnce c" "c_closeCh c' = c_closeCh c" "c_forceCloseCh c' = c_forceCloseCh c"
    "c_timeWaitTimer c' = c_timeWaitTimer c" "c_finWait2Timer c' = c_finWait2Timer c"
    "c_synRcvdTimer c' = c_synRcvdTimer c" "c_rtoTimer c' = c_rtoTimer c" "c_statsActive c' = c_statsActive c"
    "c_snapshotData c' = c_snapshotData c" "c_cfg c' = c_cfg c"
proof -
  have eq: "core c' = core c"
    using assms by (simp add: same_out_def)
  show "c_flow c' = c_flow c" "c_state c' = c_state c" "c_iss c' = c_iss c" "c_irs c' = c_irs c"
    "c_sndWndScale c' = c_sndWndScale c" "c_rcvWndScale c' = c_rcvWndScale c"
    "c_sackPermitted c' = c_sackPermitted c" "c_peerMSS c' = c_peerMSS c" "c_tsEnabled c' = c_tsEnabled c"
    "c_tsRecent c' = c_tsRecent c" "c_tsOffset c' = c_tsOffset c" "c_noDelay c' = c_noDelay c"
    "c_delayedACKTimer c' = c_delayedACKTimer c" "c_unackedSegs c' = c_unackedSegs c"
    "c_zeroWindowTimer c' = c_zeroWindowTimer c" "c_zeroWindowProbing c' = c_zeroWindowProbing c"
    "c_probeInterval c' = c_probeInterval c" "c_keepaliveTimer c' = c_keepaliveTimer c"
    "c_keepaliveProbes c' = c_keepaliveProbes c" "c_writeShutdown c' = c_writeShutdown c"
    "c_readShutdown c' = c_readShutdown c" "c_finPending c' = c_finPending c" "c_snd c' = c_snd c"
    "c_rcv c' = c_rcv c" "c_readBuf c' = c_readBuf c" "c_writeBuf c' = c_writeBuf c"
    "c_writeNotify c' = c_writeNotify c" "c_windowNotify c' = c_windowNotify c" "c_inbound c' = c_inbound c"
    "c_inboundCap c' = c_inboundCap c" "c_done c' = c_done c" "c_closeOnce c' = c_closeOnce c"
    "c_closeReadOnce c' = c_closeReadOnce c" "c_closeCh c' = c_closeCh c" "c_forceCloseCh c' = c_forceCloseCh c"
    "c_timeWaitTimer c' = c_timeWaitTimer c" "c_finWait2Timer c' = c_finWait2Timer c"
    "c_synRcvdTimer c' = c_synRcvdTimer c" "c_rtoTimer c' = c_rtoTimer c" "c_statsActive c' = c_statsActive c"
    "c_snapshotData c' = c_snapshotData c" "c_cfg c' = c_cfg c"
    subgoal using arg_cong [OF eq, of c_flow] by (simp add: core_def)
    subgoal using arg_cong [OF eq, of c_state] by (simp add: core_def)
    subgoal using arg_cong [OF eq, of c_iss] by (simp add: core_def)
    subgoal using arg_cong [OF eq, of c_irs] by (simp add: core_def)
    subgoal using arg_cong [OF eq, of c_sndWndScale] by (simp add: core_def)
    subgoal using arg_cong [OF eq, of c_rcvWndScale] by (simp add: core_def)
    subgoal using arg_cong [OF eq, of c_sackPermitted] by (simp add: core_def)
    subgoal using arg_cong [OF eq, of c_peerMSS] by (simp add: core_def)
    subgoal using arg_cong [OF eq, of c_tsEnabled] by (simp add: core_def)
    subgoal using arg_cong [OF eq, of c_tsRecent] by (simp add: core_def)
    subgoal using arg_cong [OF eq, of c_tsOffset] by (simp add: core_def)
    subgoal using arg_cong [OF eq, of c_noDelay] by (simp add: core_def)
    subgoal using arg_cong [OF eq, of c_delayedACKTimer] by (simp add: core_def)
    subgoal using arg_cong [OF eq, of c_unackedSegs] by (simp add: core_def)
    subgoal using arg_cong [OF eq, of c_zeroWindowTimer] by (simp add: core_def)
    subgoal using arg_cong [OF eq, of c_zeroWindowProbing] by (simp add: core_def)
    subgoal using arg_cong [OF eq, of c_probeInterval] by (simp add: core_def)
    subgoal using arg_cong [OF eq, of c_keepaliveTimer] by (simp add: core_def)
    subgoal using arg_cong [OF eq, of c_keepaliveProbes] by (simp add: core_def)
    subgoal using arg_cong [OF eq, of c_writeShutdown] by (simp add: core_def)
    subgoal using arg_cong [OF eq, of c_readShutdown] by (simp add: core_def)
    subgoal using arg_cong [OF eq, of c_finPending] by (simp add: core_def)
    subgoal using arg_cong [OF eq, of c_snd] by (simp add: core_def)
    subgoal using arg_cong [OF eq, of c_rcv] by (simp add: core_def)
    subgoal using arg_cong [OF eq, of c_readBuf] by (simp add: core_def)
    subgoal using arg_cong [OF eq, of c_writeBuf] by (simp add: core_def)
    subgoal using arg_cong [OF eq, of c_writeNotify] by (simp add: core_def)
    subgoal using arg_cong [OF eq, of c_windowNotify] by (simp add: core_def)
    subgoal using arg_cong [OF eq, of c_inbound] by (simp add: core_def)
    subgoal using arg_cong [OF eq, of c_inboundCap] by (simp add: core_def)
    subgoal using arg_cong [OF eq, of c_done] by (simp add: core_def)
    subgoal using arg_cong [OF eq, of c_closeOnce] by (simp add: core_def)
    subgoal using arg_cong [OF eq, of c_closeReadOnce] by (simp add: core_def)
    subgoal using arg_cong [OF eq, of c_closeCh] by (simp add: core_def)
    subgoal using arg_cong [OF eq, of c_forceCloseCh] by (simp add: core_def)
    subgoal using arg_cong [OF eq, of c_timeWaitTimer] by (simp add: core_def)
    subgoal using arg_cong [OF eq, of c_finWait2Timer] by (simp add: core_def)
    subgoal using arg_cong [OF eq, of c_synRcvdTimer] by (simp add: core_def)
    subgoal using arg_cong [OF eq, of c_rtoTimer] by (simp add: core_def)
    subgoal using arg_cong [OF eq, of c_statsActive] by (simp add: core_def)
    subgoal using arg_cong [OF eq, of c_snapshotData] by (simp add: core_def)
    subgoal using arg_cong [OF eq, of c_cfg] by (simp add: core_def)
    done
qed

lemma same_out_emit [simp]: "same_out c (emit x c)"
  by (simp add: same_out_def core_def emit_def)

lemma same_out_count [simp]: "same_out c (tcp_count f c)"
  by (simp add: same_out_def core_def tcp_count_def)

lemma same_out_ts [simp]: "same_out c (updateTSLastAckSent c)"
  by (simp add: same_out_def core_def updateTSLastAckSent_def split: option.split)

lemma same_out_wnd: "same_out c d \<Longrightarrow> same_out c (d\<lparr>c_lastWndZero := b\<rparr>)"
  by (simp add: same_out_def core_def)

lemma out_updateTS [simp]: "c_out (updateTSLastAckSent c) = c_out c"
  by (simp add: updateTSLastAckSent_def split: option.split)

text \<open>\<open>c'\<close> is \<open>c\<close> after sending one packet to the peer, with the given header, options and payload.\<close>

definition sent :: "TCPConn \<Rightarrow> TCPConn \<Rightarrow> TCPFields \<Rightarrow> bytes \<Rightarrow> bytes \<Rightarrow> bool" where
  "sent c c' f opts d \<longleftrightarrow> same_out c c' \<and> (\<exists>pb. c_out c' = c_out c @ [OutPacket pb] \<and> pb_wf pb \<and>
     pb_consumed pb + 20 \<le> pb_headroom pb \<and>
     AsSlice pb = Some (tcp_segment f opts d (fl_DstAddr (c_flow c)) (fl_SrcAddr (c_flow c))))"

abbreviation conn_fields :: "TCPConn \<Rightarrow> u32 \<Rightarrow> u32 \<Rightarrow> u8 \<Rightarrow> u16 \<Rightarrow> bytes \<Rightarrow> TCPFields" where
  "conn_fields c seq ack flags wnd opts \<equiv> tcp_literal (fl_DstPort (c_flow c)) (fl_SrcPort (c_flow c)) seq ack
     (20 + length opts) flags wnd"

lemma conn_packet_sent:
  assumes "length opts \<le> 40" "length (payload_bytes payload) \<le> 65000"
  obtains pb where "conn_packet e c payload seq ack flags wnd opts = Some pb"
    "\<And>c'. same_out c c' \<Longrightarrow> c_out c' = c_out c @ [OutPacket pb] \<Longrightarrow>
       sent c c' (conn_fields c seq ack flags wnd opts) opts (payload_bytes payload)"
proof -
  have "20 + length opts + length (payload_bytes payload) < 65536"
    using assms by simp
  from tcp_packet_segment [OF assms(1) this] show thesis
    using that unfolding conn_packet_def TCPMinHeaderSize_def sent_def by blast
qed

lemma sentD:
  assumes "sent c c' f opts d"
  shows "same_out c c'" "\<exists>pb. c_out c' = c_out c @ [OutPacket pb]"
  using assms by (auto simp: sent_def)

text \<open>What the senders do after the packet was built.\<close>

definition after_send :: "(TCPStats \<Rightarrow> TCPStats) \<Rightarrow> PacketBuffer \<Rightarrow> TCPConn \<Rightarrow> TCPConn" where
  "after_send f pb c = emit (OutPacket pb) (tcp_count f c)"

lemma after_send_simps [simp]:
  "same_out c (after_send f pb c)" "c_out (after_send f pb c) = c_out c @ [OutPacket pb]"
  "same_out c (updateTSLastAckSent (after_send f pb c))"
  "same_out c ((updateTSLastAckSent (after_send f pb c))\<lparr>c_lastWndZero := b\<rparr>)"
proof -
  show s: "same_out c (after_send f pb c)"
    unfolding after_send_def by (rule same_out_trans [OF same_out_count same_out_emit])
  show "same_out c (updateTSLastAckSent (after_send f pb c))"
    by (rule same_out_trans [OF s same_out_ts])
  then show "same_out c ((updateTSLastAckSent (after_send f pb c))\<lparr>c_lastWndZero := b\<rparr>)"
    by (rule same_out_wnd)
  show "c_out (after_send f pb c) = c_out c @ [OutPacket pb]"
    by (simp add: after_send_def emit_def tcp_count_def)
qed

lemma rcv_wnd_total: "rb_inv (c_readBuf c) \<Longrightarrow> \<exists>w. rcv_wnd c = Some w"
  by (simp add: rcv_wnd_def Free_eq Let_def)

lemma length_ts_bytes_le [simp]: "length (ts_bytes e c) \<le> 40"
  by (simp add: length_ts_bytes)

lemma sendData_sent:
  assumes "rcv_wnd c = Some w" "c_rcv c = Some r" "length d \<le> 65000"
  obtains c' where "sendData e c d seq = Some c'"
    "sent c c' (conn_fields c seq (rcv_nxt r) TCPFlagACK w (ts_bytes e c)) (ts_bytes e c) d"
proof -
  have "length (payload_bytes (Some d)) \<le> 65000"
    using assms by simp
  from conn_packet_sent [OF length_ts_bytes_le this, of e c seq "rcv_nxt r" TCPFlagACK w]
  obtain pb where pb: "conn_packet e c (Some d) seq (rcv_nxt r) TCPFlagACK w (ts_bytes e c) = Some pb"
      "\<And>c'. same_out c c' \<Longrightarrow> c_out c' = c_out c @ [OutPacket pb] \<Longrightarrow>
         sent c c' (conn_fields c seq (rcv_nxt r) TCPFlagACK w (ts_bytes e c)) (ts_bytes e c) d"
    by auto
  let ?c = "(updateTSLastAckSent (after_send (segment_out (length d)) pb c))\<lparr>c_lastWndZero := (w = 0)\<rparr>"
  have "sendData e c d seq = Some ?c"
    using assms pb(1) by (simp add: sendData_def data_options_wire after_send_def)
  then show thesis
    using that pb(2) [of ?c] by simp
qed

lemma sendRST_sent:
  obtains c' where "sendRSTSegment e c seq = Some c'" "sent c c' (conn_fields c seq 0 TCPFlagRST 0 []) [] []"
proof -
  obtain pb where pb: "conn_packet e c None seq 0 TCPFlagRST 0 [] = Some pb"
      "\<And>c'. same_out c c' \<Longrightarrow> c_out c' = c_out c @ [OutPacket pb] \<Longrightarrow> sent c c' (conn_fields c seq 0 TCPFlagRST 0 []) [] []"
    by (rule conn_packet_sent [of "[]" None e c seq 0 TCPFlagRST 0]) auto
  let ?f = "\<lambda>st. (segment_out 0 st)\<lparr>ts_ResetsSent := ts_ResetsSent st + 1\<rparr>"
  have "sendRSTSegment e c seq = Some (after_send ?f pb c)"
    using pb(1) by (simp add: sendRSTSegment_def after_send_def)
  then show thesis
    using that pb(2) [of "after_send ?f pb c"] by simp
qed

text \<open>The numbers of a segment without data.\<close>

abbreviation next_seq :: "TCPConn \<Rightarrow> u32" where
  "next_seq c \<equiv> (case c_snd c of None \<Rightarrow> c_iss c + 1 | Some s \<Rightarrow> snd_nxt s)"

abbreviation next_ack :: "TCPConn \<Rightarrow> u32" where
  "next_ack c \<equiv> (case c_rcv c of None \<Rightarrow> c_irs c + 1 | Some r \<Rightarrow> rcv_nxt r)"

definition adv_wnd :: "TCPConn \<Rightarrow> u16" where
  "adv_wnd c = (case c_rcv c of None \<Rightarrow> cc_rcvWndSize (c_cfg c) | Some r \<Rightarrow> the (rcv_wnd c))"

lemma ack_numbers_eq: "rb_inv (c_readBuf c) \<Longrightarrow> ack_numbers c = Some (next_seq c, next_ack c, adv_wnd c)"
  using rcv_wnd_total [of c] by (auto simp: ack_numbers_def adv_wnd_def split: option.split)

lemma sendFIN_sent:
  assumes "rb_inv (c_readBuf c)"
  obtains c' where "sendFINSegment e c seq = Some c'"
    "sent c c' (conn_fields c seq (next_ack c) (TCPFlagFIN OR TCPFlagACK) (adv_wnd c) (ts_bytes e c)) (ts_bytes e c) []"
proof -
  have "length (payload_bytes None) \<le> 65000"
    by simp
  from conn_packet_sent [OF length_ts_bytes_le this, of e c seq "next_ack c" "TCPFlagFIN OR TCPFlagACK" "adv_wnd c"]
  obtain pb where pb: "conn_packet e c None seq (next_ack c) (TCPFlagFIN OR TCPFlagACK) (adv_wnd c) (ts_bytes e c) = Some pb"
      "\<And>c'. same_out c c' \<Longrightarrow> c_out c' = c_out c @ [OutPacket pb] \<Longrightarrow>
         sent c c' (conn_fields c seq (next_ack c) (TCPFlagFIN OR TCPFlagACK) (adv_wnd c) (ts_bytes e c)) (ts_bytes e c) []"
    by auto
  let ?c = "updateTSLastAckSent (after_send (segment_out 0) pb c)"
  have "sendFINSegment e c seq = Some ?c"
    using assms pb(1) by (simp add: sendFINSegment_def ack_numbers_eq data_options_wire after_send_def)
  then show thesis
    using that pb(2) [of ?c] by simp
qed

text \<open>An acknowledgement reports SACK blocks, which uses up a pending duplicate report of the receiver.\<close>

definition ack_blocks :: "TCPConn \<Rightarrow> SACKBlock list" where
  "ack_blocks c = (case c_rcv c of Some r \<Rightarrow> if c_sackPermitted c then fst (sackBlocks (c_tsEnabled c) r) else [] | None \<Rightarrow> [])"

definition reported :: "TCPConn \<Rightarrow> TCPConn" where
  "reported c = (case c_rcv c of Some r \<Rightarrow> if c_sackPermitted c then c\<lparr>c_rcv := Some (snd (sackBlocks (c_tsEnabled c) r))\<rparr> else c
     | None \<Rightarrow> c)"

lemma sackBlocks_count: "length (fst (sackBlocks ts r)) \<le> (if ts then 3 else 4)"
  by (auto simp: sackBlocks_def Let_def split: list.split)

lemma ack_blocks_fit: "blocks_fit c (ack_blocks c)"
  using sackBlocks_count [of "c_tsEnabled c"] unfolding ack_blocks_def blocks_fit_def
  by (cases "c_rcv c") auto

lemma sackBlocks_rcv:
  "snd (sackBlocks ts r) = (if rcv_hasDSACKBlock r
     then r\<lparr>rcv_hasDSACKBlock := False, rcv_dsackBlock := \<lparr>sb_Start = 0, sb_End = 0\<rparr>\<rparr> else r)"
  by (auto simp: sackBlocks_def Let_def split: list.split)

lemma reported_simps:
  "reported c = c\<lparr>c_rcv := c_rcv (reported c)\<rparr>"
  by (simp add: reported_def split: option.split)

lemma reported_fields [simp]:
  "c_flow (reported c) = c_flow c" "c_out (reported c) = c_out c" "c_tsEnabled (reported c) = c_tsEnabled c"
  "c_tsRecent (reported c) = c_tsRecent c"
  by (simp_all add: reported_def split: option.split)

lemma sendACK_sent:
  assumes "rb_inv (c_readBuf c)"
  obtains c' where "sendACK e c = Some c'"
    "sent (reported c) c' (conn_fields c (next_seq c) (next_ack c) TCPFlagACK (adv_wnd c) (ack_bytes e c (ack_blocks c)))
       (ack_bytes e c (ack_blocks c)) []"
proof -
  have fit: "blocks_fit (reported c) (ack_blocks c)"
    using ack_blocks_fit [of c] by (simp add: blocks_fit_def)
  have opts: "ack_bytes e (reported c) (ack_blocks c) = ack_bytes e c (ack_blocks c)"
    by (simp add: ack_bytes_def ts_bytes_def)
  let ?opts = "ack_bytes e c (ack_blocks c)"
  have "length ?opts \<le> 40" "length (payload_bytes None) \<le> 65000"
    using length_ack_bytes(1) [OF fit, of e] opts by simp_all
  from conn_packet_sent [OF this, of e "reported c" "next_seq c" "next_ack c" TCPFlagACK "adv_wnd c"]
  obtain pb where pb: "conn_packet e (reported c) None (next_seq c) (next_ack c) TCPFlagACK (adv_wnd c) ?opts = Some pb"
      "\<And>c'. same_out (reported c) c' \<Longrightarrow> c_out c' = c_out c @ [OutPacket pb] \<Longrightarrow>
         sent (reported c) c' (conn_fields c (next_seq c) (next_ack c) TCPFlagACK (adv_wnd c) ?opts) ?opts []"
    by auto
  let ?c = "(updateTSLastAckSent (after_send (segment_out 0) pb (reported c)))\<lparr>c_lastWndZero := (adv_wnd c = 0)\<rparr>"
  have rep: "(case c_rcv c of
      Some r \<Rightarrow> if c_sackPermitted c then let (blocks, r) = sackBlocks (c_tsEnabled c) r in (blocks, c\<lparr>c_rcv := Some r\<rparr>) else ([], c)
    | None \<Rightarrow> ([], c)) = (ack_blocks c, reported c)"
    by (auto simp: ack_blocks_def reported_def case_prod_beta Let_def split: option.split)
  have "sendACK e c = Some ?c"
    using pb(1) ack_options_wire [OF fit, of e] opts
    unfolding sendACK_def ack_numbers_eq [OF assms] rep by (simp add: after_send_def)
  then show thesis
    using that pb(2) [of ?c] by simp
qed

lemma sendSYNACK_sent:
  obtains c' where "sendSYNACK e c = Some c'"
    "sent c c' (conn_fields c (c_iss c) (c_irs c + 1) (TCPFlagSYN OR TCPFlagACK) (cc_rcvWndSize (c_cfg c)) (synack_bytes e c))
       (synack_bytes e c) []"
proof -
  have "length (synack_bytes e c) \<le> 40" "length (payload_bytes None) \<le> 65000"
    using length_synack_bytes(1) [of e c] by simp_all
  from conn_packet_sent [OF this, of e c "c_iss c" "c_irs c + 1" "TCPFlagSYN OR TCPFlagACK" "cc_rcvWndSize (c_cfg c)"]
  obtain pb where pb: "conn_packet e c None (c_iss c) (c_irs c + 1) (TCPFlagSYN OR TCPFlagACK) (cc_rcvWndSize (c_cfg c)) (synack_bytes e c) = Some pb"
      "\<And>c'. same_out c c' \<Longrightarrow> c_out c' = c_out c @ [OutPacket pb] \<Longrightarrow>
         sent c c' (conn_fields c (c_iss c) (c_irs c + 1) (TCPFlagSYN OR TCPFlagACK) (cc_rcvWndSize (c_cfg c)) (synack_bytes e c))
           (synack_bytes e c) []"
    by auto
  have "sendSYNACK e c = Some (after_send (segment_out 0) pb c)"
    using pb(1) by (simp add: sendSYNACK_def synack_options_wire after_send_def)
  then show thesis
    using that pb(2) [of "after_send (segment_out 0) pb c"] by simp
qed

lemma sendKeepaliveProbe_sent:
  assumes "rcv_wnd c = Some w" "c_rcv c = Some r" "c_snd c = Some s"
  obtains c' where "sendKeepaliveProbe e c = Some c'"
    "sent c c' (conn_fields c (snd_una s - 1) (rcv_nxt r) TCPFlagACK w (ts_bytes e c)) (ts_bytes e c) []"
proof -
  have "length (payload_bytes None) \<le> 65000"
    by simp
  from conn_packet_sent [OF length_ts_bytes_le this, of e c "snd_una s - 1" "rcv_nxt r" TCPFlagACK w]
  obtain pb where pb: "conn_packet e c None (snd_una s - 1) (rcv_nxt r) TCPFlagACK w (ts_bytes e c) = Some pb"
      "\<And>c'. same_out c c' \<Longrightarrow> c_out c' = c_out c @ [OutPacket pb] \<Longrightarrow>
         sent c c' (conn_fields c (snd_una s - 1) (rcv_nxt r) TCPFlagACK w (ts_bytes e c)) (ts_bytes e c) []"
    by auto
  let ?c = "updateTSLastAckSent (emit (OutPacket pb) c)"
  have "sendKeepaliveProbe e c = Some ?c"
    using assms pb(1) by (simp add: sendKeepaliveProbe_def data_options_wire)
  moreover have "same_out c ?c" "c_out ?c = c_out c @ [OutPacket pb]"
    by (rule same_out_trans [OF same_out_emit same_out_ts]) (simp add: emit_def)
  ultimately show thesis
    using that pb(2) [of ?c] by simp
qed

text \<open>
  A segment for offloading lies in a buffer that is large enough for it: room for the IP header, the TCP header, and
  the data. The checksum field holds the sum of the pseudo header; the offload engine completes it.
\<close>

definition sent_gso :: "TCPConn \<Rightarrow> TCPConn \<Rightarrow> TCPFields \<Rightarrow> bytes \<Rightarrow> bytes \<Rightarrow> int \<Rightarrow> bool" where
  "sent_gso c c' f opts d mss \<longleftrightarrow> same_out c c' \<and> (\<exists>ip rest.
     length ip = 20 \<and> c_out c' = c_out c @ [OutGSO (ip @ TCP_wire (f\<lparr>tcp_Checksum := the (PseudoHeaderChecksum TCPProtocolNumber
       (fl_DstAddr (c_flow c)) (fl_SrcAddr (c_flow c)) (of_nat (20 + length opts + length d)))\<rparr>) @ opts @ d @ rest)
       (40 + length opts + length d)
       \<lparr>po_GSOType = GSOTCPv4, po_GSOSize = word_of_int mss, po_HdrLen = of_nat (40 + length opts), po_CsumStart = 20,
        po_CsumOffset = 16\<rparr>])"

lemma sendDataGSO_sent:
  assumes "rcv_wnd c = Some w" "c_rcv c = Some r" "c_snd c = Some s"
    and buf: "length ip = 20" "length hdr = 20 + length (ts_bytes e c)"
  obtains c' where "sendDataGSO e c (ip @ hdr @ d @ rest) (length d) seq = Some c'"
    "sent_gso c c' (conn_fields c seq (rcv_nxt r) TCPFlagACK w (ts_bytes e c)) (ts_bytes e c) d (snd_mss s)"
proof -
  let ?o = "ts_bytes e c"
  let ?f = "conn_fields c seq (rcv_nxt r) TCPFlagACK w ?o"
  let ?n = "of_nat (20 + length ?o + length d) :: u16"
  obtain phc where phc: "PseudoHeaderChecksum TCPProtocolNumber (fl_DstAddr (c_flow c)) (fl_SrcAddr (c_flow c)) ?n = Some phc"
    using PseudoHeaderChecksum_Some by blast
  let ?hdr = "TCP_wire (?f\<lparr>tcp_Checksum := phc\<rparr>) @ ?o"
  have sub: "subslice (ip @ hdr @ d @ rest) 20 (20 + (20 + length ?o)) = Some hdr"
    using buf by simp
  have enc: "TCP_Encode hdr ?f = Some (TCP_wire ?f @ drop 20 hdr)"
    using buf by (simp add: TCP_Encode_wire)
  have cp: "copy_at (TCP_wire ?f @ drop 20 hdr) 20 ?o = Some (TCP_wire ?f @ ?o)"
    using buf by (simp add: overwrite_def)
  have out: "copy_at (ip @ hdr @ d @ rest) 20 ?hdr = Some (ip @ ?hdr @ d @ rest)"
    using buf by (simp add: overwrite_def)
  let ?po = "\<lparr>po_GSOType = GSOTCPv4, po_GSOSize = word_of_int (snd_mss s), po_HdrLen = of_nat (20 + (20 + length ?o)),
    po_CsumStart = of_nat 20, po_CsumOffset = 16\<rparr>"
  let ?c = "(updateTSLastAckSent (emit (OutGSO (ip @ ?hdr @ d @ rest) (20 + (20 + length ?o) + length d) ?po)
    (tcp_count (segment_out (length d)) c)))\<lparr>c_lastWndZero := (w = 0)\<rparr>"
  have "sendDataGSO e c (ip @ hdr @ d @ rest) (length d) seq = Some ?c"
    unfolding sendDataGSO_def data_options_wire TCPMinHeaderSize_def IPv4MinHeaderSize_def Let_def option.simps bind.simps
      sub enc cp assms(1-3) setTCPPartialChecksum_def phc TCP_SetChecksum_wire out ..
  moreover have "same_out c ?c"
    by (rule same_out_wnd) (rule same_out_trans [OF same_out_trans [OF same_out_count same_out_emit] same_out_ts])
  moreover have "c_out ?c = c_out c @ [OutGSO (ip @ ?hdr @ d @ rest) (40 + length ?o + length d) (?po\<lparr>po_HdrLen := of_nat (40 + length ?o), po_CsumStart := 20\<rparr>)]"
    by (simp add: emit_def tcp_count_def)
  ultimately show thesis
    using that [of ?c] buf phc unfolding sent_gso_def by (auto simp del: of_nat_add)
qed

section \<open>What a connection hands to the layer below\<close>

text \<open>
  A segment of the connection with flow \<open>flow\<close>: header, options and payload, complete up to the checksum, in a buffer
  with room for the IP header, or in an offload buffer. Segments that carry data or a FIN satisfy \<open>D\<close>, a condition
  on the sequence number, the data and the FIN flag.
\<close>

type_synonym seg_cond = "u32 \<Rightarrow> bytes \<Rightarrow> bool \<Rightarrow> bool"

definition seg_fields :: "FlowID \<Rightarrow> seg_cond \<Rightarrow> TCPFields \<Rightarrow> bytes \<Rightarrow> bytes \<Rightarrow> bool" where
  "seg_fields flow D f opts d \<longleftrightarrow> tcp_SrcPort f = fl_DstPort flow \<and> tcp_DstPort f = fl_SrcPort flow \<and>
     tcp_DataOffset f = of_nat ((20 + length opts) div 4) \<and> length opts \<le> 40 \<and> length opts mod 4 = 0 \<and>
     length d \<le> 65495 \<and> (d \<noteq> [] \<or> Has (tcp_Flags f) TCPFlagFIN \<longrightarrow> D (tcp_SeqNum f) d (Has (tcp_Flags f) TCPFlagFIN))"

fun valid_out :: "FlowID \<Rightarrow> seg_cond \<Rightarrow> conn_out \<Rightarrow> bool" where
  "valid_out flow D (OutPacket pb) \<longleftrightarrow> pb_wf pb \<and> pb_consumed pb + 20 \<le> pb_headroom pb \<and> (\<exists>f opts d.
     AsSlice pb = Some (tcp_segment f opts d (fl_DstAddr flow) (fl_SrcAddr flow)) \<and> seg_fields flow D f opts d)"
| "valid_out flow D (OutGSO buf n po) \<longleftrightarrow> (\<exists>ip f opts d rest. length ip = 20 \<and> n = 40 + length opts + length d \<and>
     buf = ip @ TCP_wire (f\<lparr>tcp_Checksum := the (PseudoHeaderChecksum TCPProtocolNumber
       (fl_DstAddr flow) (fl_SrcAddr flow) (of_nat (20 + length opts + length d)))\<rparr>) @ opts @ d @ rest \<and>
     seg_fields flow D f opts d)"
| "valid_out flow D OutAccept \<longleftrightarrow> True"

definition ext_out :: "seg_cond \<Rightarrow> TCPConn \<Rightarrow> TCPConn \<Rightarrow> bool" where
  "ext_out D c c' \<longleftrightarrow> (\<exists>xs. c_out c' = c_out c @ xs \<and> list_all (valid_out (c_flow c) D) xs)"

lemma ext_out_refl: "c_out c' = c_out c \<Longrightarrow> ext_out D c c'"
  by (simp add: ext_out_def)

lemma ext_out_trans: "ext_out D a b \<Longrightarrow> ext_out D b c \<Longrightarrow> c_flow b = c_flow a \<Longrightarrow> ext_out D a c"
  by (fastforce simp: ext_out_def)

lemma ext_out_mono:
  assumes "ext_out D c c'" "\<And>seq d f. D seq d f \<Longrightarrow> E seq d f"
  shows "ext_out E c c'"
proof -
  have seg: "seg_fields (c_flow c) D f opts d \<Longrightarrow> seg_fields (c_flow c) E f opts d" for f opts d
    using assms(2) by (auto simp: seg_fields_def)
  have "valid_out (c_flow c) D x \<Longrightarrow> valid_out (c_flow c) E x" for x
  proof (cases x)
    case (OutPacket pb)
    then show "valid_out (c_flow c) D x \<Longrightarrow> valid_out (c_flow c) E x"
      using seg by (simp only: valid_out.simps) blast
  next
    case (OutGSO buf n po)
    then show "valid_out (c_flow c) D x \<Longrightarrow> valid_out (c_flow c) E x"
      using seg by (simp only: valid_out.simps) blast
  qed simp
  then show ?thesis
    using assms(1) by (auto simp: ext_out_def list_all_iff)
qed

lemma conn_fields_seg:
  assumes "length opts \<le> 40" "length opts mod 4 = 0" "length d \<le> 65495" "d \<noteq> [] \<or> Has flags TCPFlagFIN \<Longrightarrow> D seq d (Has flags TCPFlagFIN)"
  shows "seg_fields (c_flow c) D (conn_fields c seq ack flags wnd opts) opts d"
  using assms by (simp add: seg_fields_def)

lemma sent_out:
  assumes "sent c c' (conn_fields b seq ack flags wnd opts) opts d" "c_flow b = c_flow c"
    "length opts \<le> 40" "length opts mod 4 = 0" "length d \<le> 65495" "d \<noteq> [] \<or> Has flags TCPFlagFIN \<Longrightarrow> D seq d (Has flags TCPFlagFIN)"
  shows "ext_out D c c'"
proof -
  obtain pb where pb: "c_out c' = c_out c @ [OutPacket pb]" "pb_wf pb" "pb_consumed pb + 20 \<le> pb_headroom pb"
      "AsSlice pb = Some (tcp_segment (conn_fields c seq ack flags wnd opts) opts d (fl_DstAddr (c_flow c)) (fl_SrcAddr (c_flow c)))"
    using assms(1,2) by (auto simp: sent_def)
  have "valid_out (c_flow c) D (OutPacket pb)"
    using pb(2-4) conn_fields_seg [of opts d flags D seq c ack wnd, OF assms(3-6)] unfolding valid_out.simps by blast
  then show ?thesis
    using pb(1) by (simp add: ext_out_def)
qed

lemma sent_gso_out:
  assumes "sent_gso c c' (conn_fields c seq ack flags wnd opts) opts d mss"
    "length opts \<le> 40" "length opts mod 4 = 0" "length d \<le> 65495" "d \<noteq> [] \<or> Has flags TCPFlagFIN \<Longrightarrow> D seq d (Has flags TCPFlagFIN)"
  shows "ext_out D c c'"
proof -
  let ?f = "conn_fields c seq ack flags wnd opts"
  let ?w = "\<lambda>ip rest. ip @ TCP_wire (?f\<lparr>tcp_Checksum := the (PseudoHeaderChecksum TCPProtocolNumber (fl_DstAddr (c_flow c))
    (fl_SrcAddr (c_flow c)) (of_nat (20 + length opts + length d)))\<rparr>) @ opts @ d @ rest"
  obtain ip rest po where out: "length ip = 20" "c_out c' = c_out c @ [OutGSO (?w ip rest) (40 + length opts + length d) po]"
    using assms(1) unfolding sent_gso_def by blast
  have "valid_out (c_flow c) D (OutGSO (?w ip rest) (40 + length opts + length d) po)"
    using out(1) conn_fields_seg [of opts d flags D seq c ack wnd, OF assms(2-5)] unfolding valid_out.simps by blast
  then show ?thesis
    unfolding ext_out_def by (intro exI [of _ "[OutGSO (?w ip rest) (40 + length opts + length d) po]"]) (simp only: out(2) list.pred_inject)
qed

lemma flags_fin [simp]: "\<not> Has TCPFlagACK TCPFlagFIN" "\<not> Has TCPFlagRST TCPFlagFIN" "\<not> Has (TCPFlagSYN OR TCPFlagACK) TCPFlagFIN"
  "Has (TCPFlagFIN OR TCPFlagACK) TCPFlagFIN"
  by (simp_all add: Has_def TCPFlagACK_def TCPFlagFIN_def TCPFlagRST_def TCPFlagSYN_def)

lemma length_ts_bytes_mod [simp]: "length (ts_bytes e c) mod 4 = 0"
  by (simp add: length_ts_bytes)

text \<open>What each of the senders contributes: no field changes but those of \<open>core\<close>, and the output is valid.\<close>

definition sends :: "seg_cond \<Rightarrow> TCPConn \<Rightarrow> TCPConn \<Rightarrow> bool" where
  "sends D c c' \<longleftrightarrow> same_out c c' \<and> ext_out D c c'"

lemma sends_sendData:
  assumes "rb_inv (c_readBuf c)" "c_rcv c \<noteq> None" "length d \<le> 65000" "d \<noteq> [] \<Longrightarrow> D seq d False"
  obtains c' where "sendData e c d seq = Some c'" "sends D c c'"
proof -
  obtain w r where "rcv_wnd c = Some w" "c_rcv c = Some r"
    using rcv_wnd_total [OF assms(1)] assms(2) by blast
  from sendData_sent [OF this assms(3), of e seq] obtain c' where c': "sendData e c d seq = Some c'"
      "sent c c' (conn_fields c seq (rcv_nxt r) TCPFlagACK w (ts_bytes e c)) (ts_bytes e c) d"
    by blast
  with assms(3,4) have "ext_out D c c'"
    by (intro sent_out [OF c'(2)]) auto
  then show thesis
    using that c' sentD(1) by (auto simp: sends_def)
qed

lemma sends_RST:
  obtains c' where "sendRSTSegment e c seq = Some c'" "sends D c c'"
proof -
  obtain c' where c': "sendRSTSegment e c seq = Some c'" "sent c c' (conn_fields c seq 0 TCPFlagRST 0 []) [] []"
    by (rule sendRST_sent)
  have "ext_out D c c'"
    by (rule sent_out [OF c'(2)]) auto
  then show thesis
    using that c' sentD(1) by (auto simp: sends_def)
qed

lemma sends_FIN:
  assumes "rb_inv (c_readBuf c)" "D seq [] True"
  obtains c' where "sendFINSegment e c seq = Some c'" "sends D c c'"
proof -
  obtain c' where c': "sendFINSegment e c seq = Some c'"
      "sent c c' (conn_fields c seq (next_ack c) (TCPFlagFIN OR TCPFlagACK) (adv_wnd c) (ts_bytes e c)) (ts_bytes e c) []"
    using sendFIN_sent [OF assms(1)] by blast
  have "ext_out D c c'"
    by (rule sent_out [OF c'(2)]) (use assms(2) in auto)
  then show thesis
    using that c' sentD(1) by (auto simp: sends_def)
qed

lemma sends_ACK:
  assumes "rb_inv (c_readBuf c)"
  obtains c' where "sendACK e c = Some c'" "sends D (reported c) c'"
proof -
  obtain c' where c': "sendACK e c = Some c'"
    "sent (reported c) c' (conn_fields c (next_seq c) (next_ack c) TCPFlagACK (adv_wnd c) (ack_bytes e c (ack_blocks c)))
       (ack_bytes e c (ack_blocks c)) []"
    using sendACK_sent [OF assms] by blast
  have "ext_out D (reported c) c'"
    by (rule sent_out [OF c'(2)]) (use length_ack_bytes [OF ack_blocks_fit, of e c] in auto)
  then show thesis
    using that c' sentD(1) by (auto simp: sends_def)
qed

lemma sends_SYNACK:
  obtains c' where "sendSYNACK e c = Some c'" "sends D c c'"
proof -
  obtain c' where c': "sendSYNACK e c = Some c'"
    "sent c c' (conn_fields c (c_iss c) (c_irs c + 1) (TCPFlagSYN OR TCPFlagACK) (cc_rcvWndSize (c_cfg c)) (synack_bytes e c))
       (synack_bytes e c) []"
    by (rule sendSYNACK_sent)
  have "ext_out D c c'"
    by (rule sent_out [OF c'(2)]) (use length_synack_bytes [of e c] in auto)
  then show thesis
    using that c' sentD(1) by (auto simp: sends_def)
qed

lemma sends_Keepalive:
  assumes "rb_inv (c_readBuf c)"
  obtains c' where "sendKeepaliveProbe e c = Some c'" "sends D c c'"
proof (cases "c_snd c = None \<or> c_rcv c = None")
  case True
  then show thesis
    using that [of c] by (auto simp: sendKeepaliveProbe_def sends_def ext_out_refl split: option.split)
next
  case False
  then obtain s r w where sr: "rcv_wnd c = Some w" "c_rcv c = Some r" "c_snd c = Some s"
    using rcv_wnd_total [OF assms] by auto
  from sendKeepaliveProbe_sent [OF sr] obtain c' where c': "sendKeepaliveProbe e c = Some c'"
    "sent c c' (conn_fields c (snd_una s - 1) (rcv_nxt r) TCPFlagACK w (ts_bytes e c)) (ts_bytes e c) []"
    by blast
  have "ext_out D c c'"
    by (rule sent_out [OF c'(2)]) auto
  then show thesis
    using that c' sentD(1) by (auto simp: sends_def)
qed

end
