(* ===== verification/TcpStream.thy ===== *)
theory TcpStream
  imports TcpTypes
begin

text \<open>
  Sequence numbers as positions of a byte stream. A stream is a function from positions to bytes; position \<open>k\<close>
  has the sequence number \<open>base + k\<close>, modulo \<open>2 ^ 32\<close>. For positions less than \<open>2 ^ 31\<close> apart the comparisons of
  \<open>src/transport/tcp/rcv.go\<close> are the order of the positions.
\<close>

section \<open>Positions\<close>

definition seq_at :: "u32 \<Rightarrow> nat \<Rightarrow> u32" where
  "seq_at base k = base + of_nat k"

lemma seq_at_0 [simp]: "seq_at base 0 = base"
  by (simp add: seq_at_def)

lemma seq_at_add: "seq_at base (k + n) = seq_at base k + of_nat n"
  by (simp add: seq_at_def)

lemma seq_at_Suc: "seq_at base (Suc k) = seq_at base k + 1"
  by (simp add: seq_at_def)

lemma sint_diff:
  assumes "int a - int b < 2 ^ 31" "- (2 ^ 31) \<le> int a - int b"
  shows "sint (seq_at base a - seq_at base b) = int a - int b"
proof -
  have "seq_at base a - seq_at base b = word_of_int (int a - int b)"
    by (simp add: seq_at_def)
  then have "sint (seq_at base a - seq_at base b) = sint (word_of_int (int a - int b) :: u32)"
    by simp
  also have "\<dots> = signed_take_bit 31 (int a - int b)"
    by (simp only: signed_of_int) simp
  also have "\<dots> = int a - int b"
    using assms by (intro signed_take_bit_int_eq_self) simp_all
  finally show ?thesis .
qed

lemma unat_diff:
  assumes "b \<le> a" "a - b < 2 ^ 32"
  shows "unat (seq_at base a - seq_at base b) = a - b"
proof -
  have "seq_at base a = seq_at base b + of_nat (a - b)"
    using assms(1) seq_at_add [of base b "a - b"] by simp
  then have "seq_at base a - seq_at base b = of_nat (a - b)"
    by simp
  then show ?thesis
    using assms(2) by (simp add: unat_of_nat_u32)
qed

text \<open>Positions close enough for a comparison; the lower bound is inclusive.\<close>

definition near :: "nat \<Rightarrow> nat \<Rightarrow> bool" where
  "near a b \<longleftrightarrow> a < b + 2 ^ 31 \<and> b \<le> a + 2 ^ 31"

lemma near_window: "n \<le> a \<Longrightarrow> n \<le> b \<Longrightarrow> a < n + 2 ^ 31 \<Longrightarrow> b < n + 2 ^ 31 \<Longrightarrow> near a b"
  by (auto simp: near_def)

text \<open>Every sequence number has a position near a given one that is large enough.\<close>

lemma near_exists:
  assumes "2 ^ 31 \<le> n"
  obtains a where "seq = seq_at base a" "near a n"
proof -
  define x where "x = sint (seq - seq_at base n)"
  have x: "- (2 ^ 31) \<le> x" "x < 2 ^ 31"
    using sint_ge [of "seq - seq_at base n"] sint_lt [of "seq - seq_at base n"] by (simp_all add: x_def)
  define a where "a = nat (int n + x)"
  have a: "int a = int n + x"
    using assms x(1) by (simp add: a_def)
  then have "seq_at base a = base + word_of_int (int n + x)"
    by (metis of_int_of_nat_eq seq_at_def)
  also have "\<dots> = seq_at base n + word_of_int x"
    by (simp add: seq_at_def)
  also have "\<dots> = seq"
    by (simp add: x_def)
  finally have "seq = seq_at base a" ..
  moreover have "near a n"
    using a x by (simp add: near_def)
  ultimately show thesis
    by (rule that)
qed

lemma seqLessThan_at: "near a b \<Longrightarrow> seqLessThan (seq_at base a) (seq_at base b) \<longleftrightarrow> a < b"
  using sint_diff [of a b base] by (auto simp: seqLessThan_def near_def)

lemma seqGreaterThan_at: "near a b \<Longrightarrow> seqGreaterThan (seq_at base a) (seq_at base b) \<longleftrightarrow> b < a"
  using sint_diff [of a b base] by (auto simp: seqGreaterThan_def near_def)

lemma seq_at_eq: "near a b \<Longrightarrow> seq_at base a = seq_at base b \<longleftrightarrow> a = b"
  using sint_diff [of a b base] by (auto simp: near_def)

lemma seqWithinWindow_at:
  assumes "near a n" "near a (n + w)"
  shows "seqWithinWindow (seq_at base a) (seq_at base n) (of_nat w) \<longleftrightarrow> n \<le> a \<and> a < n + w"
  using assms unfolding seqWithinWindow_def seq_at_add [symmetric] by (auto simp: seqLessThan_at)

lemma of_nat_le_diff:
  assumes "a \<le> n" "n - a < 2 ^ 32" "k < 2 ^ 32"
  shows "of_nat k \<le> seq_at base n - seq_at base a \<longleftrightarrow> k \<le> n - a"
  using assms unat_diff [OF assms(1,2), of base] by (simp add: word_le_nat_alt unat_of_nat_u32)

section \<open>Data at a position\<close>

text \<open>Every byte of \<open>d\<close>, which lies at position \<open>a\<close>, satisfies \<open>P\<close> at its position.\<close>

type_synonym byte_pred = "nat \<Rightarrow> u8 \<Rightarrow> bool"

definition at_pos :: "byte_pred \<Rightarrow> nat \<Rightarrow> bytes \<Rightarrow> bool" where
  "at_pos P a d \<longleftrightarrow> (\<forall>i < length d. P (a + i) (d ! i))"

lemma at_pos_Nil [simp]: "at_pos P a []"
  by (simp add: at_pos_def)

lemma at_pos_Cons [simp]: "at_pos P a (x # d) \<longleftrightarrow> P a x \<and> at_pos P (Suc a) d"
  by (auto simp: at_pos_def All_less_Suc2)

lemma at_pos_append: "at_pos P a (d @ e) \<longleftrightarrow> at_pos P a d \<and> at_pos P (a + length d) e"
  by (induction d arbitrary: a) auto

lemma at_pos_drop: "at_pos P a d \<Longrightarrow> k \<le> length d \<Longrightarrow> at_pos P (a + k) (drop k d)"
  by (metis append_take_drop_id at_pos_append length_take min.absorb2)

lemma at_pos_take: "at_pos P a d \<Longrightarrow> at_pos P a (take k d)"
  by (metis append_take_drop_id at_pos_append)

section \<open>Intervals\<close>

text \<open>
  Sorted pieces of a stream, each a position and the data there, not empty, with a gap before each: \<open>lo\<close> is the
  position before the first gap and \<open>hi\<close> the end of the window.
\<close>

type_synonym ivl = "nat \<times> bytes"

abbreviation ivl_end :: "ivl \<Rightarrow> nat" where
  "ivl_end iv \<equiv> fst iv + length (snd iv)"

fun ivs_ok :: "nat \<Rightarrow> nat \<Rightarrow> ivl list \<Rightarrow> bool" where
  "ivs_ok lo hi [] \<longleftrightarrow> True"
| "ivs_ok lo hi ((a, d) # r) \<longleftrightarrow> lo < a \<and> d \<noteq> [] \<and> a + length d \<le> hi \<and> ivs_ok (a + length d) hi r"

definition cov :: "ivl list \<Rightarrow> nat set" where
  "cov ivs = (\<Union>(a, d) \<in> set ivs. {a..<a + length d})"

definition ivs_at :: "byte_pred \<Rightarrow> ivl list \<Rightarrow> bool" where
  "ivs_at P ivs \<longleftrightarrow> list_all (\<lambda>(a, d). at_pos P a d) ivs"

lemma cov_simps [simp]: "cov [] = {}" "cov ((a, d) # r) = {a..<a + length d} \<union> cov r" "cov (p @ q) = cov p \<union> cov q"
  by (auto simp: cov_def)

lemma ivs_at_simps [simp]: "ivs_at P []" "ivs_at P ((a, d) # r) \<longleftrightarrow> at_pos P a d \<and> ivs_at P r" "ivs_at P (p @ q) \<longleftrightarrow> ivs_at P p \<and> ivs_at P q"
  by (auto simp: ivs_at_def)

definition end_of :: "nat \<Rightarrow> ivl list \<Rightarrow> nat" where
  "end_of lo p = (if p = [] then lo else ivl_end (last p))"

lemma ivs_ok_append: "ivs_ok lo hi (p @ q) \<longleftrightarrow> ivs_ok lo hi p \<and> ivs_ok (end_of lo p) hi q"
  by (induction lo hi p rule: ivs_ok.induct) (auto simp: end_of_def)

lemma ivs_ok_mono: "ivs_ok lo hi ivs \<Longrightarrow> lo' \<le> lo \<Longrightarrow> hi \<le> hi' \<Longrightarrow> ivs_ok lo' hi' ivs"
  by (induction lo hi ivs arbitrary: lo' rule: ivs_ok.induct) auto

lemma ivs_ok_bounds: "ivs_ok lo hi ivs \<Longrightarrow> (a, d) \<in> set ivs \<Longrightarrow> lo < a \<and> d \<noteq> [] \<and> a + length d \<le> hi"
  by (induction lo hi ivs rule: ivs_ok.induct) auto

lemma ivs_ok_cov: "ivs_ok lo hi ivs \<Longrightarrow> cov ivs \<subseteq> {Suc lo..<hi}"
  by (auto simp: cov_def dest: ivs_ok_bounds)

lemma ivs_ok_lower: "ivs_ok lo hi ivs \<Longrightarrow> (\<And>a d r. ivs = (a, d) # r \<Longrightarrow> lo' < a) \<Longrightarrow> ivs_ok lo' hi ivs"
  by (cases ivs) auto

text \<open>Joining a piece with the pieces after it that it reaches. Where they overlap, the earlier one's bytes stay.\<close>

fun join_ivs :: "nat \<Rightarrow> bytes \<Rightarrow> ivl list \<Rightarrow> ivl list" where
  "join_ivs a d [] = [(a, d)]"
| "join_ivs a d ((b, e) # r) = (if a + length d < b then (a, d) # (b, e) # r else join_ivs a (d @ drop (a + length d - b) e) r)"

lemma join_ivs_ok:
  assumes "lo < a" "d \<noteq> []" "a + length d \<le> hi" "ivs_ok k hi ivs" "a \<le> Suc k"
  shows "ivs_ok lo hi (join_ivs a d ivs) \<and> cov (join_ivs a d ivs) = {a..<a + length d} \<union> cov ivs"
  using assms
proof (induction a d ivs arbitrary: k rule: join_ivs.induct)
  case (2 a d b e r)
  show ?case
  proof (cases "a + length d < b")
    case False
    let ?d = "d @ drop (a + length d - b) e"
    have "a + length ?d \<le> hi" "a \<le> b"
      using "2.prems" by auto
    with False "2.prems" have "ivs_ok lo hi (join_ivs a ?d r) \<and> cov (join_ivs a ?d r) = {a..<a + length ?d} \<union> cov r"
      by (intro "2.IH" [of "b + length e"]) auto
    moreover have "{a..<a + length ?d} = {a..<a + length d} \<union> {b..<b + length e}"
      using False \<open>a \<le> b\<close> by auto
    ultimately show ?thesis
      using False by (simp add: Un_assoc)
  qed (use "2.prems" in auto)
qed auto

lemma join_ivs_at:
  assumes "at_pos P a d" "ivs_at P ivs" "ivs_ok k hi ivs" "a \<le> Suc k"
  shows "ivs_at P (join_ivs a d ivs)"
  using assms
proof (induction a d ivs arbitrary: k rule: join_ivs.induct)
  case (2 a d b e r)
  show ?case
  proof (cases "a + length d < b")
    case False
    have "at_pos P (a + length d) (drop (a + length d - b) e)"
    proof (cases "a + length d - b \<le> length e")
      case True
      then show ?thesis
        using at_pos_drop [of P b e "a + length d - b"] False "2.prems"(2) by simp
    qed simp
    then show ?thesis
      using False "2.prems" by (auto simp: at_pos_append intro!: "2.IH" [of "b + length e"])
  qed (use "2.prems" in auto)
qed simp

end
