(* ===== verification/TcpRcvProps.thy ===== *)
theory TcpRcvProps
  imports TcpReceiver TcpSegProps TcpStream
begin

text \<open>
  What the receiver of \<open>src/transport/tcp/rcv.go\<close> guarantees: whatever the order in which the segments of the peer's
  stream arrive, also repeated and overlapping, the read buffer is given exactly the stream, without gaps, as far
  as it arrived; and no segment, however malformed its sequence number, makes it fail.
\<close>

section \<open>Out-of-order segments as intervals\<close>

definition oo_seg :: "u32 \<Rightarrow> ivl \<Rightarrow> oooSegment" where
  "oo_seg base = (\<lambda>(a, d). \<lparr>oo_seq = seq_at base a, oo_data = d\<rparr>)"

lemma oo_seg_simps [simp]:
  "oo_seq (oo_seg base (a, d)) = seq_at base a" "oo_data (oo_seg base (a, d)) = d"
  "(oo_seg base (a, d))\<lparr>oo_data := e\<rparr> = oo_seg base (a, e)" "oo_end (oo_seg base (a, d)) = seq_at base (a + length d)"
  by (simp_all add: oo_seg_def oo_end_def seq_at_def)

lemma merge_next_join:
  assumes "lo \<le> a" "a + length d \<le> hi" "hi < lo + 2 ^ 31" "ivs_ok k hi ivs" "a \<le> Suc k"
  shows "merge_next (oo_seg base (a, d)) (map (oo_seg base) ivs) = Some (map (oo_seg base) (join_ivs a d ivs))"
  using assms
proof (induction a d ivs arbitrary: k rule: join_ivs.induct)
  case (2 a d b e r)
  have be: "k < b" "e \<noteq> []" "b + length e \<le> hi" "ivs_ok (b + length e) hi r"
    using "2.prems" by auto
  have nr: "near (a + length d) b" "near (b + length e) (a + length d)"
    using "2.prems" be by (auto intro!: near_window [of lo])
  show ?case
  proof (cases "a + length d < b")
    case False
    let ?n = "a + length d - b"
    have ih: "merge_next (oo_seg base (a, d @ drop ?n e)) (map (oo_seg base) r) = Some (map (oo_seg base) (join_ivs a (d @ drop ?n e) r))"
      using False "2.prems" be by (intro "2.IH" [of "b + length e"]) auto
    have un: "unat (seq_at base (a + length d) - seq_at base b) = ?n"
      using False be "2.prems" by (intro unat_diff) auto
    show ?thesis
    proof (cases "a + length d < b + length e")
      case True
      then show ?thesis
        using False ih nr un by (simp add: seqLessThan_at seqGreaterThan_at)
    next
      case le: False
      then show ?thesis
        using False ih nr by (simp add: seqLessThan_at seqGreaterThan_at)
    qed
  qed (use nr in \<open>simp add: seqLessThan_at\<close>)
qed simp

text \<open>What \<open>insertOOO\<close> may change in the receiver.\<close>

definition same_but_ooo :: "receiver \<Rightarrow> receiver \<Rightarrow> bool" where
  "same_but_ooo r r' \<longleftrightarrow> r' = r\<lparr>rcv_ooo := rcv_ooo r', rcv_dsackBlock := rcv_dsackBlock r', rcv_hasDSACKBlock := rcv_hasDSACKBlock r'\<rparr>"

lemma same_but_oooD:
  assumes "same_but_ooo r r'"
  shows "rcv_irs r' = rcv_irs r" "rcv_nxt r' = rcv_nxt r" "rcv_finReceived r' = rcv_finReceived r" "rcv_finSeq r' = rcv_finSeq r"
    "rcv_autoTune r' = rcv_autoTune r"
proof -
  obtain x y z where "r' = r\<lparr>rcv_ooo := x, rcv_dsackBlock := y, rcv_hasDSACKBlock := z\<rparr>"
    using assms unfolding same_but_ooo_def by blast
  then show "rcv_irs r' = rcv_irs r" "rcv_nxt r' = rcv_nxt r" "rcv_finReceived r' = rcv_finReceived r"
      "rcv_finSeq r' = rcv_finSeq r" "rcv_autoTune r' = rcv_autoTune r"
    by simp_all
qed

text \<open>The list before the insertion point and from there on.\<close>

lemma insertion_point:
  assumes "ivs_ok n hi ivs" "n < a" "a \<le> hi" "hi < n + 2 ^ 31"
  obtains p q where "ivs = p @ q" "ivs_ok n hi p" "ivs_ok (end_of n p) hi q" "ivs_ok (a - 1) hi q"
    "\<And>iv. iv \<in> set p \<Longrightarrow> fst iv < a"
    "length (takeWhile (\<lambda>entry. seqLessThan (oo_seq entry) (seq_at base a)) (map (oo_seg base) ivs)) = length p"
proof -
  define p q where "p = takeWhile (\<lambda>iv. fst iv < a) ivs" and "q = dropWhile (\<lambda>iv. fst iv < a) ivs"
  have pq: "ivs = p @ q"
    by (simp add: p_def q_def)
  then have ok: "ivs_ok n hi p" "ivs_ok (end_of n p) hi q"
    using assms(1) by (simp_all add: ivs_ok_append)
  have "a - 1 < c" if "q = (c, d) # r" for c d r
    using that assms(2) hd_dropWhile [of "\<lambda>iv. fst iv < a" ivs] by (auto simp: q_def)
  then have "ivs_ok (a - 1) hi q"
    by (rule ivs_ok_lower [OF ok(2)])
  moreover have "fst iv < a" if "iv \<in> set p" for iv
    using that set_takeWhileD [of iv "\<lambda>iv. fst iv < a" ivs] by (simp add: p_def)
  moreover have "length (takeWhile (\<lambda>entry. seqLessThan (oo_seq entry) (seq_at base a)) (map (oo_seg base) ivs)) = length p"
  proof -
    have "seqLessThan (oo_seq (oo_seg base iv)) (seq_at base a) = (fst iv < a)" if "iv \<in> set ivs" for iv
    proof (cases iv)
      case (Pair c d)
      then have "n < c" "c + length d \<le> hi"
        using ivs_ok_bounds [OF assms(1)] that by auto
      then have "near c a"
        using assms by (intro near_window [of n]) auto
      then show ?thesis
        using Pair by (simp add: seqLessThan_at)
    qed
    then have "takeWhile ((\<lambda>entry. seqLessThan (oo_seq entry) (seq_at base a)) \<circ> oo_seg base) ivs = p"
      unfolding p_def by (intro takeWhile_cong) auto
    then show ?thesis
      by (simp add: takeWhile_map)
  qed
  ultimately show thesis
    using that pq ok by blast
qed

lemma join_at:
  assumes "ivs_ok n hi p" "end_of n p < a" "d \<noteq> []" "a + length d \<le> hi" "ivs_ok k hi q" "a \<le> Suc k"
  shows "ivs_ok n hi (p @ join_ivs a d q)" "cov (p @ join_ivs a d q) = cov p \<union> {a..<a + length d} \<union> cov q"
    "ivs_at P p \<Longrightarrow> at_pos P a d \<Longrightarrow> ivs_at P q \<Longrightarrow> ivs_at P (p @ join_ivs a d q)"
  using join_ivs_ok [OF assms(2-6)] assms(1) join_ivs_at [OF _ _ assms(5,6)] by (auto simp: ivs_ok_append)

lemma insertOOO_contained:
  assumes "ivs_ok n hi ivs" "n < a" "a + length d \<le> hi" "hi < n + 2 ^ 31"
  shows "list_ex (\<lambda>entry. \<not> seqLessThan (seq_at base a) (oo_seq entry) \<and> \<not> seqGreaterThan (seq_at base (a + length d)) (oo_end entry))
    (map (oo_seg base) ivs) \<longleftrightarrow> (\<exists>iv \<in> set ivs. fst iv \<le> a \<and> a + length d \<le> ivl_end iv)"
proof -
  have "(\<not> seqLessThan (seq_at base a) (oo_seq (oo_seg base iv)) \<and> \<not> seqGreaterThan (seq_at base (a + length d)) (oo_end (oo_seg base iv)))
      = (fst iv \<le> a \<and> a + length d \<le> ivl_end iv)" if "iv \<in> set ivs" for iv
  proof (cases iv)
    case (Pair c e)
    then have "n < c" "c + length e \<le> hi"
      using ivs_ok_bounds [OF assms(1)] that by auto
    then have "near a c" "near (a + length d) (c + length e)"
      using assms by (auto intro!: near_window [of n])
    then show ?thesis
      using Pair by (auto simp: seqLessThan_at seqGreaterThan_at)
  qed
  then show ?thesis
    by (auto simp: list_ex_iff)
qed

text \<open>Merging with the preceding piece, for a piece that no other contains.\<close>

lemma merge_prev_eq:
  assumes "ivs_ok n hi p" "n < a" "d \<noteq> []" "a + length d \<le> hi" "hi < n + 2 ^ 31"
    "\<And>iv. iv \<in> set p \<Longrightarrow> fst iv < a \<and> ivl_end iv < a + length d"
  shows "merge_prev (map (oo_seg base) (p @ q)) (length p) (seq_at base a) d =
    (if p \<noteq> [] \<and> a \<le> ivl_end (last p)
     then Some (length p - 1, oo_seg base (fst (last p), snd (last p) @ drop (ivl_end (last p) - a) d))
     else Some (length p, oo_seg base (a, d)))"
proof (cases p rule: rev_cases)
  case Nil
  then show ?thesis
    by (simp add: merge_prev_def oo_seg_def)
next
  case (snoc p' iv)
  obtain c e where ce: "iv = (c, e)" "n < c" "c + length e \<le> hi" "c < a" "c + length e < a + length d"
    using snoc assms(6) [of iv] ivs_ok_bounds [OF assms(1)] by (cases iv) auto
  have nr: "near (c + length e) a" "near (a + length d) (c + length e)"
    using assms ce by (auto intro!: near_window [of n])
  have new: "\<lparr>oo_seq = seq_at base a, oo_data = d\<rparr> = oo_seg base (a, d)"
    by (simp add: oo_seg_def)
  have un: "unat (seq_at base (c + length e) - seq_at base a) = c + length e - a" if "a \<le> c + length e"
    using that ce assms by (intro unat_diff) auto
  have nth: "map (oo_seg base) ((p' @ [(c, e)]) @ q) ! length p' = oo_seg base (c, e)"
    by (simp add: nth_append)
  show ?thesis
    using ce nr un unfolding snoc ce(1) merge_prev_def new nth
    by (simp add: nth_append seqLessThan_at seqGreaterThan_at Let_def)
qed

text \<open>Where the merged list goes and what it replaces.\<close>

lemma insert_rest:
  assumes q: "ivs_ok (a - 1) hi q" "n < a" "a + length d \<le> hi" "hi < n + 2 ^ 31"
    and nc: "\<forall>iv \<in> set q. fst iv = a \<longrightarrow> ivl_end iv < a + length d"
  obtains q' k where "(if length p < length (p @ q) \<and> oo_seq (map (oo_seg base) (p @ q) ! length p) = seq_at base a
      then drop (length p + 1) (map (oo_seg base) (p @ q)) else drop (length p) (map (oo_seg base) (p @ q))) = map (oo_seg base) q'"
    "ivs_ok k hi q'" "a \<le> Suc k" "{a..<a + length d} \<union> cov q' = {a..<a + length d} \<union> cov q" "ivs_at P q \<Longrightarrow> ivs_at P q'"
proof (cases q)
  case Nil
  then show thesis
    using that [of "[]" a] by simp
next
  case (Cons iv r)
  obtain c e where ce: "iv = (c, e)" "a \<le> c" "c + length e \<le> hi" "ivs_ok (c + length e) hi r"
    using q(1) Cons by (cases iv) auto
  have "near c a"
    using q ce by (intro near_window [of n]) auto
  then have eq: "seq_at base c = seq_at base a \<longleftrightarrow> c = a"
    by (rule seq_at_eq)
  show thesis
  proof (cases "c = a")
    case True
    then have "length e < length d"
      using nc Cons ce(1) by simp
    then have "{a..<a + length d} \<union> cov r = {a..<a + length d} \<union> ({a..<a + length e} \<union> cov r)"
      by auto
    then show thesis
      using that [of r "c + length e"] True Cons ce eq by (auto simp: nth_append)
  next
    case False
    then show thesis
      using that [of q "a - 1"] Cons ce eq q(1) by (auto simp: nth_append)
  qed
qed

text \<open>\<open>insertOOO\<close> adds exactly the new positions and keeps the pieces sorted and apart.\<close>

definition inserted :: "byte_pred \<Rightarrow> nat \<Rightarrow> nat \<Rightarrow> u32 \<Rightarrow> receiver \<Rightarrow> ivl list \<Rightarrow> nat \<Rightarrow> bytes \<Rightarrow> receiver \<Rightarrow> bool" where
  "inserted P n hi base r ivs a d r' \<longleftrightarrow> same_but_ooo r r' \<and> (\<exists>ivs'. rcv_ooo r' = map (oo_seg base) ivs' \<and> ivs_ok n hi ivs' \<and>
     cov ivs' = cov ivs \<union> {a..<a + length d} \<and> (ivs_at P ivs \<longrightarrow> at_pos P a d \<longrightarrow> ivs_at P ivs'))"

lemma insertedI:
  assumes "r' = r\<lparr>rcv_ooo := map (oo_seg base) ivs'\<rparr>" "ivs_ok n hi ivs'" "cov ivs' = cov ivs \<union> {a..<a + length d}"
    "ivs_at P ivs \<Longrightarrow> at_pos P a d \<Longrightarrow> ivs_at P ivs'"
  shows "inserted P n hi base r ivs a d r'"
  unfolding inserted_def same_but_ooo_def using assms by (intro conjI exI [of _ ivs']) simp_all

lemma insert_before:
  assumes ok: "ivs_ok n hi (p' @ [(c, e)])" and q: "ivs_ok (c + length e) hi q" and a: "c < a" "a \<le> c + length e"
    and d: "c + length e < a + length d" "a + length d \<le> hi" "hi < n + 2 ^ 31" and x: "x = e @ drop (c + length e - a) d"
    and r': "merge_next (oo_seg base (c, x)) (map (oo_seg base) q) \<bind> (\<lambda>m. Some (r\<lparr>rcv_ooo := map (oo_seg base) p' @ m\<rparr>)) = z"
  shows "\<exists>r'. z = Some r' \<and> inserted P n hi base r ((p' @ [(c, e)]) @ q) a d r'"
proof -
  have c: "end_of n p' < c" "ivs_ok n hi p'" "x \<noteq> []" "c + length x = a + length d" "c \<le> Suc (c + length e)" "n \<le> c"
    using ok a d x ivs_ok_bounds [OF ok, of c e] by (auto simp: ivs_ok_append end_of_def)
  have mn: "merge_next (oo_seg base (c, x)) (map (oo_seg base) q) = Some (map (oo_seg base) (join_ivs c x q))"
    by (rule merge_next_join [OF c(6) _ d(3) q c(5)]) (use c d in simp)
  have xh: "c + length x \<le> hi"
    using c(4) d(2) by simp
  note j = join_at [OF c(2,1,3) xh q c(5)]
  have "{c..<a + length d} = {c..<c + length e} \<union> {a..<a + length d}"
    using a d by auto
  then have "cov (p' @ join_ivs c x q) = cov ((p' @ [(c, e)]) @ q) \<union> {a..<a + length d}"
    using j(2) c(4) by auto
  moreover have "at_pos P c x" if "at_pos P c e" "at_pos P a d"
    using that at_pos_drop [OF that(2), of "c + length e - a"] a d(1) unfolding x by (simp add: at_pos_append)
  ultimately have "inserted P n hi base r ((p' @ [(c, e)]) @ q) a d (r\<lparr>rcv_ooo := map (oo_seg base) (p' @ join_ivs c x q)\<rparr>)"
    by (intro insertedI [OF refl j(1)] j(3)) auto
  then show ?thesis
    using r' mn by auto
qed

lemma insertOOO_spec:
  assumes ooo: "rcv_ooo r = map (oo_seg base) ivs"
    and ok: "ivs_ok n hi ivs" and ab: "n < a" "d \<noteq> []" "a + length d \<le> hi" "hi < n + 2 ^ 31"
  shows "\<exists>r'. insertOOO r (seq_at base a) d = Some r' \<and> inserted P n hi base r ivs a d r'"
proof (cases "\<exists>iv \<in> set ivs. fst iv \<le> a \<and> a + length d \<le> ivl_end iv")
  case True
  then have "cov ivs = cov ivs \<union> {a..<a + length d}"
    unfolding cov_def by force
  then have "inserted P n hi base r ivs a d (dsack (seq_at base a) (seq_at base (a + length d)) r)"
    using ok ooo unfolding inserted_def by (intro conjI exI [of _ ivs]) (simp_all add: dsack_def same_but_ooo_def)
  then show ?thesis
    using True insertOOO_contained [OF ok ab(1,3,4), of base] ooo by (simp add: insertOOO_def Let_def seq_at_add [symmetric])
next
  case False
  have "a \<le> hi"
    using ab by simp
  from insertion_point [OF ok ab(1) this ab(4), of base]
  obtain p q where pq: "ivs = p @ q" "ivs_ok n hi p" "ivs_ok (end_of n p) hi q" "ivs_ok (a - 1) hi q"
      "\<And>iv. iv \<in> set p \<Longrightarrow> fst iv < a"
      "length (takeWhile (\<lambda>entry. seqLessThan (oo_seq entry) (seq_at base a)) (map (oo_seg base) ivs)) = length p"
    by metis
  have nc: "\<not> (fst iv \<le> a \<and> a + length d \<le> ivl_end iv)" if "iv \<in> set ivs" for iv
    using that False by blast
  have prev: "fst iv < a \<and> ivl_end iv < a + length d" if "iv \<in> set p" for iv
    using that pq(1) pq(5) [OF that] nc [of iv] by auto
  have mp: "merge_prev (map (oo_seg base) (p @ q)) (length p) (seq_at base a) d =
      (if p \<noteq> [] \<and> a \<le> ivl_end (last p)
       then Some (length p - 1, oo_seg base (fst (last p), snd (last p) @ drop (ivl_end (last p) - a) d))
       else Some (length p, oo_seg base (a, d)))"
    by (rule merge_prev_eq [OF pq(2) ab prev])
  have nl: "\<not> list_ex (\<lambda>entry. \<not> seqLessThan (seq_at base a) (oo_seq entry) \<and>
      \<not> seqGreaterThan (seq_at base (a + length d)) (oo_end entry)) (map (oo_seg base) ivs)"
    using False by (simp only: insertOOO_contained [OF ok ab(1,3,4)] not_False_eq_True)
  have start: "insertOOO r (seq_at base a) d = do {
      (i, cur) \<leftarrow> merge_prev (map (oo_seg base) (p @ q)) (length p) (seq_at base a) d;
      let rest = (if i < length (p @ q) \<and> oo_seq (map (oo_seg base) (p @ q) ! i) = oo_seq cur
                  then drop (i + 1) (map (oo_seg base) (p @ q)) else drop i (map (oo_seg base) (p @ q)));
      merged \<leftarrow> merge_next cur rest;
      Some (r\<lparr>rcv_ooo := take i (map (oo_seg base) (p @ q)) @ merged\<rparr>) }"
    using nl pq(6) unfolding insertOOO_def Let_def ooo seq_at_add [symmetric] pq(1) by (simp only: if_False length_map)
  show ?thesis
  proof (cases "p \<noteq> [] \<and> a \<le> ivl_end (last p)")
    case True
    then obtain p' c e where p': "p = p' @ [(c, e)]" "a \<le> c + length e"
      using that [of "butlast p" "fst (last p)" "snd (last p)"] by auto
    have "c < a" "c + length e < a + length d" "ivs_ok (c + length e) hi q"
      using prev [of "(c, e)"] pq(3) p'(1) by (auto simp: end_of_def)
    moreover have "insertOOO r (seq_at base a) d = merge_next (oo_seg base (c, e @ drop (c + length e - a) d)) (map (oo_seg base) q) \<bind>
        (\<lambda>m. Some (r\<lparr>rcv_ooo := map (oo_seg base) p' @ m\<rparr>))"
      using p'(2) unfolding start mp unfolding p'(1) by (simp add: nth_append)
    ultimately show ?thesis
      using insert_before [OF pq(2) [unfolded p'(1)], of q a d _ base r, OF _ _ p'(2) _ ab(3,4) refl refl] unfolding pq(1) p'(1) by metis
  next
    case apart: False
    have "\<forall>iv \<in> set q. fst iv = a \<longrightarrow> ivl_end iv < a + length d"
      using nc pq(1) by fastforce
    from insert_rest [OF pq(4) ab(1,3,4) this, of p base P] obtain q' k where q':
      "(if length p < length (p @ q) \<and> oo_seq (map (oo_seg base) (p @ q) ! length p) = seq_at base a
      then drop (length p + 1) (map (oo_seg base) (p @ q)) else drop (length p) (map (oo_seg base) (p @ q))) = map (oo_seg base) q'"
      "ivs_ok k hi q'" "a \<le> Suc k" "{a..<a + length d} \<union> cov q' = {a..<a + length d} \<union> cov q" "ivs_at P q \<Longrightarrow> ivs_at P q'"
      by blast
    have mn: "merge_next (oo_seg base (a, d)) (map (oo_seg base) q') = Some (map (oo_seg base) (join_ivs a d q'))"
      using q' ab by (intro merge_next_join [of n a d hi k]) auto
    have "insertOOO r (seq_at base a) d = Some (r\<lparr>rcv_ooo := map (oo_seg base) (p @ join_ivs a d q')\<rparr>)"
      using apart mn unfolding start mp by (simp only: if_False option.simps bind.simps prod.case oo_seg_simps Let_def q'(1)) simp
    moreover have "end_of n p < a"
      using apart ab by (auto simp: end_of_def)
    note j = join_at [OF pq(2) this ab(2,3) q'(2,3)]
    have "inserted P n hi base r ivs a d (r\<lparr>rcv_ooo := map (oo_seg base) (p @ join_ivs a d q')\<rparr>)"
      by (rule insertedI [OF refl j(1)]) (use j(2,3) q'(4,5) pq(1) in auto)
    ultimately show ?thesis
      by blast
  qed
qed

section \<open>What receiving changes in the connection\<close>

definition rcv_core :: "TCPConn \<Rightarrow> TCPConn" where
  "rcv_core c = (core c)\<lparr>c_rcv := None, c_readBuf := newRingBuffer 1, c_state := stateClosed, c_delayedACKTimer := None\<rparr>"

definition same_rcv :: "TCPConn \<Rightarrow> TCPConn \<Rightarrow> bool" where
  "same_rcv c c' \<longleftrightarrow> rcv_core c' = rcv_core c"

lemma same_rcv_refl [simp]: "same_rcv c c"
  by (simp add: same_rcv_def)

lemma same_rcv_trans [trans]: "same_rcv a b \<Longrightarrow> same_rcv b c \<Longrightarrow> same_rcv a c"
  by (simp add: same_rcv_def)

lemma same_out_rcv: "same_out c c' \<Longrightarrow> same_rcv c c'"
  by (simp add: same_rcv_def rcv_core_def same_out_def)

lemma same_rcv_updates [simp]:
  "same_rcv c (c\<lparr>c_rcv := r\<rparr>)" "same_rcv c (c\<lparr>c_readBuf := b\<rparr>)" "same_rcv c (c\<lparr>c_state := st\<rparr>)"
  "same_rcv c (set_rcv r' c)" "same_rcv c (cancelDelayedACK c)" "same_rcv c (tcp_count f c)" "same_rcv c (reported c)"
  by (auto simp: same_rcv_def rcv_core_def core_def set_rcv_def cancelDelayedACK_def tcp_count_def reported_def split: option.split)

lemma same_rcvD:
  assumes "same_rcv c c'"
  shows "c_flow c' = c_flow c" "c_iss c' = c_iss c" "c_irs c' = c_irs c" "c_sndWndScale c' = c_sndWndScale c"
    "c_rcvWndScale c' = c_rcvWndScale c" "c_sackPermitted c' = c_sackPermitted c" "c_peerMSS c' = c_peerMSS c"
    "c_tsEnabled c' = c_tsEnabled c" "c_tsRecent c' = c_tsRecent c" "c_tsOffset c' = c_tsOffset c"
    "c_noDelay c' = c_noDelay c" "c_unackedSegs c' = c_unackedSegs c" "c_zeroWindowTimer c' = c_zeroWindowTimer c"
    "c_zeroWindowProbing c' = c_zeroWindowProbing c" "c_probeInterval c' = c_probeInterval c"
    "c_keepaliveTimer c' = c_keepaliveTimer c" "c_keepaliveProbes c' = c_keepaliveProbes c"
    "c_writeShutdown c' = c_writeShutdown c" "c_readShutdown c' = c_readShutdown c"
    "c_finPending c' = c_finPending c" "c_snd c' = c_snd c" "c_writeBuf c' = c_writeBuf c"
    "c_writeNotify c' = c_writeNotify c" "c_windowNotify c' = c_windowNotify c" "c_inbound c' = c_inbound c"
    "c_inboundCap c' = c_inboundCap c" "c_done c' = c_done c" "c_closeOnce c' = c_closeOnce c"
    "c_closeReadOnce c' = c_closeReadOnce c" "c_closeCh c' = c_closeCh c" "c_forceCloseCh c' = c_forceCloseCh c"
    "c_timeWaitTimer c' = c_timeWaitTimer c" "c_finWait2Timer c' = c_finWait2Timer c"
    "c_synRcvdTimer c' = c_synRcvdTimer c" "c_rtoTimer c' = c_rtoTimer c" "c_statsActive c' = c_statsActive c"
    "c_snapshotData c' = c_snapshotData c" "c_cfg c' = c_cfg c"
proof -
  have eq: "rcv_core c' = rcv_core c"
    using assms by (simp add: same_rcv_def)
  show "c_flow c' = c_flow c" "c_iss c' = c_iss c" "c_irs c' = c_irs c" "c_sndWndScale c' = c_sndWndScale c"
    "c_rcvWndScale c' = c_rcvWndScale c" "c_sackPermitted c' = c_sackPermitted c" "c_peerMSS c' = c_peerMSS c"
    "c_tsEnabled c' = c_tsEnabled c" "c_tsRecent c' = c_tsRecent c" "c_tsOffset c' = c_tsOffset c"
    "c_noDelay c' = c_noDelay c" "c_unackedSegs c' = c_unackedSegs c" "c_zeroWindowTimer c' = c_zeroWindowTimer c"
    "c_zeroWindowProbing c' = c_zeroWindowProbing c" "c_probeInterval c' = c_probeInterval c"
    "c_keepaliveTimer c' = c_keepaliveTimer c" "c_keepaliveProbes c' = c_keepaliveProbes c"
    "c_writeShutdown c' = c_writeShutdown c" "c_readShutdown c' = c_readShutdown c"
    "c_finPending c' = c_finPending c" "c_snd c' = c_snd c" "c_writeBuf c' = c_writeBuf c"
    "c_writeNotify c' = c_writeNotify c" "c_windowNotify c' = c_windowNotify c" "c_inbound c' = c_inbound c"
    "c_inboundCap c' = c_inboundCap c" "c_done c' = c_done c" "c_closeOnce c' = c_closeOnce c"
    "c_closeReadOnce c' = c_closeReadOnce c" "c_closeCh c' = c_closeCh c" "c_forceCloseCh c' = c_forceCloseCh c"
    "c_timeWaitTimer c' = c_timeWaitTimer c" "c_finWait2Timer c' = c_finWait2Timer c"
    "c_synRcvdTimer c' = c_synRcvdTimer c" "c_rtoTimer c' = c_rtoTimer c" "c_statsActive c' = c_statsActive c"
    "c_snapshotData c' = c_snapshotData c" "c_cfg c' = c_cfg c"
    subgoal using arg_cong [OF eq, of c_flow] by (simp add: rcv_core_def core_def)
    subgoal using arg_cong [OF eq, of c_iss] by (simp add: rcv_core_def core_def)
    subgoal using arg_cong [OF eq, of c_irs] by (simp add: rcv_core_def core_def)
    subgoal using arg_cong [OF eq, of c_sndWndScale] by (simp add: rcv_core_def core_def)
    subgoal using arg_cong [OF eq, of c_rcvWndScale] by (simp add: rcv_core_def core_def)
    subgoal using arg_cong [OF eq, of c_sackPermitted] by (simp add: rcv_core_def core_def)
    subgoal using arg_cong [OF eq, of c_peerMSS] by (simp add: rcv_core_def core_def)
    subgoal using arg_cong [OF eq, of c_tsEnabled] by (simp add: rcv_core_def core_def)
    subgoal using arg_cong [OF eq, of c_tsRecent] by (simp add: rcv_core_def core_def)
    subgoal using arg_cong [OF eq, of c_tsOffset] by (simp add: rcv_core_def core_def)
    subgoal using arg_cong [OF eq, of c_noDelay] by (simp add: rcv_core_def core_def)
    subgoal using arg_cong [OF eq, of c_unackedSegs] by (simp add: rcv_core_def core_def)
    subgoal using arg_cong [OF eq, of c_zeroWindowTimer] by (simp add: rcv_core_def core_def)
    subgoal using arg_cong [OF eq, of c_zeroWindowProbing] by (simp add: rcv_core_def core_def)
    subgoal using arg_cong [OF eq, of c_probeInterval] by (simp add: rcv_core_def core_def)
    subgoal using arg_cong [OF eq, of c_keepaliveTimer] by (simp add: rcv_core_def core_def)
    subgoal using arg_cong [OF eq, of c_keepaliveProbes] by (simp add: rcv_core_def core_def)
    subgoal using arg_cong [OF eq, of c_writeShutdown] by (simp add: rcv_core_def core_def)
    subgoal using arg_cong [OF eq, of c_readShutdown] by (simp add: rcv_core_def core_def)
    subgoal using arg_cong [OF eq, of c_finPending] by (simp add: rcv_core_def core_def)
    subgoal using arg_cong [OF eq, of c_snd] by (simp add: rcv_core_def core_def)
    subgoal using arg_cong [OF eq, of c_writeBuf] by (simp add: rcv_core_def core_def)
    subgoal using arg_cong [OF eq, of c_writeNotify] by (simp add: rcv_core_def core_def)
    subgoal using arg_cong [OF eq, of c_windowNotify] by (simp add: rcv_core_def core_def)
    subgoal using arg_cong [OF eq, of c_inbound] by (simp add: rcv_core_def core_def)
    subgoal using arg_cong [OF eq, of c_inboundCap] by (simp add: rcv_core_def core_def)
    subgoal using arg_cong [OF eq, of c_done] by (simp add: rcv_core_def core_def)
    subgoal using arg_cong [OF eq, of c_closeOnce] by (simp add: rcv_core_def core_def)
    subgoal using arg_cong [OF eq, of c_closeReadOnce] by (simp add: rcv_core_def core_def)
    subgoal using arg_cong [OF eq, of c_closeCh] by (simp add: rcv_core_def core_def)
    subgoal using arg_cong [OF eq, of c_forceCloseCh] by (simp add: rcv_core_def core_def)
    subgoal using arg_cong [OF eq, of c_timeWaitTimer] by (simp add: rcv_core_def core_def)
    subgoal using arg_cong [OF eq, of c_finWait2Timer] by (simp add: rcv_core_def core_def)
    subgoal using arg_cong [OF eq, of c_synRcvdTimer] by (simp add: rcv_core_def core_def)
    subgoal using arg_cong [OF eq, of c_rtoTimer] by (simp add: rcv_core_def core_def)
    subgoal using arg_cong [OF eq, of c_statsActive] by (simp add: rcv_core_def core_def)
    subgoal using arg_cong [OF eq, of c_snapshotData] by (simp add: rcv_core_def core_def)
    subgoal using arg_cong [OF eq, of c_cfg] by (simp add: rcv_core_def core_def)
    done
qed

section \<open>Delivery\<close>

abbreviation rcv_free :: "TCPConn \<Rightarrow> nat" where
  "rcv_free c \<equiv> Cap (c_readBuf c) - length (contents (c_readBuf c))"

text \<open>
  The receiver \<open>r\<close> of a connection whose read side is open. All buffer sizes are far below the \<open>2 ^ 31\<close> at which
  sequence numbers become ambiguous.
\<close>

definition rcv_open :: "TCPConn \<Rightarrow> receiver \<Rightarrow> bool" where
  "rcv_open c r \<longleftrightarrow> c_rcv c = Some r \<and> rb_inv (c_readBuf c) \<and> \<not> rb_closed (c_readBuf c) \<and> \<not> c_readShutdown c \<and>
     Cap (c_readBuf c) \<le> 2 ^ 30 \<and> at_readBufSize (rcv_autoTune r) \<le> 2 ^ 30 \<and> at_maxBufSize (rcv_autoTune r) \<le> 2 ^ 30"

text \<open>The step from \<open>c\<close> to \<open>c'\<close> appended \<open>d\<close> to the read buffer, which may have grown, and touched no other part but \<open>autoTune\<close>.\<close>

definition delivered :: "bytes \<Rightarrow> TCPConn \<Rightarrow> receiver \<Rightarrow> TCPConn \<Rightarrow> receiver \<Rightarrow> bool" where
  "delivered d c r c' r' \<longleftrightarrow> rcv_open c' r' \<and> r' = r\<lparr>rcv_autoTune := rcv_autoTune r'\<rparr> \<and> same_rcv c c' \<and> c_state c' = c_state c \<and>
     c_out c' = c_out c \<and> contents (c_readBuf c') = contents (c_readBuf c) @ d \<and> Cap (c_readBuf c) \<le> Cap (c_readBuf c')"

lemma grow_delivered:
  assumes "rcv_open c r" "n \<le> 2 ^ 30" "at_readBufSize a \<le> 2 ^ 30" "at_maxBufSize a \<le> 2 ^ 30"
  shows "\<exists>rb. Grow (c_readBuf c) n = Some rb \<and>
    delivered [] c r (set_rcv (r\<lparr>rcv_autoTune := a\<rparr>) (c\<lparr>c_readBuf := rb\<rparr>)) (r\<lparr>rcv_autoTune := a\<rparr>)"
proof -
  obtain rb where "Grow (c_readBuf c) n = Some rb" "rb_inv rb" "contents rb = contents (c_readBuf c)"
      "Cap rb = max n (Cap (c_readBuf c))" "rb_closed rb = rb_closed (c_readBuf c)"
    using Grow_spec [of "c_readBuf c" n] assms(1) by (auto simp: rcv_open_def)
  then show ?thesis
    using assms by (auto simp: delivered_def rcv_open_def set_rcv_def same_rcv_def rcv_core_def core_def)
qed

lemma tune_delivered:
  assumes "rcv_open c r" "at_readBufSize a \<le> 2 ^ 30" "at_maxBufSize a \<le> 2 ^ 30"
  shows "delivered [] c r (set_rcv (r\<lparr>rcv_autoTune := a\<rparr>) c) (r\<lparr>rcv_autoTune := a\<rparr>)"
  using assms by (auto simp: delivered_def rcv_open_def set_rcv_def same_rcv_def rcv_core_def core_def)

lemma delivered_trans:
  assumes "delivered d c r c' r'" "delivered d' c' r' c'' r''"
  shows "delivered (d @ d') c r c'' r''"
proof -
  obtain a b where "r' = r\<lparr>rcv_autoTune := a\<rparr>" "r'' = r'\<lparr>rcv_autoTune := b\<rparr>"
    using assms unfolding delivered_def by blast
  then have "r'' = r\<lparr>rcv_autoTune := rcv_autoTune r''\<rparr>"
    by simp
  with assms show ?thesis
    by (auto simp: delivered_def intro: same_rcv_trans)
qed

lemma autoTuneCheck_delivered:
  assumes "rcv_open c r"
  shows "\<exists>c' r'. autoTuneCheck e c = Some c' \<and> delivered [] c r c' r'"
proof -
  let ?a = "rcv_autoTune r" and ?cur = "Cap (c_readBuf c)"
  let ?b = "?a\<lparr>at_measureStart := Some (e_now e), at_bytesDelivered := 0\<rparr>"
  have sz: "at_readBufSize ?b \<le> 2 ^ 30" "at_maxBufSize ?b \<le> 2 ^ 30" "min (?cur * 2) (at_readBufSize ?a) \<le> 2 ^ 30"
      "min (?cur * 2) (at_maxBufSize ?a) \<le> 2 ^ 30" "c_rcv c = Some r"
    using assms by (auto simp: rcv_open_def)
  note grow = grow_delivered [OF assms _ sz(1,2)]
  have keep: "\<exists>c' r'. Some (set_rcv (r\<lparr>rcv_autoTune := ?b\<rparr>) (c\<lparr>c_readBuf := c_readBuf c\<rparr>)) = Some c' \<and> delivered [] c r c' r'"
    using tune_delivered [OF assms sz(1,2)] by auto
  show ?thesis
    using grow [OF sz(3)] grow [OF sz(4)] keep sz(5) unfolding autoTuneCheck_def Let_def
    by (auto split: if_split)
qed

lemma autoTuneAccumulate_delivered:
  assumes "rcv_open c r"
  shows "\<exists>c' r'. autoTuneAccumulate e n c = Some c' \<and> delivered [] c r c' r'"
proof -
  define a where "a = rcv_autoTune r"
  define b where "b = a\<lparr>at_measureStart := Some (case at_measureStart a of None \<Rightarrow> e_now e | Some t \<Rightarrow> t),
    at_bytesDelivered := at_bytesDelivered a + n\<rparr>"
  have sz: "at_readBufSize b \<le> 2 ^ 30" "at_maxBufSize b \<le> 2 ^ 30" "c_rcv c = Some r"
    using assms by (auto simp: rcv_open_def a_def b_def)
  have tune: "delivered [] c r (set_rcv (r\<lparr>rcv_autoTune := b\<rparr>) c) (r\<lparr>rcv_autoTune := b\<rparr>)"
    by (rule tune_delivered [OF assms sz(1,2)])
  then have "rcv_open (set_rcv (r\<lparr>rcv_autoTune := b\<rparr>) c) (r\<lparr>rcv_autoTune := b\<rparr>)"
    by (simp add: delivered_def)
  from autoTuneCheck_delivered [OF this, of e] obtain c2 r2 where c2:
      "autoTuneCheck e (set_rcv (r\<lparr>rcv_autoTune := b\<rparr>) c) = Some c2" "delivered [] (set_rcv (r\<lparr>rcv_autoTune := b\<rparr>) c) (r\<lparr>rcv_autoTune := b\<rparr>) c2 r2"
    by blast
  have none: "delivered [] c r c r"
    using assms by (simp add: delivered_def)
  show ?thesis
    using sz(3) tune c2(1) delivered_trans [OF tune c2(2)] none unfolding autoTuneAccumulate_def Let_def a_def [symmetric] b_def [symmetric]
    by (auto split: if_split) (auto simp: a_def b_def)
qed

lemma deliver_delivered:
  assumes "rcv_open c r" "d \<noteq> []" "length d \<le> rcv_free c"
  shows "\<exists>c' r'. deliver e c d = Some (c', length d) \<and> delivered d c r c' r'"
proof -
  obtain rb where rb: "WriteNoBlock (c_readBuf c) d = Some (rb, length d)" "rb_inv rb" "contents rb = contents (c_readBuf c) @ d"
      "Cap rb = Cap (c_readBuf c)" "\<not> rb_closed rb"
    using WriteNoBlock_spec [of "c_readBuf c" d] assms by (auto simp: rcv_open_def min_absorb1)
  have 1: "delivered d c r (c\<lparr>c_readBuf := rb\<rparr>) r"
    using assms(1) rb(2-5) by (simp add: delivered_def rcv_open_def)
  then have "rcv_open (c\<lparr>c_readBuf := rb\<rparr>) r"
    by (simp add: delivered_def)
  from autoTuneAccumulate_delivered [OF this, of e "length d"] obtain c2 r2 where c2:
      "autoTuneAccumulate e (length d) (c\<lparr>c_readBuf := rb\<rparr>) = Some c2" "delivered [] (c\<lparr>c_readBuf := rb\<rparr>) r c2 r2"
    by blast
  show ?thesis
    using rb(1) c2(1) assms(2) delivered_trans [OF 1 c2(2)] by (auto simp: deliver_def)
qed

text \<open>
  The step from \<open>c\<close> to \<open>c'\<close> advanced the receiver from position \<open>n\<close> to position \<open>n'\<close>: the bytes in between went to the
  read buffer, each of them one that \<open>P\<close> allows at its position. The out-of-order segments are not part of this relation.
\<close>

definition rcv_adv :: "byte_pred \<Rightarrow> u32 \<Rightarrow> nat \<Rightarrow> TCPConn \<Rightarrow> receiver \<Rightarrow> nat \<Rightarrow> TCPConn \<Rightarrow> receiver \<Rightarrow> bool" where
  "rcv_adv P base n c r n' c' r' \<longleftrightarrow> rcv_open c' r' \<and> rcv_nxt r' = seq_at base n' \<and> same_rcv c c' \<and>
     c_state c' = c_state c \<and> c_out c' = c_out c \<and>
     (\<exists>x. contents (c_readBuf c') = contents (c_readBuf c) @ x \<and> n' = n + length x \<and> at_pos P n x) \<and>
     Cap (c_readBuf c) \<le> Cap (c_readBuf c') \<and> rcv_irs r' = rcv_irs r \<and> rcv_finReceived r' = rcv_finReceived r \<and>
     rcv_finSeq r' = rcv_finSeq r"

lemma rcv_adv_trans:
  assumes "rcv_adv P base a c r b c' r'" "rcv_adv P base b c' r' d c'' r''"
  shows "rcv_adv P base a c r d c'' r''"
proof -
  obtain x y where "contents (c_readBuf c') = contents (c_readBuf c) @ x" "b = a + length x" "at_pos P a x"
      "contents (c_readBuf c'') = contents (c_readBuf c') @ y" "d = b + length y" "at_pos P b y"
    using assms unfolding rcv_adv_def by blast
  then have "\<exists>z. contents (c_readBuf c'') = contents (c_readBuf c) @ z \<and> d = a + length z \<and> at_pos P a z"
    by (intro exI [of _ "x @ y"]) (simp add: at_pos_append)
  with assms show ?thesis
    by (auto simp: rcv_adv_def intro: same_rcv_trans)
qed

lemma rcv_adv_refl:
  assumes "rcv_open c r" "rcv_nxt r = seq_at base n"
  shows "rcv_adv P base n c r n (set_rcv (r\<lparr>rcv_ooo := x\<rparr>) c) (r\<lparr>rcv_ooo := x\<rparr>)"
  using assms by (auto simp: rcv_adv_def rcv_open_def set_rcv_def same_rcv_def rcv_core_def core_def)

lemma rcv_adv_window:
  assumes "rcv_adv P base n c r n' c' r'"
  shows "n + rcv_free c \<le> n' + rcv_free c'" "n \<le> n'"
  using assms by (auto simp: rcv_adv_def)

lemma deliver_advance_adv:
  assumes "rcv_open c r" "rcv_nxt r = seq_at base n" "d \<noteq> []" "length d \<le> rcv_free c" "at_pos P n d"
  shows "\<exists>c' r'. deliver_advance e c d = Some (c', length d) \<and> rcv_adv P base n c r (n + length d) c' r' \<and> rcv_ooo r' = rcv_ooo r"
proof -
  obtain c1 r1 where c1: "deliver e c d = Some (c1, length d)" "delivered d c r c1 r1"
    using deliver_delivered [OF assms(1,3,4), of e] by blast
  then obtain a where r1: "r1 = r\<lparr>rcv_autoTune := a\<rparr>" "rcv_open c1 r1"
    unfolding delivered_def by blast
  let ?r = "r1\<lparr>rcv_nxt := rcv_nxt r1 + of_nat (length d)\<rparr>"
  let ?c = "set_rcv ?r (payload_in (length d) c1)"
  have eq: "deliver_advance e c d = Some (?c, length d)"
    using c1(1) r1(2) assms(3) by (simp add: deliver_advance_def rcv_open_def tcp_count_def)
  have "rcv_nxt ?r = seq_at base (n + length d)"
    using assms(2) r1(1) by (simp add: seq_at_add)
  moreover have "same_rcv c ?c"
    using c1(2) same_rcv_trans [OF same_rcv_trans [of c c1 "payload_in (length d) c1"], of ?c] by (simp add: delivered_def)
  ultimately have "rcv_adv P base n c r (n + length d) ?c ?r"
    using c1(2) r1 assms(5) by (auto simp: rcv_adv_def delivered_def rcv_open_def set_rcv_def tcp_count_def)
  moreover have "rcv_ooo ?r = rcv_ooo r"
    using r1(1) by simp
  ultimately show ?thesis
    using eq by blast
qed

lemma lessThan_Un_ivl: "a \<le> n \<Longrightarrow> {..<n} \<union> {a..<b} = {..<max n b}" for n :: nat
  by auto

lemma deliverOOO_loop_adv:
  assumes "rcv_open c r" "rcv_nxt r = seq_at base n" "ivs_ok lo hi ivs" "hi \<le> n + rcv_free c" "ivs_at P ivs"
    and win: "n0 \<le> lo" "n0 \<le> n" "n < n0 + 2 ^ 31" "hi < n0 + 2 ^ 31"
  shows "\<exists>c' r' n' ivs'. deliverOOO_loop e c (map (oo_seg base) ivs) = Some c' \<and> rcv_adv P base n c r n' c' r' \<and>
    rcv_ooo r' = map (oo_seg base) ivs' \<and> ivs_ok n' hi ivs' \<and> ivs_at P ivs' \<and> {..<n'} \<union> cov ivs' = {..<n} \<union> cov ivs"
  using assms
proof (induction ivs arbitrary: c r n lo)
  case Nil
  then show ?case
    using rcv_adv_refl [OF Nil.prems(1,2), of P "[]"] by (fastforce simp: rcv_open_def)
next
  case (Cons iv ivs)
  obtain a d where iv: "iv = (a, d)" "lo < a" "d \<noteq> []" "a + length d \<le> hi" "ivs_ok (a + length d) hi ivs" "at_pos P a d" "ivs_at P ivs"
    using Cons.prems(3,5) by (cases iv) auto
  have c: "c_rcv c = Some r"
    using Cons.prems(1) by (simp add: rcv_open_def)
  have nr: "near a n"
    using Cons.prems iv by (intro near_window [of n0]) auto
  consider (ahead) "n < a" | (old) "a + length d \<le> n" | (now) "a \<le> n" "n < a + length d"
    by linarith
  then show ?case
  proof cases
    case ahead
    let ?r = "r\<lparr>rcv_ooo := map (oo_seg base) (iv # ivs)\<rparr>"
    have "deliverOOO_loop e c (map (oo_seg base) (iv # ivs)) = Some (set_rcv ?r c)"
      using ahead c nr Cons.prems(2) iv(1) by (simp add: seqGreaterThan_at)
    moreover have "ivs_ok n hi (iv # ivs)"
      using ahead iv by simp
    ultimately show ?thesis
      using rcv_adv_refl [OF Cons.prems(1,2), of P "map (oo_seg base) (iv # ivs)"] Cons.prems(5)
      by (intro exI [of _ "set_rcv ?r c"] exI [of _ ?r] exI [of _ n] exI [of _ "iv # ivs"]) simp
  next
    case old
    have "of_nat (length d) \<le> seq_at base n - seq_at base a"
      using old iv Cons.prems by (subst of_nat_le_diff) auto
    then have "deliverOOO_loop e c (map (oo_seg base) (iv # ivs)) = deliverOOO_loop e c (map (oo_seg base) ivs)"
      using c nr Cons.prems(2) iv(1,3) old by (cases "length d") (simp_all add: seqGreaterThan_at seqLessThan_at)
    moreover have "{..<n} \<union> cov (iv # ivs) = {..<n} \<union> cov ivs"
      using old iv(1) lessThan_Un_ivl [of a n "a + length d"] by (simp add: Un_assoc [symmetric] max_absorb1)
    ultimately show ?thesis
      using Cons.IH [OF Cons.prems(1,2) iv(5) Cons.prems(4) iv(7)] Cons.prems(6-) iv by simp
  next
    case now
    have un: "unat (seq_at base n - seq_at base a) = n - a"
      using now Cons.prems iv by (intro unat_diff) auto
    have lt: "\<not> of_nat (length d) \<le> seq_at base n - seq_at base a"
      using now iv Cons.prems by (subst of_nat_le_diff) auto
    let ?d = "drop (n - a) d" and ?m = "a + length d"
    have d: "?d \<noteq> []" "n + length ?d = ?m" "length ?d \<le> rcv_free c" "at_pos P n ?d"
      using now iv Cons.prems(4) at_pos_drop [OF iv(6), of "n - a"] by auto
    from deliver_advance_adv [OF Cons.prems(1,2) d(1,3,4), of e, unfolded d(2)]
    obtain c1 r1 where c1: "deliver_advance e c ?d = Some (c1, length ?d)" "rcv_adv P base n c r ?m c1 r1"
      by blast
    have "deliverOOO_loop e c (map (oo_seg base) (iv # ivs)) = deliverOOO_loop e c1 (map (oo_seg base) ivs)"
      using c nr Cons.prems(2) iv(1) now(1) lt un c1(1) now(2) by (cases "a = n") (simp_all add: seqGreaterThan_at seqLessThan_at)
    moreover have "\<exists>c' r' n' ivs'. deliverOOO_loop e c1 (map (oo_seg base) ivs) = Some c' \<and> rcv_adv P base ?m c1 r1 n' c' r' \<and>
        rcv_ooo r' = map (oo_seg base) ivs' \<and> ivs_ok n' hi ivs' \<and> ivs_at P ivs' \<and> {..<n'} \<union> cov ivs' = {..<?m} \<union> cov ivs"
      using c1(2) iv Cons.prems rcv_adv_window [OF c1(2)]
      by (intro Cons.IH [of c1 r1 ?m ?m]) (auto simp: rcv_adv_def)
    moreover have "{..<n} \<union> cov (iv # ivs) = {..<?m} \<union> cov ivs"
      using now iv(1) lessThan_Un_ivl [of a n ?m] by (simp add: Un_assoc [symmetric] max_absorb2)
    ultimately show ?thesis
      using rcv_adv_trans [OF c1(2)] by metis
  qed
qed

section \<open>Incoming data\<close>

text \<open>The receiver is at position \<open>n\<close> and holds the pieces \<open>ivs\<close>, all of them inside the window.\<close>

definition rcv_holds :: "u32 \<Rightarrow> nat \<Rightarrow> ivl list \<Rightarrow> TCPConn \<Rightarrow> receiver \<Rightarrow> bool" where
  "rcv_holds base n ivs c r \<longleftrightarrow> rcv_open c r \<and> rcv_nxt r = seq_at base n \<and> rcv_ooo r = map (oo_seg base) ivs \<and>
     ivs_ok n (n + rcv_free c) ivs"

text \<open>The FIN at position \<open>n\<close> was taken: the read buffer is closed and the receiver is behind the FIN.\<close>

definition rcv_ended :: "u32 \<Rightarrow> nat \<Rightarrow> ivl list \<Rightarrow> TCPConn \<Rightarrow> receiver \<Rightarrow> bool" where
  "rcv_ended base n ivs c r \<longleftrightarrow> c_rcv c = Some r \<and> rb_inv (c_readBuf c) \<and> rb_closed (c_readBuf c) \<and> rcv_nxt r = seq_at base (Suc n) \<and>
     rcv_ooo r = map (oo_seg base) ivs \<and> \<not> rcv_finReceived r \<and> c_state c = stateCloseWait \<and>
     Cap (c_readBuf c) \<le> 2 ^ 30 \<and> at_readBufSize (rcv_autoTune r) \<le> 2 ^ 30 \<and> at_maxBufSize (rcv_autoTune r) \<le> 2 ^ 30"

text \<open>What \<open>sendACK\<close> does to a connection with an open receiver.\<close>

lemma sendACK_rcv:
  assumes "rb_inv (c_readBuf c)" "c_rcv c = Some r"
  obtains c' r' where "sendACK e c = Some c'" "same_rcv c c'" "ext_out D c c'" "c_readBuf c' = c_readBuf c" "c_state c' = c_state c"
    "c_rcv c' = Some r'" "r' = r \<or> r' = r\<lparr>rcv_hasDSACKBlock := False, rcv_dsackBlock := \<lparr>sb_Start = 0, sb_End = 0\<rparr>\<rparr>"
    "c_delayedACKTimer c' = c_delayedACKTimer c"
proof -
  obtain c' where c': "sendACK e c = Some c'" "sends D (reported c) c'"
    using sends_ACK [OF assms(1)] by blast
  then have so: "same_out (reported c) c'" and eo: "ext_out D c c'"
    by (auto simp: sends_def ext_out_def)
  have r: "c_rcv (reported c) = Some (if c_sackPermitted c then snd (sackBlocks (c_tsEnabled c) r) else r)"
    "c_readBuf (reported c) = c_readBuf c" "c_state (reported c) = c_state c" "c_delayedACKTimer (reported c) = c_delayedACKTimer c"
    using assms(2) by (simp_all add: reported_def)
  have f: "c_readBuf c' = c_readBuf c" "c_state c' = c_state c" "c_delayedACKTimer c' = c_delayedACKTimer c"
      "c_rcv c' = Some (if c_sackPermitted c then snd (sackBlocks (c_tsEnabled c) r) else r)"
    unfolding r [symmetric] by (rule same_outD [OF so])+
  have "same_rcv c c'"
    by (rule same_rcv_trans [OF same_rcv_updates(7) same_out_rcv [OF so]])
  then show thesis
    by (rule that [OF c'(1) _ eo f(1,2,4) _ f(3)]) (simp add: sackBlocks_rcv)
qed

lemma processFIN_ends:
  assumes "rcv_open c r" "rcv_nxt r = seq_at base n" "rcv_ooo r = map (oo_seg base) ivs" "\<not> rcv_finReceived r"
  shows "\<exists>c' r'. processFIN e c = Some c' \<and> same_rcv c c' \<and> ext_out D c c' \<and> contents (c_readBuf c') = contents (c_readBuf c) \<and>
    Cap (c_readBuf c') = Cap (c_readBuf c) \<and> rcv_irs r' = rcv_irs r \<and> rcv_ended base n ivs c' r'"
proof -
  let ?r = "r\<lparr>rcv_nxt := rcv_nxt r + 1\<rparr>"
  let ?c = "cancelDelayedACK (set_rcv ?r c)"
  have c: "rb_inv (c_readBuf ?c)" "c_rcv ?c = Some ?r" "c_rcv c = Some r" "\<not> c_readShutdown ?c" "c_readBuf ?c = c_readBuf c"
      "c_out ?c = c_out c" "c_flow ?c = c_flow c"
    using assms(1) by (simp_all add: rcv_open_def cancelDelayedACK_def set_rcv_def)
  from sendACK_rcv [OF c(1,2)] obtain c1 r1 where c1: "sendACK e ?c = Some c1" "same_rcv ?c c1" "ext_out D ?c c1"
      "c_readBuf c1 = c_readBuf ?c" "c_rcv c1 = Some r1"
      "r1 = ?r \<or> r1 = ?r\<lparr>rcv_hasDSACKBlock := False, rcv_dsackBlock := \<lparr>sb_Start = 0, sb_End = 0\<rparr>\<rparr>"
    by blast
  let ?d = "c1\<lparr>c_readBuf := CloseWrite (c_readBuf c1), c_state := stateCloseWait\<rparr>"
  have "same_rcv c ?c"
    by (rule same_rcv_trans [OF same_rcv_updates(4) same_rcv_updates(5)])
  also note c1(2)
  also have "same_rcv c1 (c1\<lparr>c_readBuf := CloseWrite (c_readBuf c1)\<rparr>)"
    by (rule same_rcv_updates)
  also have "same_rcv (c1\<lparr>c_readBuf := CloseWrite (c_readBuf c1)\<rparr>) ?d"
    by (rule same_rcv_updates)
  finally have "same_rcv c ?d" .
  moreover have "c_readShutdown c1 = c_readShutdown ?c"
    by (rule same_rcvD [OF c1(2)])
  then have "processFIN e c = Some ?d"
    using c(3,4) c1(1) by (simp add: processFIN_def)
  moreover have "ext_out D c ?d"
    using c1(3) c(6,7) by (simp add: ext_out_def)
  moreover have "rcv_irs r1 = rcv_irs r" "rcv_ended base n ivs ?d r1"
    using c1(4-6) assms c(1,5) seq_at_Suc [of base n] by (auto simp: rcv_ended_def rcv_open_def)
  ultimately show ?thesis
    using c1(4) c(5) by (intro exI [of _ ?d] exI [of _ r1]) simp
qed

text \<open>
  The result of receiving: the positions \<open>C\<close> of the stream are now there. The receiver stands before the first
  position that is missing, and all bytes up to there went to the read buffer. If that is the position of a FIN
  that had arrived before, the FIN was taken as well.
\<close>

definition rcv_result :: "seg_cond \<Rightarrow> byte_pred \<Rightarrow> u32 \<Rightarrow> nat set \<Rightarrow> nat \<Rightarrow> TCPConn \<Rightarrow> receiver \<Rightarrow> TCPConn \<Rightarrow> bool" where
  "rcv_result D P base C n c r c' \<longleftrightarrow> same_rcv c c' \<and> ext_out D c c' \<and> Cap (c_readBuf c) \<le> Cap (c_readBuf c') \<and> (\<exists>x ivs' r'.
     rcv_irs r' = rcv_irs r \<and> contents (c_readBuf c') = contents (c_readBuf c) @ x \<and> at_pos P n x \<and> ivs_at P ivs' \<and>
     {..<n + length x} \<union> cov ivs' = C \<and> ivs_ok (n + length x) (n + length x + rcv_free c') ivs' \<and>
     (rcv_holds base (n + length x) ivs' c' r' \<and> c_state c' = c_state c \<and> rcv_finReceived r' = rcv_finReceived r \<and>
        rcv_finSeq r' = rcv_finSeq r \<or>
      rcv_finReceived r \<and> rcv_finSeq r = seq_at base (n + length x) \<and> rcv_ended base (n + length x) ivs' c' r'))"

lemma rcv_resultI:
  assumes "rcv_adv P base n c r n' c' r'" "rcv_ooo r' = map (oo_seg base) ivs'"
    "ivs_ok n' (n' + rcv_free c') ivs'" "ivs_at P ivs'" "{..<n'} \<union> cov ivs' = C"
  shows "rcv_result D P base C n c r c'"
proof -
  obtain x where x: "contents (c_readBuf c') = contents (c_readBuf c) @ x" "n' = n + length x" "at_pos P n x"
    using assms(1) unfolding rcv_adv_def by blast
  have "rcv_holds base n' ivs' c' r'"
    using assms by (auto simp: rcv_holds_def rcv_adv_def)
  then show ?thesis
    using assms(1,3-5) x unfolding rcv_result_def rcv_adv_def
    by (intro conjI exI [of _ x] exI [of _ ivs'] exI [of _ r']) (auto intro: ext_out_refl)
qed

lemma deliverOOO_result:
  assumes adv: "rcv_adv P base n c r m c1 r1" and ooo: "rcv_ooo r1 = map (oo_seg base) ivs"
    and ivs: "ivs_ok n hi ivs" "hi \<le> m + rcv_free c1" "hi < n + 2 ^ 31" "ivs_at P ivs" and m: "m \<le> hi"
  shows "\<exists>c'. deliverOOO e c1 = Some c' \<and> rcv_result D P base ({..<m} \<union> cov ivs) n c r c'"
proof -
  have 1: "rcv_open c1 r1" "rcv_nxt r1 = seq_at base m" "c_rcv c1 = Some r1" "n \<le> m"
    using adv by (auto simp: rcv_adv_def rcv_open_def)
  from deliverOOO_loop_adv [OF 1(1,2) ivs(1,2,4) le_refl 1(4), of e] ivs(3) m
  obtain c2 r2 n' ivs' where 2: "deliverOOO_loop e c1 (map (oo_seg base) ivs) = Some c2"
      "rcv_adv P base m c1 r1 n' c2 r2" "rcv_ooo r2 = map (oo_seg base) ivs'" "ivs_ok n' hi ivs'" "ivs_at P ivs'"
      "{..<n'} \<union> cov ivs' = {..<m} \<union> cov ivs"
    by auto
  have tot: "rcv_adv P base n c r n' c2 r2"
    by (rule rcv_adv_trans [OF adv 2(2)])
  then obtain x where x: "contents (c_readBuf c2) = contents (c_readBuf c) @ x" "n' = n + length x" "at_pos P n x"
    unfolding rcv_adv_def by blast
  have r2: "rcv_open c2 r2" "c_rcv c2 = Some r2" "rcv_irs r2 = rcv_irs r" "rcv_finReceived r2 = rcv_finReceived r"
      "rcv_finSeq r2 = rcv_finSeq r" "rcv_nxt r2 = seq_at base n'"
    using tot by (auto simp: rcv_adv_def rcv_open_def)
  have ok: "ivs_ok n' (n' + rcv_free c2) ivs'"
    using ivs_ok_mono [OF 2(4) le_refl] rcv_adv_window(1) [OF 2(2)] ivs(2) by simp
  show ?thesis
  proof (cases "rcv_finReceived r2 \<and> rcv_nxt r2 = rcv_finSeq r2")
    case False
    then have "deliverOOO e c1 = Some c2"
      using 1(3) ooo 2(1) r2(2) by (auto simp: deliverOOO_def)
    moreover have "rcv_result D P base ({..<m} \<union> cov ivs) n c r c2"
      by (rule rcv_resultI [OF tot 2(3) ok 2(5,6)])
    ultimately show ?thesis
      by blast
  next
    case True
    let ?r = "r2\<lparr>rcv_finReceived := False\<rparr>"
    have o: "rcv_open (set_rcv ?r c2) ?r" "rcv_nxt ?r = seq_at base n'" "rcv_ooo ?r = map (oo_seg base) ivs'" "\<not> rcv_finReceived ?r"
      using r2 2(3) by (auto simp: rcv_open_def set_rcv_def)
    from processFIN_ends [OF o, of e D] obtain c3 r3 where 3: "processFIN e (set_rcv ?r c2) = Some c3" "same_rcv (set_rcv ?r c2) c3"
        "ext_out D (set_rcv ?r c2) c3" "contents (c_readBuf c3) = contents (c_readBuf (set_rcv ?r c2))"
        "Cap (c_readBuf c3) = Cap (c_readBuf (set_rcv ?r c2))" "rcv_irs r3 = rcv_irs ?r" "rcv_ended base n' ivs' c3 r3"
      by blast
    have "same_rcv c c3"
      using tot same_rcv_trans [OF same_rcv_trans [of c c2 "set_rcv ?r c2"] 3(2)] by (simp add: rcv_adv_def)
    moreover have "c_flow c2 = c_flow c"
      by (rule same_rcvD) (use tot in \<open>simp add: rcv_adv_def\<close>)
    then have "ext_out D c c3"
      using 3(3) tot by (simp add: ext_out_def set_rcv_def rcv_adv_def)
    moreover have "contents (c_readBuf c3) = contents (c_readBuf c) @ x" "Cap (c_readBuf c) \<le> Cap (c_readBuf c3)"
        "ivs_ok n' (n' + rcv_free c3) ivs'"
      using 3(4,5) tot x(1) ok by (simp_all add: set_rcv_def rcv_adv_def)
    ultimately have "rcv_result D P base ({..<m} \<union> cov ivs) n c r c3"
      using 3(6,7) r2 2(5,6) x True unfolding rcv_result_def
      by (intro conjI exI [of _ x] exI [of _ ivs'] exI [of _ r3]) auto
    moreover have "deliverOOO e c1 = Some c3"
      using 1(3) ooo 2(1) r2 True 3(1) by (simp add: deliverOOO_def)
    ultimately show ?thesis
      by blast
  qed
qed

lemma rcv_adv_same:
  assumes "rcv_holds base n ivs c r" "same_but_ooo r r'"
  shows "rcv_adv P base n c r n (set_rcv r' c) r'"
  using assms same_but_oooD [OF assms(2)]
  by (auto simp: rcv_holds_def rcv_adv_def rcv_open_def set_rcv_def same_rcv_def rcv_core_def core_def)

lemma rcv_result_same:
  assumes "rcv_holds base n ivs c r" "same_but_ooo r r'" "rcv_ooo r' = map (oo_seg base) ivs'"
    "ivs_ok n (n + rcv_free c) ivs'" "ivs_at P ivs'" "{..<n} \<union> cov ivs' = C"
  shows "rcv_result D P base C n c r (set_rcv r' c)"
  using assms(4) by (intro rcv_resultI [OF rcv_adv_same [OF assms(1,2)] assms(3) _ assms(5,6)]) (simp add: set_rcv_def)

lemma rcv_holds_window:
  assumes "rcv_holds base n ivs c r"
  shows "rcv_free c \<le> 2 ^ 30" "c_rcv c = Some r" "rcv_open c r" "rcv_nxt r = seq_at base n" "\<not> c_readShutdown c"
    "rcv_ooo r = map (oo_seg base) ivs" "ivs_ok n (n + rcv_free c) ivs"
  using assms by (auto simp: rcv_holds_def rcv_open_def)

lemma handleData_trimmed_result:
  assumes holds: "rcv_holds base n ivs c r" and ivs: "ivs_at P ivs" and d: "n \<le> a" "d \<noteq> []" "a + length d \<le> n + rcv_free c" "at_pos P a d"
  shows "\<exists>c'. handleData_trimmed e c (seq_at base a) d = Some c' \<and>
    rcv_result D P base ({..<n} \<union> cov ivs \<union> {a..<a + length d}) n c r c'"
proof -
  note h = rcv_holds_window [OF holds]
  have hi: "n + rcv_free c < n + 2 ^ 31"
    using h(1) by simp
  have nr: "near a n"
    using d h(1) by (auto simp: near_def)
  show ?thesis
  proof (cases "a = n")
    case True
    have "length d \<le> rcv_free c" "at_pos P n d"
      using True d by simp_all
    from deliver_advance_adv [OF h(3,4) d(2) this, of e]
    obtain c1 r1 where 1: "deliver_advance e c d = Some (c1, length d)" "rcv_adv P base n c r (n + length d) c1 r1"
        "rcv_ooo r1 = rcv_ooo r"
      by blast
    have "n + length d \<le> n + rcv_free c"
      using d True by simp
    from deliverOOO_result [OF 1(2) _ h(7) rcv_adv_window(1) [OF 1(2)] hi ivs this, of e D] h(6) 1(3)
    obtain c2 where 2: "deliverOOO e c1 = Some c2" "rcv_result D P base ({..<n + length d} \<union> cov ivs) n c r c2"
      by auto
    have "handleData_trimmed e c (seq_at base a) d = Some c2"
      using h(2,4,5) True 1(1) 2(1) d(2) by (simp add: handleData_trimmed_def)
    moreover have "{..<n} \<union> cov ivs \<union> {a..<a + length d} = {..<n + length d} \<union> cov ivs"
      using True by auto
    ultimately show ?thesis
      using 2(2) by simp
  next
    case False
    then have "n < a"
      using d(1) by simp
    from insertOOO_spec [OF h(6,7) this d(2,3) hi, of P]
    obtain r' ivs' where 1: "insertOOO r (seq_at base a) d = Some r'" "same_but_ooo r r'"
        "rcv_ooo r' = map (oo_seg base) ivs'" "ivs_ok n (n + rcv_free c) ivs'" "cov ivs' = cov ivs \<union> {a..<a + length d}" "ivs_at P ivs'"
      using ivs d(4) unfolding inserted_def by blast
    have "handleData_trimmed e c (seq_at base a) d = Some (set_rcv r' c)"
      using h(2,4,5) 1(1) \<open>n < a\<close> nr seq_at_eq [OF nr] by (simp add: handleData_trimmed_def seqGreaterThan_at)
    moreover have "rcv_result D P base ({..<n} \<union> cov ivs \<union> {a..<a + length d}) n c r (set_rcv r' c)"
      using 1(5) by (intro rcv_result_same [OF holds 1(2-4,6)]) auto
    ultimately show ?thesis
      by blast
  qed
qed

lemma rcv_result_id:
  assumes "rcv_holds base n ivs c r" "ivs_at P ivs" "X \<subseteq> {..<n}"
  shows "rcv_result D P base ({..<n} \<union> cov ivs \<union> X) n c r c"
proof -
  have "set_rcv r c = c"
    using rcv_holds_window(2) [OF assms(1)] by (simp add: set_rcv_def)
  moreover have "rcv_result D P base ({..<n} \<union> cov ivs \<union> X) n c r (set_rcv r c)"
    using assms(2,3) rcv_holds_window [OF assms(1)] by (intro rcv_result_same [OF assms(1), of r ivs]) (auto simp: same_but_ooo_def)
  ultimately show ?thesis
    by simp
qed

text \<open>How a segment is trimmed to the receive window, for any segment whose position is near that of the receiver.\<close>

lemma handleData_trim:
  assumes c: "c_rcv c = Some r" "rcv_nxt r = seq_at base n" "rb_inv (c_readBuf c)" "rcv_free c \<le> 2 ^ 30"
    and d: "near a n" "length d \<le> 2 ^ 30" "d \<noteq> []" and k: "k = max a n"
  shows "handleData e c (seq_at base a) d =
    (if a + length d \<le> n then Some (set_rcv (dsack (seq_at base a) (seq_at base (a + length d)) r) c)
     else if k < n + rcv_free c then handleData_trimmed e c (seq_at base k) (take (n + rcv_free c - k) (drop (k - a) d))
     else Some c)"
proof (cases "a + length d \<le> n")
  case True
  have "of_nat (length d) \<le> seq_at base n - seq_at base a"
    using True d by (subst of_nat_le_diff) (auto simp: near_def)
  moreover have "a < n"
    using True d(3) by (cases d) auto
  ultimately show ?thesis
    using c True d by (simp add: handleData_def seqLessThan_at seq_at_add)
next
  case False
  have kk: "n \<le> k" "k < a + length d" "a \<le> k" "k < n + 2 ^ 31"
    using False d k by (auto simp: near_def)
  have un: "unat (seq_at base n - seq_at base a) = n - a" if "a < n"
    using that d by (intro unat_diff) (auto simp: near_def)
  have kd: "(if seqLessThan (seq_at base a) (seq_at base n) then seq_at base n else seq_at base a) = seq_at base k"
    "(if seqLessThan (seq_at base a) (seq_at base n) then slice_from d (unat (seq_at base n - seq_at base a)) else Some d)
      = Some (drop (k - a) d)"
    using False d un by (auto simp: k seqLessThan_at max_def)
  have old: "\<not> (seqLessThan (seq_at base a) (seq_at base n) \<and> of_nat (length d) \<le> seq_at base n - seq_at base a)"
  proof (cases "a < n")
    case True
    then show ?thesis
      using False d of_nat_le_diff [of a n "length d" base] by (auto simp: near_def)
  qed (use d in \<open>simp add: seqLessThan_at\<close>)
  have ne: "(d = []) = False"
    using d(3) by simp
  have wnd: "rcvWnd c = Some (of_nat (rcv_free c))" "(of_nat (rcv_free c) :: u32) = 0 \<longleftrightarrow> rcv_free c = 0"
    using c(3,4) unat_of_nat_u32 [of "rcv_free c"] by (auto simp: rcvWnd_def Free_eq)
  have wl: "seqLessThan (seq_at base k) (seq_at base n + of_nat (rcv_free c)) = (k < n + rcv_free c)"
    unfolding seq_at_add [symmetric] by (rule seqLessThan_at) (use kk c(4) in \<open>auto simp: near_def\<close>)
  have start: "handleData e c (seq_at base a) d =
    (if rcv_free c = 0 \<or> \<not> k < n + rcv_free c then Some c
     else do {
       x \<leftarrow> (if seqGreaterThan (seq_at base k + of_nat (length (drop (k - a) d))) (seq_at base n + of_nat (rcv_free c))
             then subslice (drop (k - a) d) 0 (unat (seq_at base n + of_nat (rcv_free c) - seq_at base k)) else Some (drop (k - a) d));
       handleData_trimmed e c (seq_at base k) x })"
    unfolding handleData_def ne by (simp only: if_False c(1,2) bind.simps Let_def old kd wnd wl) simp
  show ?thesis
  proof (cases "k < n + rcv_free c")
    case out: False
    then have "(rcv_free c = 0 \<or> \<not> k < n + rcv_free c) = True"
      by blast
    with False out show ?thesis
      unfolding start by (simp only: if_True if_False)
  next
    case True
    have "seqGreaterThan (seq_at base (a + length d)) (seq_at base (n + rcv_free c)) = (n + rcv_free c < a + length d)"
      using kk True c(4) d(2) by (intro seqGreaterThan_at) (auto simp: near_def)
    moreover have "seq_at base k + of_nat (length (drop (k - a) d)) = seq_at base (a + length d)"
      using kk seq_at_add [of base k "a + length d - k"] by simp
    ultimately have wg: "seqGreaterThan (seq_at base k + of_nat (length (drop (k - a) d))) (seq_at base n + of_nat (rcv_free c)) =
        (n + rcv_free c < a + length d)"
      by (simp only: seq_at_add [of base n "rcv_free c", symmetric])
    have wu: "unat (seq_at base n + of_nat (rcv_free c) - seq_at base k) = n + rcv_free c - k"
      unfolding seq_at_add [symmetric] using True kk c(4) by (intro unat_diff) auto
    have cut: "(if n + rcv_free c < a + length d then subslice (drop (k - a) d) 0 (n + rcv_free c - k) else Some (drop (k - a) d))
        = Some (take (n + rcv_free c - k) (drop (k - a) d))"
      using True kk by auto
    have "(rcv_free c = 0 \<or> \<not> k < n + rcv_free c) = False"
      using True kk(1) by (metis add_cancel_left_right linorder_not_less)
    with False True show ?thesis
      unfolding start wg wu cut by (simp only: if_True if_False bind.simps)
  qed
qed

lemma handleData_result:
  assumes holds: "rcv_holds base n ivs c r" and ivs: "ivs_at P ivs" and d: "near a n" "length d \<le> 2 ^ 30" "d \<noteq> []" "at_pos P a d"
  shows "\<exists>c'. handleData e c (seq_at base a) d = Some c' \<and>
    rcv_result D P base ({..<n} \<union> cov ivs \<union> ({a..<a + length d} \<inter> {..<n + rcv_free c})) n c r c'"
proof -
  note h = rcv_holds_window [OF holds]
  let ?C = "{..<n} \<union> cov ivs \<union> ({a..<a + length d} \<inter> {..<n + rcv_free c})"
  define k where "k = max a n"
  have rb: "rb_inv (c_readBuf c)"
    using h(3) by (simp add: rcv_open_def)
  note eq = handleData_trim [OF h(2,4) rb h(1) d(1-3) k_def, of e]
  consider (old) "a + length d \<le> n" | (out) "n < a + length d" "n + rcv_free c \<le> k" | (into) "n < a + length d" "k < n + rcv_free c"
    by linarith
  then show ?thesis
  proof cases
    case old
    have "{a..<a + length d} \<inter> {..<n + rcv_free c} \<subseteq> {..<n}"
      using old by auto
    then have "rcv_result D P base ?C n c r (set_rcv (dsack (seq_at base a) (seq_at base (a + length d)) r) c)"
      using h(6,7) ivs by (intro rcv_result_same [OF holds, of _ ivs]) (auto simp: dsack_def same_but_ooo_def)
    with eq old show ?thesis
      by simp
  next
    case out
    have "{a..<a + length d} \<inter> {..<n + rcv_free c} \<subseteq> {..<n}"
      using out by (auto simp: k_def)
    with eq out rcv_result_id [OF holds ivs] show ?thesis
      by auto
  next
    case into
    let ?x = "take (n + rcv_free c - k) (drop (k - a) d)"
    have k: "n \<le> k" "a \<le> k" "k < a + length d"
      using into d(3) by (auto simp: k_def)
    have x: "?x \<noteq> []" "k + length ?x \<le> n + rcv_free c"
      using into k by auto
    moreover have "at_pos P k ?x"
      using at_pos_take [OF at_pos_drop [OF d(4), of "k - a"]] k by simp
    ultimately have "\<exists>c'. handleData_trimmed e c (seq_at base k) ?x = Some c' \<and>
        rcv_result D P base ({..<n} \<union> cov ivs \<union> {k..<k + length ?x}) n c r c'"
      by (rule handleData_trimmed_result [OF holds ivs k(1)])
    moreover have "{..<n} \<union> cov ivs \<union> {k..<k + length ?x} = ?C"
      using k into by (auto simp: k_def min_def split: if_splits)
    ultimately show ?thesis
      using eq into by simp
  qed
qed

section \<open>Safety for every segment\<close>

text \<open>The segments held back, relative to the next expected position; enough for \<open>insertOOO\<close> once the read buffer is closed.\<close>

definition rcv_slots :: "u32 \<Rightarrow> nat \<Rightarrow> ivl list \<Rightarrow> receiver \<Rightarrow> bool" where
  "rcv_slots base n ivs r \<longleftrightarrow> 2 ^ 31 \<le> n \<and> rcv_nxt r = seq_at base n \<and> rcv_ooo r = map (oo_seg base) ivs \<and>
     ivs_ok (n - 1) (n + 2 ^ 30) ivs"

text \<open>The receiver can take any segment the peer may send.\<close>

definition rcv_live :: "TCPConn \<Rightarrow> bool" where
  "rcv_live c \<longleftrightarrow> (\<exists>r. c_rcv c = Some r \<and> rb_inv (c_readBuf c) \<and> Cap (c_readBuf c) \<le> 2 ^ 30 \<and>
     at_readBufSize (rcv_autoTune r) \<le> 2 ^ 30 \<and> at_maxBufSize (rcv_autoTune r) \<le> 2 ^ 30 \<and>
     (c_readShutdown c \<or> rb_closed (c_readBuf c) \<and> (\<exists>base n ivs. rcv_slots base n ivs r) \<or>
      (\<exists>base n ivs. 2 ^ 31 \<le> n \<and> rcv_holds base n ivs c r)))"

text \<open>The states in which no more data is taken.\<close>

definition rcv_quiet :: "tcpState \<Rightarrow> bool" where
  "rcv_quiet st \<longleftrightarrow> st \<in> {stateCloseWait, stateClosing, stateLastAck, stateTimeWait, stateClosed}"

text \<open>The invariant of the receive side of a connection, whatever the peer sends.\<close>

definition rcv_safe :: "TCPConn \<Rightarrow> bool" where
  "rcv_safe c \<longleftrightarrow> rb_inv (c_readBuf c) \<and> Cap (c_readBuf c) \<le> 2 ^ 30 \<and> (c_rcv c = None \<or> rcv_quiet (c_state c) \<or> rcv_live c)"

lemma rcv_live_safe: "rcv_live c \<Longrightarrow> rcv_safe c"
  by (auto simp: rcv_live_def rcv_safe_def)

lemma rcv_holds_live:
  assumes "rcv_holds base n ivs c r" "2 ^ 31 \<le> n"
  shows "rcv_live c"
proof -
  have "\<exists>base n ivs. 2 ^ 31 \<le> n \<and> rcv_holds base n ivs c r"
    using assms by blast
  then show ?thesis
    using rcv_holds_window(2,3) [OF assms(1)] by (simp add: rcv_live_def rcv_open_def)
qed

lemma rcv_ended_live:
  assumes "rcv_ended base n ivs c r" "2 ^ 31 \<le> n" "ivs_ok n (n + rcv_free c) ivs"
  shows "rcv_live c"
proof -
  have e: "c_rcv c = Some r" "rb_inv (c_readBuf c)" "rb_closed (c_readBuf c)" "rcv_nxt r = seq_at base (Suc n)"
      "rcv_ooo r = map (oo_seg base) ivs" "Cap (c_readBuf c) \<le> 2 ^ 30" "at_readBufSize (rcv_autoTune r) \<le> 2 ^ 30"
      "at_maxBufSize (rcv_autoTune r) \<le> 2 ^ 30"
    using assms(1) by (simp_all add: rcv_ended_def)
  have "ivs_ok n (Suc n + 2 ^ 30) ivs"
    by (rule ivs_ok_mono [OF assms(3)]) (use e(6) in simp_all)
  then have "rcv_slots base (Suc n) ivs r"
    using e(4,5) assms(2) by (simp add: rcv_slots_def)
  then show ?thesis
    using e unfolding rcv_live_def by blast
qed

lemma rcv_result_live:
  assumes "rcv_result D P base C n c r c'" "2 ^ 31 \<le> n"
  shows "rcv_live c'" "c_state c' = c_state c \<or> c_state c' = stateCloseWait"
proof -
  obtain x :: bytes and ivs' r' where x: "ivs_ok (n + length x) (n + length x + rcv_free c') ivs'"
      "rcv_holds base (n + length x) ivs' c' r' \<and> c_state c' = c_state c \<or> rcv_ended base (n + length x) ivs' c' r'"
    using assms(1) unfolding rcv_result_def by blast
  moreover have "2 ^ 31 \<le> n + length x"
    using assms(2) by simp
  ultimately show "rcv_live c'"
    using rcv_holds_live rcv_ended_live by blast
  show "c_state c' = c_state c \<or> c_state c' = stateCloseWait"
    using x(2) by (auto simp: rcv_ended_def)
qed

text \<open>\<open>c'\<close> is \<open>c\<close> after receiving something.\<close>

definition received :: "seg_cond \<Rightarrow> TCPConn \<Rightarrow> TCPConn \<Rightarrow> bool" where
  "received D c c' \<longleftrightarrow> same_rcv c c' \<and> ext_out D c c' \<and> rcv_live c' \<and> (c_state c' = c_state c \<or> c_state c' = stateCloseWait)"

lemma received_refl: "rcv_live c \<Longrightarrow> received D c c"
  by (simp add: received_def ext_out_refl)

lemma received_set:
  assumes "rcv_live (set_rcv r' c)"
  shows "received D c (set_rcv r' c)"
  using assms by (simp add: received_def ext_out_def set_rcv_def)

lemma handleData_shutdown:
  assumes "rcv_live c" "c_readShutdown c" "length d \<le> 2 ^ 30"
  shows "\<exists>c'. handleData e c seq d = Some c' \<and> received D c c'"
proof (cases "d = []")
  case True
  then show ?thesis
    using received_refl [OF assms(1)] by (simp add: handleData_def)
next
  case False
  obtain r where r: "c_rcv c = Some r" "rb_inv (c_readBuf c)" "rcv_free c \<le> 2 ^ 30"
    using assms(1) by (auto simp: rcv_live_def)
  define base where "base = rcv_nxt r - of_nat (2 ^ 31)"
  have nxt: "rcv_nxt r = seq_at base (2 ^ 31)"
    by (simp add: base_def seq_at_def)
  obtain a where a: "seq = seq_at base a" "near a (2 ^ 31)"
    using near_exists [of "2 ^ 31" seq base] by blast
  have upd: "received D c (set_rcv r' c)" if "rcv_autoTune r' = rcv_autoTune r" for r'
  proof -
    have "rcv_live (set_rcv r' c)"
      using assms(1,2) r that by (simp add: rcv_live_def set_rcv_def)
    then show ?thesis
      by (rule received_set)
  qed
  have "\<exists>c'. handleData_trimmed e c sq x = Some c' \<and> received D c c'" for sq x
    using assms(2) r upd received_refl [OF assms(1)] by (simp add: handleData_trimmed_def)
  then show ?thesis
    unfolding a(1) handleData_trim [OF r(1) nxt r(2,3) a(2) assms(3) False refl]
    using upd received_refl [OF assms(1)] by (auto simp: dsack_def)
qed

text \<open>A closed read buffer takes nothing; what arrives ahead is kept but never delivered.\<close>

lemma handleData_closed:
  assumes "rcv_live c" "\<not> c_readShutdown c" "rb_closed (c_readBuf c)" "length d \<le> 2 ^ 30"
  shows "\<exists>c'. handleData e c seq d = Some c' \<and> received D c c'"
proof (cases "d = []")
  case True
  then show ?thesis
    using received_refl [OF assms(1)] by (simp add: handleData_def)
next
  case False
  obtain r where r: "c_rcv c = Some r" "rb_inv (c_readBuf c)" "rcv_free c \<le> 2 ^ 30"
    using assms(1) by (auto simp: rcv_live_def)
  obtain base n ivs where sl: "rcv_slots base n ivs r"
    using assms(1-3) r(1) by (auto simp: rcv_live_def rcv_holds_def rcv_open_def)
  then have n: "2 ^ 31 \<le> n" "rcv_nxt r = seq_at base n" "rcv_ooo r = map (oo_seg base) ivs" "ivs_ok (n - 1) (n + 2 ^ 30) ivs"
    by (simp_all add: rcv_slots_def)
  obtain a where a: "seq = seq_at base a" "near a n"
    using near_exists [OF n(1)] by blast
  have upd: "received D c (set_rcv r' c)" if "rcv_autoTune r' = rcv_autoTune r" "rcv_slots base n ivs' r'" for r' ivs'
  proof -
    have "rcv_live (set_rcv r' c)"
      using assms(1-3) r that unfolding rcv_live_def set_rcv_def by auto
    then show ?thesis
      by (rule received_set)
  qed
  have trimmed: "\<exists>c'. handleData_trimmed e c (seq_at base k) x = Some c' \<and> received D c c'"
    if k: "n \<le> k" "x \<noteq> []" "k + length x \<le> n + rcv_free c" for k x
  proof (cases "k = n")
    case True
    have "deliver_advance e c x = Some (c, 0)"
      using r(1) WriteNoBlock_closed [OF assms(3), of x] by (simp add: deliver_advance_def deliver_def set_rcv_def)
    then show ?thesis
      using True r(1) n(2) assms(2) received_refl [OF assms(1)] by (simp add: handleData_trimmed_def)
  next
    case False
    have "n - 1 < k" "k + length x \<le> n + 2 ^ 30" "n + 2 ^ 30 < n - 1 + 2 ^ 31"
      using k r(3) n(1) by simp_all
    with insertOOO_spec [OF n(3,4) _ k(2), of k "\<lambda>_ _. True"]
    obtain r' where r': "insertOOO r (seq_at base k) x = Some r'" "inserted (\<lambda>_ _. True) (n - 1) (n + 2 ^ 30) base r ivs k x r'"
      by blast
    then obtain ivs' where i: "same_but_ooo r r'" "rcv_ooo r' = map (oo_seg base) ivs'" "ivs_ok (n - 1) (n + 2 ^ 30) ivs'"
      unfolding inserted_def by blast
    have "rcv_slots base n ivs' r'" "rcv_autoTune r' = rcv_autoTune r"
      using n i(2,3) same_but_oooD [OF i(1)] by (simp_all add: rcv_slots_def)
    moreover have "seq_at base k \<noteq> rcv_nxt r" "seqGreaterThan (seq_at base k) (rcv_nxt r)"
      unfolding n(2) using False k r(3) by (simp_all add: seqGreaterThan_at near_def seq_at_eq)
    ultimately show ?thesis
      using r'(1) r(1) assms(2) upd by (auto simp: handleData_trimmed_def)
  qed
  define k where "k = max a n"
  let ?x = "take (n + rcv_free c - k) (drop (k - a) d)"
  have "\<exists>c'. handleData_trimmed e c (seq_at base k) ?x = Some c' \<and> received D c c'"
    if "\<not> a + length d \<le> n" "k < n + rcv_free c"
  proof -
    have "n \<le> k" "a \<le> k" "k < a + length d"
      using that False by (auto simp: k_def)
    then show ?thesis
      using that by (intro trimmed) auto
  qed
  moreover have "received D c (set_rcv (dsack (seq_at base a) (seq_at base (a + length d)) r) c)"
    by (rule upd [of _ ivs]) (use sl in \<open>simp_all add: dsack_def rcv_slots_def\<close>)
  ultimately show ?thesis
    unfolding a(1) handleData_trim [OF r(1) n(2) r(2,3) a(2) assms(4) False k_def] using received_refl [OF assms(1)] by auto
qed

lemma handleData_safe:
  assumes "rcv_live c" "length d \<le> 2 ^ 30"
  shows "\<exists>c'. handleData e c seq d = Some c' \<and> received D c c'"
proof (cases "c_readShutdown c \<or> rb_closed (c_readBuf c) \<or> d = []")
  case True
  moreover have "handleData e c seq [] = Some c"
    by (simp add: handleData_def)
  ultimately show ?thesis
    using handleData_shutdown [OF assms(1) _ assms(2)] handleData_closed [OF assms(1) _ _ assms(2)] received_refl [OF assms(1)]
    by metis
next
  case False
  then obtain r base n ivs where h: "2 ^ 31 \<le> n" "rcv_holds base n ivs c r"
    using assms(1) by (auto simp: rcv_live_def)
  obtain a where a: "seq = seq_at base a" "near a n"
    using near_exists [OF h(1)] by blast
  let ?P = "\<lambda>_ _. True"
  have "ivs_at ?P ivs" "at_pos ?P a d"
    by (simp_all add: ivs_at_def at_pos_def list_all_iff)
  then obtain C c' where c': "handleData e c seq d = Some c'" "rcv_result D ?P base C n c r c'"
    using handleData_result [OF h(2) _ a(2) assms(2), of ?P e D] False unfolding a(1) by blast
  then show ?thesis
    using rcv_result_live [OF c'(2) h(1)] by (auto simp: received_def rcv_result_def)
qed

end
