(* ===== verification/TcpSender.thy ===== *)
theory TcpSender
  imports TcpSegment
begin

text \<open>
  The send side of a connection: \<open>src/transport/tcp/snd.go\<close>, with \<open>closeDone\<close> and \<open>abort\<close> of \<open>conn.go\<close>, which
  the retransmission timer calls. The methods of \<open>sender\<close> that use the connection are functions on the
  connection; \<open>c_snd\<close> is the sender they belong to.
\<close>

section \<open>Construction and windows\<close>

record senderConfig =
  sc_MinRTO :: int
  sc_MaxRTO :: int
  sc_InitialRTO :: int
  sc_MaxRetries :: int
  sc_InitialSSThresh :: u32

definition newSender :: "u32 \<Rightarrow> u16 \<Rightarrow> u8 \<Rightarrow> int \<Rightarrow> u16 \<Rightarrow> senderConfig \<Rightarrow> sender" where
  "newSender iss peerWnd wndScale mtu peerMSS cfg =
     (let mss = mtu - int IPv4MinHeaderSize - int TCPMinHeaderSize;
          mss = (if mss \<le> 0 then 536 else mss);
          pmss = uint peerMSS;
          pmss = (if pmss = 0 then 536 else pmss);
          mss = (if pmss < mss then pmss else mss);
          iw = min (10 * word_of_int mss) (max (2 * word_of_int mss) 14600);
          initialWnd = push_bit (unat wndScale) (ucast peerWnd)
      in \<lparr>snd_iss = iss, snd_nxt = iss + 1, snd_una = iss + 1, snd_wnd = initialWnd, snd_mss = mss,
          snd_rto = sc_InitialRTO cfg, snd_srtt = 0, snd_rttvar = 0, snd_minRTO = sc_MinRTO cfg, snd_maxRTO = sc_MaxRTO cfg,
          snd_unacked = [], snd_retries = 0, snd_maxRetries = sc_MaxRetries cfg, snd_cwnd = iw,
          snd_ssthresh = sc_InitialSSThresh cfg, snd_dupACKCount = 0, snd_inRecovery = False, snd_recoveryPoint = 0,
          snd_dsackSeen = False, snd_maxWnd = initialWnd\<rparr>)"

definition updateMaxWnd :: "u32 \<Rightarrow> sender \<Rightarrow> sender" where
  "updateMaxWnd wnd s = (if wnd > snd_maxWnd s then s\<lparr>snd_maxWnd := wnd\<rparr> else s)"

definition effectiveWindow :: "sender \<Rightarrow> int" where
  "effectiveWindow s = min (uint (snd_cwnd s)) (uint (snd_wnd s)) - uint (snd_nxt s - snd_una s)"

definition hasUnacked :: "sender \<Rightarrow> bool" where
  "hasUnacked s \<longleftrightarrow> snd_unacked s \<noteq> []"

definition set_snd :: "sender \<Rightarrow> TCPConn \<Rightarrow> TCPConn" where
  "set_snd s c = c\<lparr>c_snd := Some s\<rparr>"

definition us_dataLen :: "unackedSegment \<Rightarrow> nat" where
  "us_dataLen u = (case us_ref u of None \<Rightarrow> 0 | Some ref \<Rightarrow> RefBuf_Len ref)"

definition us_end :: "unackedSegment \<Rightarrow> u32" where
  "us_end u = (if us_fin u then us_seq u + 1 else us_seq u + of_nat (us_dataLen u))"

section \<open>Round-trip times\<close>

text \<open>Go's integer division by a positive constant: it rounds towards zero.\<close>

definition quot :: "int \<Rightarrow> int \<Rightarrow> int" where
  "quot a b = (if a < 0 then - ((- a) div b) else a div b)"

definition updateRTT :: "int \<Rightarrow> sender \<Rightarrow> sender" where
  "updateRTT measured s =
     (let s = (if snd_srtt s = 0 then s\<lparr>snd_srtt := measured, snd_rttvar := quot measured 2\<rparr>
               else let diff = \<bar>snd_srtt s - measured\<bar>
                    in s\<lparr>snd_rttvar := quot (3 * snd_rttvar s + diff) 4, snd_srtt := quot (7 * snd_srtt s + measured) 8\<rparr>)
      in s\<lparr>snd_rto := min (max (snd_srtt s + 4 * snd_rttvar s) (snd_minRTO s)) (snd_maxRTO s)\<rparr>)"

section \<open>The retransmission queue\<close>

definition sent_segment :: "int \<Rightarrow> u32 \<Rightarrow> RefBuf option \<Rightarrow> bool \<Rightarrow> unackedSegment" where
  "sent_segment now seq ref fin = \<lparr>us_seq = seq, us_ref = ref, us_fin = fin, us_sentAt = now, us_retransmitted = False,
     us_sacked = False\<rparr>"

definition recordSent :: "env \<Rightarrow> u32 \<Rightarrow> RefBuf \<Rightarrow> sender \<Rightarrow> sender" where
  "recordSent e seq ref s = s\<lparr>snd_unacked := snd_unacked s @ [sent_segment (e_now e) seq (Some (IncRef ref)) False]\<rparr>"

definition recordSentFIN :: "env \<Rightarrow> u32 \<Rightarrow> sender \<Rightarrow> sender" where
  "recordSentFIN e seq s = s\<lparr>snd_unacked := snd_unacked s @ [sent_segment (e_now e) seq None True]\<rparr>"

text \<open>
  \<open>recordSentGSO\<close> cuts the payload into segments of \<open>mss\<close> bytes. It does not return when \<open>mss\<close> is not positive:
  the slice expression panics for a negative length, and the loop does not end for zero.
\<close>

function gso_segments :: "env \<Rightarrow> nat \<Rightarrow> u32 \<Rightarrow> bytes \<Rightarrow> int \<Rightarrow> unackedSegment list go" where
  "gso_segments e k seq d mss =
     (if d = [] then Some []
      else if mss \<le> 0 then panic
      else do {
        let n = min (length d) (nat mss);
        let ref = GetRefBuf (e_payloads e k);
        _ \<leftarrow> subslice (ref_buf ref) 0 n;
        let ref = SetLen (ref\<lparr>ref_buf := overwrite (ref_buf ref) 0 (take n d)\<rparr>) n;
        rest \<leftarrow> gso_segments e (k + 1) (seq + of_nat n) (drop n d) mss;
        Some (sent_segment (e_now e) seq (Some ref) False # rest) })"
  by pat_completeness auto
termination
  by (relation "measure (\<lambda>(e, k, seq, d, mss). length d)") auto

declare gso_segments.simps [simp del]

definition recordSentGSO :: "env \<Rightarrow> nat \<Rightarrow> u32 \<Rightarrow> bytes \<Rightarrow> int \<Rightarrow> sender \<Rightarrow> sender go" where
  "recordSentGSO e k seq d mss s = do {
     us \<leftarrow> gso_segments e k seq d mss;
     Some (s\<lparr>snd_unacked := snd_unacked s @ us\<rparr>) }"

text \<open>The loop of \<open>removeAcked\<close> over the queue; the sender it returns has the segments that are left.\<close>

fun removeAcked_loop :: "env \<Rightarrow> bool \<Rightarrow> u32 \<Rightarrow> bool \<Rightarrow> sender \<Rightarrow> unackedSegment list \<Rightarrow> sender" where
  "removeAcked_loop e tsEnabled ack rttMeasured s [] = s\<lparr>snd_unacked := []\<rparr>"
| "removeAcked_loop e tsEnabled ack rttMeasured s (u # us) =
     (if \<not> seqGreaterThan ack (us_seq u) then s\<lparr>snd_unacked := u # us\<rparr>
      else
        let measure = \<not> rttMeasured \<and> \<not> tsEnabled \<and> \<not> us_retransmitted u;
            s = (if measure then updateRTT (e_now e - us_sentAt u) s else s)
        in if seqLessThan (us_end u) ack \<or> us_end u = ack
           then removeAcked_loop e tsEnabled ack (rttMeasured \<or> measure) s us
           else s\<lparr>snd_unacked := u # us\<rparr>)"

definition removeAcked :: "env \<Rightarrow> TCPConn \<Rightarrow> u32 \<Rightarrow> sender \<Rightarrow> sender" where
  "removeAcked e c ack s = removeAcked_loop e (c_tsEnabled c) ack False s (snd_unacked s)"

section \<open>Retransmission\<close>

text \<open>Sending the segment at position \<open>i\<close> of the queue once more.\<close>

definition resend_data :: "env \<Rightarrow> TCPConn \<Rightarrow> unackedSegment \<Rightarrow> TCPConn go" where
  "resend_data e c u = do { ref \<leftarrow> us_ref u; d \<leftarrow> RefBuf_Bytes ref; sendData e c d (us_seq u) }"

definition mark_resent :: "env \<Rightarrow> nat \<Rightarrow> TCPConn \<Rightarrow> TCPConn go" where
  "mark_resent e i c = do {
     s \<leftarrow> c_snd c;
     Some (set_snd (s\<lparr>snd_unacked := (snd_unacked s)[i := (snd_unacked s ! i)\<lparr>us_retransmitted := True, us_sentAt := e_now e\<rparr>]\<rparr>) c) }"

definition resend :: "env \<Rightarrow> nat \<Rightarrow> TCPConn \<Rightarrow> TCPConn go" where
  "resend e i c = do {
     c \<leftarrow> mark_resent e i c;
     s \<leftarrow> c_snd c;
     let u = snd_unacked s ! i;
     if us_fin u then sendFINSegment e c (us_seq u) else resend_data e c u }"

definition retransmitOldest :: "env \<Rightarrow> TCPConn \<Rightarrow> TCPConn go" where
  "retransmitOldest e c = do { s \<leftarrow> c_snd c; if snd_unacked s = [] then Some c else resend e 0 c }"

definition retransmitFirstUnSACKed :: "env \<Rightarrow> TCPConn \<Rightarrow> TCPConn go" where
  "retransmitFirstUnSACKed e c = do {
     s \<leftarrow> c_snd c;
     let i = length (takeWhile us_sacked (snd_unacked s));
     if i < length (snd_unacked s) then resend e i c else Some c }"

definition closeDone :: "TCPConn \<Rightarrow> TCPConn" where
  "closeDone c = (if c_done c then c else c\<lparr>c_state := stateClosed, c_done := True\<rparr>)"

definition abort :: "env \<Rightarrow> TCPConn \<Rightarrow> TCPConn go" where
  "abort e c = do {
     let c = tcp_count (\<lambda>st. st\<lparr>ts_TotalReset := ts_TotalReset st + 1\<rparr>) c;
     c \<leftarrow> (case c_snd c of None \<Rightarrow> Some c | Some s \<Rightarrow> sendRSTSegment e c (snd_nxt s));
     Some (closeDone c) }"

text \<open>The sender's state after the timer expired, when the connection is not given up.\<close>

definition rto_sender :: "sender \<Rightarrow> sender" where
  "rto_sender s = s\<lparr>snd_inRecovery := False, snd_dupACKCount := 0,
     snd_ssthresh := max (snd_cwnd s div 2) (2 * word_of_int (snd_mss s)), snd_cwnd := word_of_int (snd_mss s),
     snd_rto := min (snd_rto s * 2) (snd_maxRTO s),
     snd_unacked := map (\<lambda>u. u\<lparr>us_sacked := False\<rparr>) (snd_unacked s)\<rparr>"

definition handleRTO :: "env \<Rightarrow> TCPConn \<Rightarrow> TCPConn go" where
  "handleRTO e c = do {
     s \<leftarrow> c_snd c;
     if snd_unacked s = [] then Some c
     else do {
       let s = (if c_zeroWindowProbing c then s else s\<lparr>snd_retries := snd_retries s + 1\<rparr>);
       let c = set_snd s c;
       if \<not> c_zeroWindowProbing c \<and> snd_retries s > snd_maxRetries s then abort e c
       else do {
         let c = set_snd (rto_sender s) c;
         let c = tcp_count (\<lambda>st. st\<lparr>ts_Retransmits := ts_Retransmits st + 1\<rparr>) c;
         retransmitOldest e c } } }"

section \<open>Selective acknowledgements\<close>

definition sack_mark :: "SACKBlock list \<Rightarrow> unackedSegment \<Rightarrow> unackedSegment" where
  "sack_mark blocks u =
     (if \<not> us_sacked u \<and>
         list_ex (\<lambda>b. us_seq u \<ge> sb_Start b \<and> us_seq u + of_nat (us_dataLen u) \<le> sb_End b) blocks
      then u\<lparr>us_sacked := True\<rparr> else u)"

definition processSACKBlocks :: "SACKBlock list \<Rightarrow> u32 \<Rightarrow> sender \<Rightarrow> sender" where
  "processSACKBlocks blocks ack s =
     (case blocks of
        [] \<Rightarrow> s\<lparr>snd_unacked := map (sack_mark []) (snd_unacked s)\<rparr>
      | b # bs \<Rightarrow>
          if \<not> seqGreaterThan (sb_End b) ack
          then s\<lparr>snd_dsackSeen := True, snd_unacked := map (sack_mark bs) (snd_unacked s)\<rparr>
          else s\<lparr>snd_unacked := map (sack_mark (b # bs)) (snd_unacked s)\<rparr>)"

text \<open>One round of the loop of \<open>sackLossDetection\<close>, for the segment at position \<open>i\<close>.\<close>

definition sackLoss_round :: "env \<Rightarrow> nat \<Rightarrow> TCPConn \<Rightarrow> TCPConn go" where
  "sackLoss_round e i c = do {
     s \<leftarrow> c_snd c;
     let u = snd_unacked s ! i;
     if us_sacked u \<or> us_retransmitted u then Some c
     else if length (filter us_sacked (drop (i + 1) (snd_unacked s))) \<ge> 3 then do {
       c \<leftarrow> mark_resent e i c;
       resend_data e c u }
     else Some c }"

fun iterate :: "(nat \<Rightarrow> 'a \<Rightarrow> 'a go) \<Rightarrow> nat list \<Rightarrow> 'a \<Rightarrow> 'a go" where
  "iterate f [] x = Some x"
| "iterate f (i # is) x = do { x \<leftarrow> f i x; iterate f is x }"

definition sackLossDetection :: "env \<Rightarrow> TCPConn \<Rightarrow> TCPConn go" where
  "sackLossDetection e c = do {
     s \<leftarrow> c_snd c;
     iterate (sackLoss_round e) [0..<length (snd_unacked s)] c }"

section \<open>Sending new data\<close>

text \<open>
  Reading \<open>segSize\<close> bytes of the write buffer into a pooled buffer, sending them and recording them. The
  result says whether any bytes were read; the callers stop when there were none.
\<close>

definition send_new :: "env \<Rightarrow> int \<Rightarrow> TCPConn \<Rightarrow> (TCPConn \<times> bool) go" where
  "send_new e segSize c =
     (if segSize < 0 then panic
      else do {
        let ref = GetRefBuf (e_payloads e (length (c_out c)));
        _ \<leftarrow> subslice (ref_buf ref) 0 (nat segSize);
        (wb, d) \<leftarrow> ReadNoBlock (c_writeBuf c) (nat segSize);
        let c = c\<lparr>c_writeBuf := wb\<rparr>;
        if d = [] then Some (c, False)
        else do {
          let ref = SetLen (ref\<lparr>ref_buf := overwrite (ref_buf ref) 0 d\<rparr>) (length d);
          bs \<leftarrow> RefBuf_Bytes ref;
          s \<leftarrow> c_snd c;
          c \<leftarrow> sendData e c bs (snd_nxt s);
          s \<leftarrow> c_snd c;
          let s = recordSent e (snd_nxt s) ref s;
          Some (set_snd (s\<lparr>snd_nxt := snd_nxt s + of_nat (length d)\<rparr>) c, True) } })"

definition send_new_gso :: "env \<Rightarrow> int \<Rightarrow> TCPConn \<Rightarrow> (TCPConn \<times> bool) go" where
  "send_new_gso e gsoSize c =
     (if gsoSize < 0 then panic
      else do {
        let buf = e_gsoBufs e (length (c_out c));
        let dataOffset = gsoDataOffset c;
        _ \<leftarrow> subslice buf dataOffset (dataOffset + nat gsoSize);
        (wb, d) \<leftarrow> ReadNoBlock (c_writeBuf c) (nat gsoSize);
        let c = c\<lparr>c_writeBuf := wb\<rparr>;
        if d = [] then Some (c, False)
        else do {
          let buf = overwrite buf dataOffset d;
          s \<leftarrow> c_snd c;
          s \<leftarrow> recordSentGSO e (length (c_out c)) (snd_nxt s) d (snd_mss s) s;
          c \<leftarrow> sendDataGSO e (set_snd s c) buf (length d) (snd_nxt s);
          s \<leftarrow> c_snd c;
          Some (set_snd (s\<lparr>snd_nxt := snd_nxt s + of_nat (length d)\<rparr>) c, True) } })"

text \<open>The conditions under which \<open>sendPending\<close> stops, with the two sizes it computed.\<close>

definition sendPending_stops :: "TCPConn \<Rightarrow> sender \<Rightarrow> int \<Rightarrow> int \<Rightarrow> bool" where
  "sendPending_stops c s windowLeft available \<longleftrightarrow>
     windowLeft \<le> 0 \<or> available \<le> 0 \<or>
     (\<not> c_zeroWindowProbing c \<and> windowLeft < min (snd_mss s) (uint (snd_maxWnd s div 2)) \<and> available > windowLeft) \<or>
     (\<not> c_noDelay c \<and> hasUnacked s \<and> available < snd_mss s)"

text \<open>One round of the loop of \<open>sendPending\<close>, and whether there is another.\<close>

definition sendPending_round :: "env \<Rightarrow> TCPConn \<Rightarrow> (TCPConn \<times> bool) go" where
  "sendPending_round e c = do {
     s \<leftarrow> c_snd c;
     let windowLeft = effectiveWindow s;
     available \<leftarrow> (if windowLeft \<le> 0 then Some 0 else Len (c_writeBuf c));
     if sendPending_stops c s windowLeft (int available) then Some (c, False)
     else if e_gso e \<and> int available > snd_mss s \<and> windowLeft > snd_mss s
     then send_new_gso e (min windowLeft (min (int available) (min (e_gsoMaxSize e)
            (min (0xffff - int (gsoDataOffset c)) (int GSOBufSize - int (gsoDataOffset c)))))) c
     else send_new e (min (min windowLeft (int available)) (snd_mss s)) c }"

partial_function (option) sendPending :: "env \<Rightarrow> TCPConn \<Rightarrow> TCPConn go" where
  "sendPending e c = do {
     r \<leftarrow> sendPending_round e c;
     (if snd r then sendPending e (fst r) else Some (fst r)) }"

definition limitedTransmit :: "env \<Rightarrow> TCPConn \<Rightarrow> TCPConn go" where
  "limitedTransmit e c = do {
     s \<leftarrow> c_snd c;
     available \<leftarrow> Len (c_writeBuf c);
     let flightSize = uint (snd_nxt s - snd_una s);
     if available = 0 \<or> flightSize \<ge> uint (snd_wnd s) then Some c
     else do {
       let segSize = min (min (int available) (snd_mss s)) (uint (snd_wnd s) - flightSize);
       if segSize \<le> 0 then Some c
       else do { (c, _) \<leftarrow> send_new e segSize c; Some c } } }"

section \<open>Acknowledgements\<close>

definition handleDupACK :: "env \<Rightarrow> TCPConn \<Rightarrow> TCPConn go" where
  "handleDupACK e c = do {
     let c = tcp_count (\<lambda>st. st\<lparr>ts_DupACKsIn := ts_DupACKsIn st + 1\<rparr>) c;
     s \<leftarrow> c_snd c;
     let s = s\<lparr>snd_dupACKCount := snd_dupACKCount s + 1\<rparr>;
     let c = set_snd s c;
     if snd_inRecovery s then sendPending e (set_snd (s\<lparr>snd_cwnd := snd_cwnd s + word_of_int (snd_mss s)\<rparr>) c)
     else if snd_dupACKCount s \<le> 2 then limitedTransmit e c
     else if snd_dupACKCount s = 3 then do {
       let c = tcp_count (\<lambda>st. st\<lparr>ts_FastRetransmits := ts_FastRetransmits st + 1\<rparr>) c;
       let ssthresh = max (snd_cwnd s div 2) (2 * word_of_int (snd_mss s));
       let s = s\<lparr>snd_ssthresh := ssthresh, snd_cwnd := ssthresh + 3 * word_of_int (snd_mss s), snd_inRecovery := True,
                snd_recoveryPoint := snd_nxt s\<rparr>;
       retransmitFirstUnSACKed e (set_snd s c) }
     else Some c }"

text \<open>The growth of the congestion window outside of recovery; the division panics when the window is zero.\<close>

definition grow_cwnd :: "u32 \<Rightarrow> sender \<Rightarrow> sender go" where
  "grow_cwnd acked s =
     (if snd_cwnd s < snd_ssthresh s then
        let cwnd = snd_cwnd s + acked
        in Some (s\<lparr>snd_cwnd := (if cwnd > snd_ssthresh s then snd_ssthresh s else cwnd)\<rparr>)
      else if snd_cwnd s = 0 then panic
      else let increment = word_of_int (snd_mss s) * acked div snd_cwnd s;
               increment = (if increment = 0 then 1 else increment)
           in Some (s\<lparr>snd_cwnd := snd_cwnd s + increment\<rparr>))"

definition handleACK :: "env \<Rightarrow> TCPConn \<Rightarrow> u32 \<Rightarrow> TCPConn go" where
  "handleACK e c ack = do {
     s \<leftarrow> c_snd c;
     if ack = snd_una s then handleDupACK e c
     else if \<not> seqGreaterThan ack (snd_una s) \<or> seqGreaterThan ack (snd_nxt s) then Some c
     else do {
       let acked = ack - snd_una s;
       let s = removeAcked e c ack (s\<lparr>snd_una := ack, snd_retries := 0\<rparr>);
       c \<leftarrow> (if snd_inRecovery s then
               (if seqLessThan ack (snd_recoveryPoint s) then do {
                  c \<leftarrow> retransmitFirstUnSACKed e (set_snd s c);
                  s \<leftarrow> c_snd c;
                  Some (set_snd (s\<lparr>snd_cwnd := snd_ssthresh s, snd_dupACKCount := 0\<rparr>) c) }
                else Some (set_snd (s\<lparr>snd_inRecovery := False, snd_cwnd := snd_ssthresh s, snd_dupACKCount := 0\<rparr>) c))
             else do {
               s \<leftarrow> grow_cwnd acked (s\<lparr>snd_dupACKCount := 0\<rparr>);
               Some (set_snd s c) });
       sendPending e c } }"

end
