(* ===== verification/TcpConn.thy ===== *)
theory TcpConn
  imports TcpReceiver TcpSender
begin

text \<open>
  The connection: \<open>src/transport/tcp/conn.go\<close>, \<open>conn_synrcvd.go\<close>, \<open>conn_established.go\<close> and \<open>conn_closing.go\<close>.

  The cases of the \<open>select\<close> in \<open>run\<close> are events; \<open>run_ready\<close> says when a case can be taken and \<open>run_round\<close> is what
  the loop body does then. All events of one connection are handled one after the other, by the goroutine
  that executes \<open>run\<close>, so each is one step; the time does not change within a step.
\<close>

section \<open>Small operations\<close>

definition updateSnapshot :: "TCPConn \<Rightarrow> TCPConn go" where
  "updateSnapshot c = do {
     rused \<leftarrow> Len (c_readBuf c);
     wused \<leftarrow> Len (c_writeBuf c);
     let snap = \<lparr>sn_Flow = c_flow c, sn_State = tcpState_String (c_state c), sn_SRTT = 0, sn_RTO = 0, sn_Cwnd = 0,
       sn_SSThresh = 0, sn_SndWnd = 0, sn_SndNxt = 0, sn_SndMSS = 0, sn_SndMaxWnd = 0, sn_RcvWnd = 0, sn_Unacked = 0,
       sn_OOO = 0, sn_ReadBufUsed = rused, sn_WriteBufUsed = wused, sn_BufCap = Cap (c_readBuf c),
       sn_ReadBufCap = Cap (c_readBuf c), sn_WriteBufCap = Cap (c_writeBuf c), sn_DSACKSeen = False, sn_Retries = 0,
       sn_InRecovery = False\<rparr>;
     let snap = (case c_snd c of None \<Rightarrow> snap | Some s \<Rightarrow> snap\<lparr>sn_SRTT := snd_srtt s, sn_RTO := snd_rto s, sn_Cwnd := snd_cwnd s,
       sn_SSThresh := snd_ssthresh s, sn_SndWnd := snd_wnd s, sn_SndNxt := snd_nxt s, sn_SndMSS := snd_mss s,
       sn_SndMaxWnd := snd_maxWnd s, sn_Unacked := length (snd_unacked s), sn_Retries := snd_retries s,
       sn_InRecovery := snd_inRecovery s, sn_DSACKSeen := snd_dsackSeen s\<rparr>);
     snap \<leftarrow> (case c_rcv c of None \<Rightarrow> Some snap
              | Some r \<Rightarrow> do { w \<leftarrow> rcv_wnd c; Some (snap\<lparr>sn_RcvWnd := w, sn_OOO := length (rcv_ooo r)\<rparr>) });
     Some (c\<lparr>c_snapshotData := Some snap\<rparr>) }"

definition SetNoDelay :: "bool \<Rightarrow> TCPConn \<Rightarrow> TCPConn" where
  "SetNoDelay b c = c\<lparr>c_noDelay := b\<rparr>"

definition LocalAddr :: "TCPConn \<Rightarrow> FullAddress" where
  "LocalAddr c = \<lparr>fa_Addr = fl_DstAddr (c_flow c), fa_Port = fl_DstPort (c_flow c)\<rparr>"

definition RemoteAddr :: "TCPConn \<Rightarrow> FullAddress" where
  "RemoteAddr c = \<lparr>fa_Addr = fl_SrcAddr (c_flow c), fa_Port = fl_SrcPort (c_flow c)\<rparr>"

definition checkZeroWindow :: "env \<Rightarrow> TCPConn \<Rightarrow> TCPConn go" where
  "checkZeroWindow e c =
     (case c_snd c of
        None \<Rightarrow> Some c
      | Some s \<Rightarrow>
          if c_zeroWindowProbing c \<or> snd_wnd s \<noteq> 0 then Some c
          else do {
            n \<leftarrow> Len (c_writeBuf c);
            Some (if n > 0 then c\<lparr>c_zeroWindowProbing := True, c_probeInterval := snd_rto s,
                                  c_zeroWindowTimer := Some (e_now e + snd_rto s)\<rparr>
                  else c) })"

definition cancelZeroWindowProbe :: "TCPConn \<Rightarrow> TCPConn" where
  "cancelZeroWindowProbe c =
     (if \<not> c_zeroWindowProbing c then c else c\<lparr>c_zeroWindowProbing := False, c_zeroWindowTimer := None\<rparr>)"

definition sendZeroWindowProbe :: "env \<Rightarrow> TCPConn \<Rightarrow> TCPConn go" where
  "sendZeroWindowProbe e c =
     (let c = tcp_count (\<lambda>st. st\<lparr>ts_ZeroWindowProbes := ts_ZeroWindowProbes st + 1\<rparr>) c in
      case c_snd c of
        None \<Rightarrow> Some c
      | Some s \<Rightarrow> do {
          (c, sent) \<leftarrow> send_new e 1 c;
          Some (if sent then c else cancelZeroWindowProbe c) })"

definition resetKeepalive :: "env \<Rightarrow> TCPConn \<Rightarrow> TCPConn" where
  "resetKeepalive e c = c\<lparr>c_keepaliveProbes := 0, c_keepaliveTimer := Some (e_now e + cc_keepaliveIdle (c_cfg c))\<rparr>"

definition handleRST :: "TCPConn \<Rightarrow> TCPConn" where
  "handleRST c = closeDone ((tcp_count (\<lambda>st. st\<lparr>ts_ResetsReceived := ts_ResetsReceived st + 1\<rparr>) c)\<lparr>c_state := stateClosed\<rparr>)"

definition sendFIN :: "env \<Rightarrow> TCPConn \<Rightarrow> TCPConn go" where
  "sendFIN e c = do {
     s \<leftarrow> c_snd c;
     c \<leftarrow> sendFINSegment e c (snd_nxt s);
     s \<leftarrow> c_snd c;
     let s = recordSentFIN e (snd_nxt s) s;
     Some (set_snd (s\<lparr>snd_nxt := snd_nxt s + 1\<rparr>) c) }"

definition finalizeFIN :: "env \<Rightarrow> TCPConn \<Rightarrow> TCPConn go" where
  "finalizeFIN e c =
     (let c = c\<lparr>c_finPending := False\<rparr> in
      case c_state c of
        stateEstablished \<Rightarrow> do { c \<leftarrow> sendFIN e c; Some (c\<lparr>c_state := stateFinWait1\<rparr>) }
      | stateCloseWait \<Rightarrow> do { c \<leftarrow> sendFIN e c; Some (c\<lparr>c_state := stateLastAck\<rparr>) }
      | _ \<Rightarrow> Some c)"

definition handleClose :: "env \<Rightarrow> TCPConn \<Rightarrow> TCPConn go" where
  "handleClose e c =
     (if c_state c = stateEstablished \<or> c_state c = stateCloseWait then
        (case c_snd c of
           None \<Rightarrow> finalizeFIN e c
         | Some _ \<Rightarrow> do {
             c \<leftarrow> sendPending e c;
             n \<leftarrow> Len (c_writeBuf c);
             if n > 0 then Some (c\<lparr>c_finPending := True\<rparr>) else finalizeFIN e c })
      else Some c)"

definition enterTimeWait :: "env \<Rightarrow> TCPConn \<Rightarrow> TCPConn" where
  "enterTimeWait e c =
     (let c = c\<lparr>c_state := stateTimeWait\<rparr>;
          c = (if \<not> c_readShutdown c then c\<lparr>c_readBuf := CloseWrite (c_readBuf c)\<rparr> else c)
      in c\<lparr>c_timeWaitTimer := Some (e_now e + cc_timeWaitDuration (c_cfg c))\<rparr>)"

definition forceCloseFromRun :: "env \<Rightarrow> TCPConn \<Rightarrow> TCPConn go" where
  "forceCloseFromRun e c = do {
     c \<leftarrow> (case c_snd c of
             Some s \<Rightarrow> if c_state c = stateEstablished then sendRSTSegment e c (snd_nxt s) else Some c
           | None \<Rightarrow> Some c);
     Some (closeDone (c\<lparr>c_writeBuf := CloseWrite (c_writeBuf c), c_readBuf := CloseWrite (c_readBuf c)\<rparr>)) }"

section \<open>Segment handlers\<close>

definition measureRTTM :: "env \<Rightarrow> segment \<Rightarrow> TCPConn \<Rightarrow> TCPConn" where
  "measureRTTM e seg c =
     (case c_snd c of
        None \<Rightarrow> c
      | Some s \<Rightarrow>
          if c_tsEnabled c \<and> sg_hasTS seg \<and> sg_tsEcr seg \<noteq> 0 then
            let rtt = uint (tcp_now e - sg_tsEcr seg) * 1000000
            in if rtt > 0 then set_snd (updateRTT rtt s) c else c
          else c)"

abbreviation seg_window :: "TCPConn \<Rightarrow> segment \<Rightarrow> u32" where
  "seg_window c seg \<equiv> push_bit (unat (c_sndWndScale c)) (ucast (sg_wnd seg))"

definition set_wnd :: "segment \<Rightarrow> TCPConn \<Rightarrow> TCPConn" where
  "set_wnd seg c = (case c_snd c of None \<Rightarrow> c | Some s \<Rightarrow> set_snd (s\<lparr>snd_wnd := seg_window c seg\<rparr>) c)"

definition track_max_wnd :: "TCPConn \<Rightarrow> TCPConn" where
  "track_max_wnd c = (case c_snd c of None \<Rightarrow> c | Some s \<Rightarrow> set_snd (updateMaxWnd (snd_wnd s) s) c)"

text \<open>What \<open>handleSynRcvd\<close> sets up when the handshake completes.\<close>

definition establish :: "env \<Rightarrow> segment \<Rightarrow> TCPConn \<Rightarrow> TCPConn" where
  "establish e seg c =
     (let c = c\<lparr>c_state := stateEstablished\<rparr>;
          c = (case c_stats c of None \<Rightarrow> c
               | Some st \<Rightarrow> c\<lparr>c_stats := Some (st\<lparr>ts_ActiveConns := ts_ActiveConns st + 1,
                                                  ts_TotalAccepted := ts_TotalAccepted st + 1\<rparr>), c_statsActive := True\<rparr>);
          c = c\<lparr>c_synRcvdTimer := None\<rparr>;
          s = newSender (c_iss c) (sg_wnd seg) (c_sndWndScale c) (e_mtu e) (c_peerMSS c)
                \<lparr>sc_MinRTO = cc_minRTO (c_cfg c), sc_MaxRTO = cc_maxRTO (c_cfg c), sc_InitialRTO = cc_initialRTO (c_cfg c),
                 sc_MaxRetries = cc_maxRetries (c_cfg c), sc_InitialSSThresh = cc_initialSSThresh (c_cfg c)\<rparr>;
          s = (if c_tsEnabled c then s\<lparr>snd_mss := snd_mss s - 12\<rparr> else s);
          r = newReceiver (c_irs c) (c_readBuf c) (cc_readBufSize (c_cfg c)) (cc_maxReadBufSize (c_cfg c));
          c = set_rcv r (set_snd s c);
          c = (if c_tsEnabled c then c\<lparr>c_tsLastAckSent := rcv_nxt r,
                                       c_tsRecent := (if sg_hasTS seg then sg_tsVal seg else c_tsRecent c)\<rparr> else c)
      in resetKeepalive e c)"

definition handleSynRcvd :: "env \<Rightarrow> segment \<Rightarrow> TCPConn \<Rightarrow> TCPConn go" where
  "handleSynRcvd e seg c =
     (if Has (sg_flags seg) TCPFlagACK then
        (if sg_seq seg - (c_irs c + 1) \<ge> ucast (cc_rcvWndSize (c_cfg c)) then sendACK e c
         else if sg_ack seg \<noteq> c_iss c + 1 then do {
           c \<leftarrow> sendRSTSegment e c (sg_ack seg);
           Some (handleRST c) }
         else do {
           let c = establish e seg c;
           c \<leftarrow> (if sg_payload seg \<noteq> [] then do {
                   c \<leftarrow> handleData e c (sg_seq seg) (sg_payload seg);
                   sendACK e c }
                 else Some c);
           Some (emit OutAccept c) })
      else if Has (sg_flags seg) TCPFlagSYN then sendSYNACK e c
      else Some c)"

text \<open>\<open>handleEstablished\<close>: the processing of the acknowledgement, of the data and the FIN, and the acknowledgement of data.\<close>

definition established_sack :: "env \<Rightarrow> segment \<Rightarrow> TCPConn \<Rightarrow> TCPConn go" where
  "established_sack e seg c =
     (if c_sackPermitted c \<and> sg_options seg \<noteq> [] then do {
        so \<leftarrow> ParseSegmentOptions (sg_options seg);
        if so_SACKBlocks so \<noteq> [] then do {
          s \<leftarrow> c_snd c;
          sackLossDetection e (set_snd (processSACKBlocks (so_SACKBlocks so) (sg_ack seg) s) c) }
        else Some c }
      else Some c)"

definition established_window :: "env \<Rightarrow> TCPConn \<Rightarrow> TCPConn go" where
  "established_window e c = do {
     s \<leftarrow> c_snd c;
     if snd_wnd s > 0 \<and> c_zeroWindowProbing c then sendPending e (cancelZeroWindowProbe c)
     else do {
       n \<leftarrow> (if snd_wnd s = 0 then Len (c_writeBuf c) else Some 0);
       if snd_wnd s = 0 \<and> n > 0 \<and> \<not> c_zeroWindowProbing c then checkZeroWindow e c else Some c } }"

definition established_ack :: "env \<Rightarrow> segment \<Rightarrow> TCPConn \<Rightarrow> TCPConn go" where
  "established_ack e seg c = do {
     s \<leftarrow> c_snd c;
     let oldWnd = snd_wnd s;
     let c = measureRTTM e seg (track_max_wnd (set_wnd seg c));
     c \<leftarrow> established_sack e seg c;
     c \<leftarrow> handleACK e c (sg_ack seg);
     s \<leftarrow> c_snd c;
     c \<leftarrow> (if sg_ack seg = snd_una s \<and> seg_window c seg > oldWnd then sendPending e c else Some c);
     established_window e c }"

definition established_delack :: "env \<Rightarrow> segment \<Rightarrow> TCPConn \<Rightarrow> TCPConn go" where
  "established_delack e seg c =
     (if sg_payload seg \<noteq> [] then
        let c = c\<lparr>c_unackedSegs := c_unackedSegs c + 1\<rparr>;
            ahead = (case c_rcv c of None \<Rightarrow> False | Some r \<Rightarrow> seqGreaterThan (sg_seq seg) (rcv_nxt r))
        in if ahead \<or> c_unackedSegs c \<ge> 2 then do {
             c \<leftarrow> sendACK e (cancelDelayedACK c);
             Some (c\<lparr>c_unackedSegs := 0\<rparr>) }
           else Some (c\<lparr>c_delayedACKTimer := Some (e_now e + cc_delayedACKTimeout (c_cfg c))\<rparr>)
      else Some c)"

definition handleEstablished :: "env \<Rightarrow> segment \<Rightarrow> TCPConn \<Rightarrow> TCPConn go" where
  "handleEstablished e seg c = do {
     let c = resetKeepalive e c;
     c \<leftarrow> (if Has (sg_flags seg) TCPFlagACK \<and> c_snd c \<noteq> None then established_ack e seg c else Some c);
     c \<leftarrow> (if sg_payload seg \<noteq> [] \<and> c_rcv c \<noteq> None then handleData e c (sg_seq seg) (sg_payload seg) else Some c);
     if Has (sg_flags seg) TCPFlagFIN \<and> c_rcv c \<noteq> None then do {
       r \<leftarrow> c_rcv c;
       let finSeq = sg_seq seg + of_nat (length (sg_payload seg));
       if rcv_nxt r = finSeq then processFIN e c
       else established_delack e seg (set_rcv (r\<lparr>rcv_finReceived := True, rcv_finSeq := finSeq\<rparr>) c) }
     else established_delack e seg c }"

text \<open>The FIN of the peer outside of \<open>ESTABLISHED\<close>: it takes one sequence number and is acknowledged at once.\<close>

definition take_fin :: "env \<Rightarrow> TCPConn \<Rightarrow> TCPConn go" where
  "take_fin e c = do { r \<leftarrow> c_rcv c; sendACK e (set_rcv (r\<lparr>rcv_nxt := rcv_nxt r + 1\<rparr>) c) }"

definition handleFinWait1 :: "env \<Rightarrow> segment \<Rightarrow> TCPConn \<Rightarrow> TCPConn go" where
  "handleFinWait1 e seg c = do {
     (c, ackOfFIN) \<leftarrow> (if Has (sg_flags seg) TCPFlagACK \<and> c_snd c \<noteq> None then do {
         c \<leftarrow> handleACK e (measureRTTM e seg (set_wnd seg c)) (sg_ack seg);
         s \<leftarrow> c_snd c;
         Some (c, \<not> hasUnacked s) }
       else Some (c, False));
     c \<leftarrow> (if sg_payload seg \<noteq> [] \<and> c_rcv c \<noteq> None then handleData e c (sg_seq seg) (sg_payload seg) else Some c);
     if Has (sg_flags seg) TCPFlagFIN \<and> c_rcv c \<noteq> None then do {
       c \<leftarrow> take_fin e c;
       let c = (if \<not> c_readShutdown c then c\<lparr>c_readBuf := CloseWrite (c_readBuf c)\<rparr> else c);
       Some (if ackOfFIN then enterTimeWait e c else c\<lparr>c_state := stateClosing\<rparr>) }
     else do {
       c \<leftarrow> (if sg_payload seg \<noteq> [] then sendACK e c else Some c);
       Some (if ackOfFIN then c\<lparr>c_state := stateFinWait2, c_finWait2Timer := Some (e_now e + cc_finWait2Timeout (c_cfg c))\<rparr>
             else c) } }"

definition handleFinWait2 :: "env \<Rightarrow> segment \<Rightarrow> TCPConn \<Rightarrow> TCPConn go" where
  "handleFinWait2 e seg c = do {
     let c = (if Has (sg_flags seg) TCPFlagACK then set_wnd seg c else c);
     c \<leftarrow> (if sg_payload seg \<noteq> [] \<and> c_rcv c \<noteq> None then do {
             c \<leftarrow> handleData e c (sg_seq seg) (sg_payload seg);
             Some (c\<lparr>c_finWait2Timer := Some (e_now e + cc_finWait2Timeout (c_cfg c))\<rparr>) }
           else Some c);
     if Has (sg_flags seg) TCPFlagFIN \<and> c_rcv c \<noteq> None then do {
       c \<leftarrow> take_fin e c;
       Some (enterTimeWait e c) }
     else if sg_payload seg \<noteq> [] then sendACK e c else Some c }"

definition handleCloseWait :: "env \<Rightarrow> segment \<Rightarrow> TCPConn \<Rightarrow> TCPConn go" where
  "handleCloseWait e seg c =
     (if Has (sg_flags seg) TCPFlagACK \<and> c_snd c \<noteq> None
      then handleACK e (measureRTTM e seg (track_max_wnd (set_wnd seg c))) (sg_ack seg) else Some c)"

definition handleClosing :: "env \<Rightarrow> segment \<Rightarrow> TCPConn \<Rightarrow> TCPConn go" where
  "handleClosing e seg c = do {
     (c, acked) \<leftarrow> (if Has (sg_flags seg) TCPFlagACK \<and> c_snd c \<noteq> None then do {
         c \<leftarrow> handleACK e (measureRTTM e seg c) (sg_ack seg);
         s \<leftarrow> c_snd c;
         Some (c, \<not> hasUnacked s) }
       else Some (c, False));
     if acked then Some (enterTimeWait e c)
     else if Has (sg_flags seg) TCPFlagFIN then sendACK e c else Some c }"

definition handleLastAck :: "env \<Rightarrow> segment \<Rightarrow> TCPConn \<Rightarrow> TCPConn go" where
  "handleLastAck e seg c =
     (case c_snd c of
        None \<Rightarrow> Some c
      | Some s \<Rightarrow>
          if Has (sg_flags seg) TCPFlagACK \<and> (\<not> hasUnacked s \<or> seqGreaterThan (sg_ack seg) (snd_una s)) then do {
            c \<leftarrow> handleACK e c (sg_ack seg);
            Some (closeDone c) }
          else Some c)"

definition handleTimeWait :: "env \<Rightarrow> segment \<Rightarrow> TCPConn \<Rightarrow> TCPConn go" where
  "handleTimeWait e seg c =
     (if Has (sg_flags seg) TCPFlagFIN then do {
        c \<leftarrow> sendACK e c;
        Some (c\<lparr>c_timeWaitTimer := Some (e_now e + cc_timeWaitDuration (c_cfg c))\<rparr>) }
      else Some c)"

section \<open>The common pipeline\<close>

definition read_timestamp :: "TCPConn \<Rightarrow> segment \<Rightarrow> segment go" where
  "read_timestamp c seg =
     (if c_tsEnabled c \<and> sg_options seg \<noteq> [] then do {
        so \<leftarrow> ParseSegmentOptions (sg_options seg);
        Some (if so_TSEnabled so then seg\<lparr>sg_hasTS := True, sg_tsVal := so_TSVal so, sg_tsEcr := so_TSecr so\<rparr> else seg) }
      else Some seg)"

definition paws_drop :: "TCPConn \<Rightarrow> segment \<Rightarrow> bool" where
  "paws_drop c seg \<longleftrightarrow> c_tsEnabled c \<and> sg_hasTS seg \<and> \<not> Has (sg_flags seg) TCPFlagRST \<and>
     sint (sg_tsVal seg - c_tsRecent c) < 0"

text \<open>The next expected sequence number and the window a RST is checked against.\<close>

definition rst_window :: "TCPConn \<Rightarrow> (u32 \<times> u32) go" where
  "rst_window c =
     (case c_rcv c of
        Some r \<Rightarrow> do { w \<leftarrow> rcvWnd c; Some (rcv_nxt r, w) }
      | None \<Rightarrow> Some (c_irs c + 1, ucast (cc_rcvWndSize (c_cfg c))))"

definition handle_reset :: "env \<Rightarrow> segment \<Rightarrow> TCPConn \<Rightarrow> TCPConn go" where
  "handle_reset e seg c =
     (if c_state c = stateTimeWait then Some c
      else do {
        (rcvNxt, wnd) \<leftarrow> rst_window c;
        if sg_seq seg = rcvNxt then Some (handleRST c)
        else if seqWithinWindow (sg_seq seg) rcvNxt wnd then sendACK e c
        else Some c })"

definition handle_state :: "env \<Rightarrow> segment \<Rightarrow> TCPConn \<Rightarrow> TCPConn go" where
  "handle_state e seg c =
     (case c_state c of
        stateSynRcvd \<Rightarrow> handleSynRcvd e seg c
      | stateEstablished \<Rightarrow> handleEstablished e seg c
      | stateFinWait1 \<Rightarrow> handleFinWait1 e seg c
      | stateFinWait2 \<Rightarrow> handleFinWait2 e seg c
      | stateCloseWait \<Rightarrow> handleCloseWait e seg c
      | stateClosing \<Rightarrow> handleClosing e seg c
      | stateLastAck \<Rightarrow> handleLastAck e seg c
      | stateTimeWait \<Rightarrow> handleTimeWait e seg c
      | stateClosed \<Rightarrow> Some c)"

definition update_tsRecent :: "segment \<Rightarrow> TCPConn \<Rightarrow> TCPConn" where
  "update_tsRecent seg c =
     (if c_tsEnabled c \<and> sg_hasTS seg \<and> c_rcv c \<noteq> None \<and> \<not> seqGreaterThan (sg_seq seg) (c_tsLastAckSent c)
      then c\<lparr>c_tsRecent := sg_tsVal seg\<rparr> else c)"

definition handle_parsed :: "env \<Rightarrow> segment \<Rightarrow> TCPConn \<Rightarrow> TCPConn go" where
  "handle_parsed e seg c = do {
     seg \<leftarrow> read_timestamp c seg;
     if paws_drop c seg then Some (tcp_count (\<lambda>st. st\<lparr>ts_PAWSDrops := ts_PAWSDrops st + 1\<rparr>) c)
     else if Has (sg_flags seg) TCPFlagRST then handle_reset e seg c
     else if Has (sg_flags seg) TCPFlagSYN \<and> c_state c \<noteq> stateSynRcvd then sendACK e c
     else handle_state e seg (update_tsRecent seg c) }"

definition handleSegment :: "env \<Rightarrow> PacketBuffer \<Rightarrow> TCPConn \<Rightarrow> TCPConn go" where
  "handleSegment e pb c = do { seg \<leftarrow> parseSeg pb; handle_parsed e seg c }"

section \<open>The run loop\<close>

text \<open>\<open>run\<close> up to the loop: only the timer of \<open>SYN_RCVD\<close> is armed.\<close>

definition run_init :: "env \<Rightarrow> TCPConn \<Rightarrow> TCPConn go" where
  "run_init e c = updateSnapshot (c\<lparr>c_rtoTimer := None, c_timeWaitTimer := None, c_delayedACKTimer := None,
     c_zeroWindowTimer := None, c_finWait2Timer := None, c_keepaliveTimer := None,
     c_synRcvdTimer := (if c_state c = stateSynRcvd then Some (e_now e + cc_synRcvdTimeout (c_cfg c)) else None)\<rparr>)"

datatype run_event = EvInbound | EvRTO | EvDelayedACK | EvZeroWindow | EvKeepalive | EvWrite | EvWindow | EvClose
  | EvForceClose | EvSynRcvd | EvFinWait2 | EvTimeWait | EvDone

definition expired :: "env \<Rightarrow> int option \<Rightarrow> bool" where
  "expired e timer \<longleftrightarrow> (case timer of None \<Rightarrow> False | Some t \<Rightarrow> t \<le> e_now e)"

fun run_ready :: "env \<Rightarrow> TCPConn \<Rightarrow> run_event \<Rightarrow> bool" where
  "run_ready e c EvInbound = (c_inbound c \<noteq> [])"
| "run_ready e c EvRTO = expired e (c_rtoTimer c)"
| "run_ready e c EvDelayedACK = expired e (c_delayedACKTimer c)"
| "run_ready e c EvZeroWindow = expired e (c_zeroWindowTimer c)"
| "run_ready e c EvKeepalive = expired e (c_keepaliveTimer c)"
| "run_ready e c EvWrite = c_writeNotify c"
| "run_ready e c EvWindow = c_windowNotify c"
| "run_ready e c EvClose = c_closeCh c"
| "run_ready e c EvForceClose = c_forceCloseCh c"
| "run_ready e c EvSynRcvd = expired e (c_synRcvdTimer c)"
| "run_ready e c EvFinWait2 = expired e (c_finWait2Timer c)"
| "run_ready e c EvTimeWait = expired e (c_timeWaitTimer c)"
| "run_ready e c EvDone = c_done c"

text \<open>\<open>rtoTimer\<close> is armed again when there is something to retransmit, and otherwise stopped or left alone.\<close>

definition arm_rto :: "env \<Rightarrow> TCPConn \<Rightarrow> TCPConn" where
  "arm_rto e c = (case c_snd c of None \<Rightarrow> c
     | Some s \<Rightarrow> if hasUnacked s then c\<lparr>c_rtoTimer := Some (e_now e + snd_rto s)\<rparr> else c)"

definition stop_or_arm_rto :: "env \<Rightarrow> TCPConn \<Rightarrow> TCPConn" where
  "stop_or_arm_rto e c = (case c_snd c of None \<Rightarrow> c
     | Some s \<Rightarrow> c\<lparr>c_rtoTimer := (if hasUnacked s then Some (e_now e + snd_rto s) else None)\<rparr>)"

definition on_inbound :: "env \<Rightarrow> TCPConn \<Rightarrow> TCPConn go" where
  "on_inbound e c = do {
     let pb = hd (c_inbound c);
     c \<leftarrow> handleSegment e pb (c\<lparr>c_inbound := tl (c_inbound c)\<rparr>);
     c \<leftarrow> updateSnapshot c;
     let c = stop_or_arm_rto e c;
     if c_finPending c \<and> c_snd c \<noteq> None then do {
       c \<leftarrow> sendPending e c;
       n \<leftarrow> Len (c_writeBuf c);
       if n = 0 then finalizeFIN e c else Some c }
     else Some c }"

definition on_rto :: "env \<Rightarrow> TCPConn \<Rightarrow> TCPConn go" where
  "on_rto e c =
     (let c = c\<lparr>c_rtoTimer := None\<rparr> in
      if c_snd c = None then Some c
      else do {
        c \<leftarrow> handleRTO e c;
        c \<leftarrow> updateSnapshot c;
        Some (if c_state c \<noteq> stateClosed then arm_rto e c else c) })"

definition on_zero_window :: "env \<Rightarrow> TCPConn \<Rightarrow> TCPConn go" where
  "on_zero_window e c =
     (let c = c\<lparr>c_zeroWindowTimer := None\<rparr> in
      if c_snd c \<noteq> None \<and> c_zeroWindowProbing c then do {
        c \<leftarrow> sendZeroWindowProbe e c;
        let interval = min (c_probeInterval c * 2) (cc_maxZWPInterval (c_cfg c));
        Some (c\<lparr>c_probeInterval := interval, c_zeroWindowTimer := Some (e_now e + interval)\<rparr>) }
      else Some c)"

text \<open>The second component is \<open>False\<close> when the connection is given up and \<open>run\<close> returns.\<close>

definition on_keepalive :: "env \<Rightarrow> TCPConn \<Rightarrow> (TCPConn \<times> bool) go" where
  "on_keepalive e c =
     (let c = c\<lparr>c_keepaliveTimer := None\<rparr> in
      case c_snd c of
        None \<Rightarrow> Some (c, True)
      | Some s \<Rightarrow>
          if c_state c \<noteq> stateEstablished then Some (c, True)
          else if hasUnacked s then Some (c\<lparr>c_keepaliveTimer := Some (e_now e + cc_keepaliveIdle (c_cfg c))\<rparr>, True)
          else
            let c = c\<lparr>c_keepaliveProbes := c_keepaliveProbes c + 1\<rparr> in
            if c_keepaliveProbes c > cc_keepaliveCount (c_cfg c) then do {
              let c = tcp_count (\<lambda>st. st\<lparr>ts_TimeoutKeepalive := ts_TimeoutKeepalive st + 1, ts_TotalReset := ts_TotalReset st + 1\<rparr>) c;
              c \<leftarrow> sendRSTSegment e c (snd_nxt s);
              c \<leftarrow> updateSnapshot (closeDone c);
              Some (c, False) }
            else do {
              c \<leftarrow> sendKeepaliveProbe e c;
              Some (c\<lparr>c_keepaliveTimer := Some (e_now e + cc_keepaliveInterval (c_cfg c))\<rparr>, True) })"

definition on_write :: "env \<Rightarrow> TCPConn \<Rightarrow> TCPConn go" where
  "on_write e c =
     (let c = c\<lparr>c_writeNotify := False\<rparr> in
      if c_snd c = None then Some c
      else do {
        c \<leftarrow> sendPending e c;
        c \<leftarrow> updateSnapshot c;
        c \<leftarrow> checkZeroWindow e (resetKeepalive e c);
        let c = (if c_unackedSegs c > 0 then c\<lparr>c_delayedACKTimer := None, c_unackedSegs := 0\<rparr> else c);
        let c = arm_rto e c;
        n \<leftarrow> (if c_finPending c then Len (c_writeBuf c) else Some 1);
        if c_finPending c \<and> n = 0 then finalizeFIN e c else Some c })"

definition on_window :: "env \<Rightarrow> TCPConn \<Rightarrow> TCPConn go" where
  "on_window e c =
     (let c = c\<lparr>c_windowNotify := False\<rparr> in
      if c_lastWndZero c \<and> c_rcv c \<noteq> None then do {
        wnd \<leftarrow> rcv_wnd c;
        if wnd > 0 then do {
          c \<leftarrow> sendACK e (c\<lparr>c_lastWndZero := False\<rparr>);
          Some (c\<lparr>c_unackedSegs := 0\<rparr>) }
        else Some c }
      else Some c)"

definition on_close :: "env \<Rightarrow> TCPConn \<Rightarrow> TCPConn go" where
  "on_close e c = do {
     c \<leftarrow> handleClose e (c\<lparr>c_closeCh := False\<rparr>);
     c \<leftarrow> updateSnapshot c;
     Some (arm_rto e c) }"

text \<open>A timer that ends the connection if it is still in state \<open>st\<close>.\<close>

definition on_timeout :: "tcpState \<Rightarrow> (TCPStats \<Rightarrow> TCPStats) \<Rightarrow> TCPConn \<Rightarrow> (TCPConn \<times> bool) go" where
  "on_timeout st f c =
     (if c_state c = st then do { c \<leftarrow> updateSnapshot (closeDone (tcp_count f c)); Some (c, False) }
      else Some (c, True))"

fun run_round :: "env \<Rightarrow> run_event \<Rightarrow> TCPConn \<Rightarrow> (TCPConn \<times> bool) go" where
  "run_round e EvInbound c = do { c \<leftarrow> on_inbound e c; Some (c, True) }"
| "run_round e EvRTO c = do { c \<leftarrow> on_rto e c; Some (c, True) }"
| "run_round e EvDelayedACK c = do { c \<leftarrow> sendACK e (c\<lparr>c_delayedACKTimer := None\<rparr>); Some (c\<lparr>c_unackedSegs := 0\<rparr>, True) }"
| "run_round e EvZeroWindow c = do { c \<leftarrow> on_zero_window e c; Some (c, True) }"
| "run_round e EvKeepalive c = on_keepalive e c"
| "run_round e EvWrite c = do { c \<leftarrow> on_write e c; Some (c, True) }"
| "run_round e EvWindow c = do { c \<leftarrow> on_window e c; Some (c, True) }"
| "run_round e EvClose c = do { c \<leftarrow> on_close e c; Some (c, True) }"
| "run_round e EvForceClose c = do { c \<leftarrow> forceCloseFromRun e c; c \<leftarrow> updateSnapshot c; Some (c, False) }"
| "run_round e EvSynRcvd c = on_timeout stateSynRcvd (\<lambda>st. st\<lparr>ts_TimeoutSynRcvd := ts_TimeoutSynRcvd st + 1\<rparr>) (c\<lparr>c_synRcvdTimer := None\<rparr>)"
| "run_round e EvFinWait2 c = on_timeout stateFinWait2 (\<lambda>st. st\<lparr>ts_TimeoutFinWait2 := ts_TimeoutFinWait2 st + 1\<rparr>) (c\<lparr>c_finWait2Timer := None\<rparr>)"
| "run_round e EvTimeWait c = Some (c\<lparr>c_timeWaitTimer := None\<rparr>, False)"
| "run_round e EvDone c = Some (c, False)"

text \<open>
  The deferred calls when \<open>run\<close> returns: all timers are stopped, \<open>closeDone\<close>, and \<open>cleanup\<close>, whose call of
  \<open>removeConn\<close> belongs to the handler.
\<close>

definition run_exit :: "TCPConn \<Rightarrow> TCPConn" where
  "run_exit c =
     (let c = closeDone (c\<lparr>c_rtoTimer := None, c_timeWaitTimer := None, c_delayedACKTimer := None, c_zeroWindowTimer := None,
                c_finWait2Timer := None, c_keepaliveTimer := None, c_synRcvdTimer := None\<rparr>);
          active = c_statsActive c;
          c = tcp_count (\<lambda>st. st\<lparr>ts_TotalClosed := ts_TotalClosed st + 1,
                                 ts_ActiveConns := (if active then ts_ActiveConns st - 1 else ts_ActiveConns st)\<rparr>) c
      in c\<lparr>c_inbound := []\<rparr>)"

section \<open>The application's side\<close>

text \<open>
  \<open>Read\<close> and \<open>Write\<close> run in goroutines of the application. One round under the lock of the ring buffer is one
  step; the signal to \<open>run\<close> is sent when the call is over.
\<close>

definition conn_Read_round :: "TCPConn \<Rightarrow> nat \<Rightarrow> (TCPConn \<times> read_round) go" where
  "conn_Read_round c plen = do {
     rr \<leftarrow> Read_round (c_readBuf c) plen;
     Some (case rr of
             Read_data rb d \<Rightarrow> (if d \<noteq> [] then c\<lparr>c_readBuf := rb, c_windowNotify := True\<rparr> else c\<lparr>c_readBuf := rb\<rparr>, rr)
           | _ \<Rightarrow> (c, rr)) }"

text \<open>\<open>None\<close>: the connection refuses the write; otherwise the connection with its write buffer grown to its target size.\<close>

definition conn_Write_start :: "TCPConn \<Rightarrow> TCPConn option go" where
  "conn_Write_start c =
     (if c_writeShutdown c then Some None
      else do {
        wb \<leftarrow> (if cc_writeBufSize (c_cfg c) > 0 \<and> Cap (c_writeBuf c) < cc_writeBufSize (c_cfg c)
               then Grow (c_writeBuf c) (cc_writeBufSize (c_cfg c)) else Some (c_writeBuf c));
        Some (Some (c\<lparr>c_writeBuf := wb\<rparr>)) })"

definition conn_Write_round :: "TCPConn \<Rightarrow> bytes \<Rightarrow> nat \<Rightarrow> (TCPConn \<times> write_round) go" where
  "conn_Write_round c p written = do {
     wr \<leftarrow> Write_round (c_writeBuf c) p written;
     Some (case wr of
             Write_more wb n \<Rightarrow> (c\<lparr>c_writeBuf := wb\<rparr>, wr)
           | Write_done n \<Rightarrow> (if n > 0 then c\<lparr>c_writeNotify := True\<rparr> else c, wr)
           | Write_closed n \<Rightarrow> (if n > 0 then c\<lparr>c_writeNotify := True\<rparr> else c, wr)
           | Write_wait n ch \<Rightarrow> (c, wr)) }"

text \<open>A \<open>Write\<close> that waits for space returns when the connection is gone, with the \<open>n\<close> bytes it has written.\<close>

definition conn_Write_aborted :: "TCPConn \<Rightarrow> nat \<Rightarrow> TCPConn option" where
  "conn_Write_aborted c n = (if c_done c then Some (if n > 0 then c\<lparr>c_writeNotify := True\<rparr> else c) else None)"

definition conn_CloseWrite :: "TCPConn \<Rightarrow> TCPConn" where
  "conn_CloseWrite c =
     (if c_closeOnce c then c
      else c\<lparr>c_closeOnce := True, c_writeShutdown := True, c_writeBuf := CloseWrite (c_writeBuf c), c_closeCh := True\<rparr>)"

definition conn_CloseRead :: "TCPConn \<Rightarrow> TCPConn" where
  "conn_CloseRead c =
     (if c_closeReadOnce c then c
      else c\<lparr>c_closeReadOnce := True, c_readShutdown := True, c_readBuf := CloseWrite (c_readBuf c)\<rparr>)"

definition conn_Close :: "TCPConn \<Rightarrow> TCPConn" where
  "conn_Close c = conn_CloseWrite c"

text \<open>\<open>ForceClose\<close> up to the point where it waits for \<open>done\<close>.\<close>

definition conn_ForceClose :: "TCPConn \<Rightarrow> TCPConn" where
  "conn_ForceClose c = c\<lparr>c_forceCloseCh := True\<rparr>"

section \<open>Window scale\<close>

text \<open>The loop \<open>for (bufSize >> (16 + scale)) > 0\<close>.\<close>

function scale_loop :: "nat \<Rightarrow> nat \<Rightarrow> nat" where
  "scale_loop bufSize scale = (if bufSize div 2 ^ (16 + scale) > 0 then scale_loop bufSize (scale + 1) else scale)"
  by pat_completeness auto
termination
proof (relation "measure (\<lambda>(bufSize, scale). bufSize - scale)")
  fix bufSize scale :: nat
  assume "0 < bufSize div 2 ^ (16 + scale)"
  then have "2 ^ (16 + scale) \<le> bufSize"
    by (metis div_less less_not_refl2 linorder_not_less)
  moreover have "scale < 2 ^ (16 + scale)"
    using less_exp [of "16 + scale"] by linarith
  ultimately show "((bufSize, scale + 1), bufSize, scale) \<in> measure (\<lambda>(bufSize, scale). bufSize - scale)"
    by simp
qed simp

declare scale_loop.simps [simp del]

definition calculateWindowScale :: "nat \<Rightarrow> u8" where
  "calculateWindowScale bufSize =
     (if bufSize \<le> 0xFFFF then 0
      else let scale = scale_loop bufSize 0 in of_nat (if scale > MaxWndScale then MaxWndScale else scale))"

end
