(* ===== verification/TcpHandler.thy ===== *)
theory TcpHandler
  imports TcpConn StackProps "HOL-Library.AList"
begin

text \<open>
  The TCP handler and its listener: \<open>src/transport/tcp/handler.go\<close>, \<open>listener.go\<close> and the snapshot functions of
  \<open>stats.go\<close>.

  Connections are shared between the handler, the accept queue and the application, so they live in a store,
  \<open>th_heap\<close>, and a reference to one is its index there. \<open>th_resets\<close> are the packets the handler itself sent,
  with their addresses; those of a connection are in its \<open>c_out\<close>. Random numbers and the time are arguments.
\<close>

section \<open>State\<close>

record TCPHandler =
  th_conns :: "(FlowID \<times> nat) list"
  th_heap :: "TCPConn list"
  th_acceptCh :: "nat list"
  th_acceptCap :: nat
  th_listenerDone :: bool
  th_cfg :: Config
  th_closed :: bool
  th_tsOffset :: u32
  th_tsEpoch :: int
  th_gso :: bool
  th_gsoMaxSize :: int
  th_stats :: "TCPStats option"
  th_resets :: "(PacketBuffer \<times> Address \<times> Address) list"

definition NewTCPHandler :: "(Config \<Rightarrow> Config) list \<Rightarrow> u32 \<Rightarrow> int \<Rightarrow> int option \<Rightarrow> TCPHandler" where
  "NewTCPHandler opts isn now gsoMax =
     (let cfg = fold (\<lambda>opt cfg. opt cfg) opts defaultConfig;
          cfg = (if cfg_InitialReadBufferSize cfg > cfg_ReadBufferSize cfg
                 then cfg\<lparr>cfg_InitialReadBufferSize := cfg_ReadBufferSize cfg\<rparr> else cfg);
          cfg = (if cfg_InitialWriteBufferSize cfg > cfg_WriteBufferSize cfg
                 then cfg\<lparr>cfg_InitialWriteBufferSize := cfg_WriteBufferSize cfg\<rparr> else cfg)
      in \<lparr>th_conns = [], th_heap = [], th_acceptCh = [], th_acceptCap = cfg_AcceptQueueSize cfg, th_listenerDone = False,
          th_cfg = cfg, th_closed = False, th_tsOffset = isn, th_tsEpoch = now, th_gso = (gsoMax \<noteq> None),
          th_gsoMaxSize = (case gsoMax of None \<Rightarrow> 0 | Some n \<Rightarrow> n), th_stats = None, th_resets = []\<rparr>)"

definition EnableTCPStats :: "TCPHandler \<Rightarrow> TCPHandler" where
  "EnableTCPStats h = h\<lparr>th_stats := Some zero_stats\<rparr>"

definition th_count :: "(TCPStats \<Rightarrow> TCPStats) \<Rightarrow> TCPHandler \<Rightarrow> TCPHandler" where
  "th_count f h = h\<lparr>th_stats := map_option f (th_stats h)\<rparr>"

section \<open>New connections\<close>

definition new_conn :: "Config \<Rightarrow> FlowID \<Rightarrow> u32 \<Rightarrow> u32 \<Rightarrow> u32 \<Rightarrow> SynOptions \<Rightarrow> bool \<Rightarrow> TCPConn" where
  "new_conn cfg flow irs iss tsOffset synOpts withStats =
     \<lparr>c_flow = flow, c_state = stateSynRcvd, c_iss = iss, c_irs = irs,
      c_sndWndScale = (if syn_WS synOpts \<ge> 0 then word_of_int (syn_WS synOpts) else 0),
      c_rcvWndScale = (if syn_WS synOpts \<ge> 0
        then calculateWindowScale (if cfg_MaxReadBufferSize cfg > cfg_ReadBufferSize cfg then cfg_MaxReadBufferSize cfg
                                   else cfg_ReadBufferSize cfg) else 0),
      c_sackPermitted = syn_SACKPermit synOpts, c_peerMSS = syn_MSS synOpts, c_tsEnabled = syn_TSEnabled synOpts,
      c_tsRecent = (if syn_TSEnabled synOpts then syn_TSVal synOpts else 0), c_tsLastAckSent = 0,
      c_tsOffset = (if syn_TSEnabled synOpts then tsOffset else 0), c_noDelay = False,
      c_delayedACKTimer = None, c_unackedSegs = 0, c_zeroWindowTimer = None, c_zeroWindowProbing = False, c_probeInterval = 0,
      c_keepaliveTimer = None, c_keepaliveProbes = 0, c_writeShutdown = False, c_readShutdown = False, c_finPending = False,
      c_snd = None, c_rcv = None, c_readBuf = newRingBuffer (cfg_InitialReadBufferSize cfg),
      c_writeBuf = newRingBuffer (cfg_InitialWriteBufferSize cfg), c_writeNotify = False, c_windowNotify = False,
      c_lastWndZero = False, c_inbound = [], c_inboundCap = cfg_InboundQueueSize cfg, c_done = False, c_closeOnce = False,
      c_closeReadOnce = False, c_closeCh = False, c_forceCloseCh = False, c_timeWaitTimer = None, c_finWait2Timer = None,
      c_synRcvdTimer = None, c_rtoTimer = None, c_stats = (if withStats then Some zero_stats else None),
      c_statsActive = False, c_snapshotData = None,
      c_cfg = \<lparr>cc_keepaliveIdle = cfg_KeepaliveIdle cfg, cc_keepaliveInterval = cfg_KeepaliveInterval cfg,
        cc_keepaliveCount = cfg_KeepaliveCount cfg, cc_finWait2Timeout = cfg_FinWait2Timeout cfg,
        cc_synRcvdTimeout = cfg_SynRcvdTimeout cfg, cc_timeWaitDuration = cfg_TimeWaitDuration cfg,
        cc_delayedACKTimeout = cfg_DelayedACKTimeout cfg, cc_maxZWPInterval = cfg_MaxZeroWindowProbeInterval cfg,
        cc_rcvWndSize = cfg_ReceiveWindowSize cfg, cc_minRTO = cfg_MinRTO cfg, cc_maxRTO = cfg_MaxRTO cfg,
        cc_initialRTO = cfg_InitialRTO cfg, cc_maxRetries = cfg_MaxRetries cfg, cc_initialSSThresh = cfg_InitialSSThresh cfg,
        cc_maxReadBufSize = cfg_MaxReadBufferSize cfg, cc_readBufSize = cfg_ReadBufferSize cfg,
        cc_writeBufSize = cfg_WriteBufferSize cfg\<rparr>,
      c_out = []\<rparr>"

definition handleSYN :: "env \<Rightarrow> u32 \<Rightarrow> TCPHandler \<Rightarrow> bytes \<Rightarrow> FlowID \<Rightarrow> TCPHandler go" where
  "handleSYN e iss h tcpHdr flow = do {
     irs \<leftarrow> TCP_SequenceNumber tcpHdr;
     opts \<leftarrow> TCP_Options tcpHdr;
     synOpts \<leftarrow> ParseSynOptions opts;
     c \<leftarrow> updateSnapshot (new_conn (th_cfg h) flow irs iss (th_tsOffset h) synOpts (th_stats h \<noteq> None));
     if th_closed h then Some h
     else do {
       c \<leftarrow> run_init e c;
       c \<leftarrow> sendSYNACK e c;
       Some (h\<lparr>th_conns := AList.update flow (length (th_heap h)) (th_conns h), th_heap := th_heap h @ [c]\<rparr>) } }"

section \<open>Incoming packets\<close>

abbreviation segment_in :: "TCPHandler \<Rightarrow> TCPHandler" where
  "segment_in \<equiv> th_count (\<lambda>st. st\<lparr>ts_SegmentsIn := ts_SegmentsIn st + 1\<rparr>)"

text \<open>The checksum test of \<open>HandlePacket\<close>.\<close>

definition checksum_ok :: "bytes \<Rightarrow> bytes \<Rightarrow> bool go" where
  "checksum_ok ipHdr tcpHdr = do {
     total \<leftarrow> IPv4_TotalLength ipHdr;
     hl \<leftarrow> IPv4_HeaderLength ipHdr;
     let tcpLen = min (total - of_nat hl) (of_nat (length tcpHdr));
     src \<leftarrow> IPv4_SourceAddress ipHdr;
     dst \<leftarrow> IPv4_DestinationAddress ipHdr;
     partial \<leftarrow> PseudoHeaderChecksum TCPProtocolNumber src dst tcpLen;
     b \<leftarrow> subslice tcpHdr 0 (unat tcpLen);
     Some (Checksum b partial = 0) }"

text \<open>The part of \<open>HandlePacket\<close> after a segment passed the checksum test.\<close>

definition HandlePacket_checked :: "env \<Rightarrow> u32 \<Rightarrow> TCPHandler \<Rightarrow> PacketBuffer \<Rightarrow> bytes \<Rightarrow> bytes \<Rightarrow> TCPHandler go" where
  "HandlePacket_checked e isn h pb ipHdr tcpHdr = do {
     sa \<leftarrow> IPv4_SourceAddress ipHdr;
     da \<leftarrow> IPv4_DestinationAddress ipHdr;
     sp \<leftarrow> TCP_SourcePort tcpHdr;
     dp \<leftarrow> TCP_DestinationPort tcpHdr;
     let flow = \<lparr>fl_SrcAddr = sa, fl_DstAddr = da, fl_SrcPort = sp, fl_DstPort = dp\<rparr>;
     flags \<leftarrow> TCP_Flags tcpHdr;
     if th_closed h then Some h
     else (case map_of (th_conns h) flow of
       Some i \<Rightarrow>
         let h = segment_in h; c = th_heap h ! i in
         Some (if length (c_inbound c) < c_inboundCap c
               then h\<lparr>th_heap := (th_heap h)[i := c\<lparr>c_inbound := c_inbound c @ [pb]\<rparr>]\<rparr>
               else th_count (\<lambda>st. st\<lparr>ts_DroppedInbound := ts_DroppedInbound st + 1\<rparr>) h)
     | None \<Rightarrow>
         if Has flags TCPFlagSYN \<and> \<not> Has flags TCPFlagACK then handleSYN e isn (segment_in h) tcpHdr flow
         else if Has flags TCPFlagRST
         then Some (th_count (\<lambda>st. st\<lparr>ts_ResetsReceived := ts_ResetsReceived st + 1\<rparr>) h)
         else do {
           rst \<leftarrow> reset_packet (e_packets e (length (th_resets h))) pb;
           let h = th_count (\<lambda>st. st\<lparr>ts_ResetsSent := ts_ResetsSent st + 1, ts_SegmentsOut := ts_SegmentsOut st + 1\<rparr>) h;
           Some (h\<lparr>th_resets := th_resets h @ [rst]\<rparr>) }) }"

definition TCP_HandlePacket :: "env \<Rightarrow> u32 \<Rightarrow> TCPHandler \<Rightarrow> PacketBuffer \<Rightarrow> TCPHandler go" where
  "TCP_HandlePacket e isn h pb = do {
     tcpHdr \<leftarrow> pb_bytes pb;
     if length tcpHdr < TCPMinHeaderSize then Some h
     else do {
       nh \<leftarrow> pb_NetworkHeader pb;
       ipHdr \<leftarrow> view_bytes pb nh;
       ok \<leftarrow> checksum_ok ipHdr tcpHdr;
       if \<not> ok then Some (th_count (\<lambda>st. st\<lparr>ts_ChecksumErrors := ts_ChecksumErrors st + 1\<rparr>) h)
       else HandlePacket_checked e isn h pb ipHdr tcpHdr } }"

section \<open>Connections in the store\<close>

definition removeConn :: "FlowID \<Rightarrow> TCPHandler \<Rightarrow> TCPHandler" where
  "removeConn flow h = h\<lparr>th_conns := AList.delete flow (th_conns h)\<rparr>"

text \<open>
  One round of the \<open>run\<close> loop of the connection \<open>i\<close>. A connection that wants to enter the accept queue has to wait
  while the queue is full; \<open>Blocks\<close> is that wait.
\<close>

definition run_conn :: "env \<Rightarrow> nat \<Rightarrow> run_event \<Rightarrow> TCPHandler \<Rightarrow> TCPHandler blocking go" where
  "run_conn e i ev h = do {
     (c, more) \<leftarrow> run_round e ev (th_heap h ! i);
     let accepts = length (filter (\<lambda>x. x = OutAccept) (c_out c));
     let c = c\<lparr>c_out := filter (\<lambda>x. x \<noteq> OutAccept) (c_out c)\<rparr>;
     if length (th_acceptCh h) + accepts > th_acceptCap h then Some Blocks
     else do {
       let h = h\<lparr>th_acceptCh := th_acceptCh h @ replicate accepts i\<rparr>;
       Some (Returns (if more then h\<lparr>th_heap := (th_heap h)[i := c]\<rparr>
             else removeConn (c_flow c) (h\<lparr>th_heap := (th_heap h)[i := run_exit c]\<rparr>))) } }"

datatype accept_error = net_ErrClosed

definition Accept :: "bool \<Rightarrow> TCPHandler \<Rightarrow> ((accept_error + nat) \<times> TCPHandler) blocking" where
  "Accept pick h =
     (case select2 pick (th_acceptCh h \<noteq> []) (th_listenerDone h) of
        None \<Rightarrow> Blocks
      | Some True \<Rightarrow> Returns (Inr (hd (th_acceptCh h)), h\<lparr>th_acceptCh := tl (th_acceptCh h)\<rparr>)
      | Some False \<Rightarrow> Returns (Inl net_ErrClosed, h))"

definition Listener_Close :: "TCPHandler \<Rightarrow> TCPHandler" where
  "Listener_Close h = (if th_listenerDone h then h else h\<lparr>th_listenerDone := True\<rparr>)"

text \<open>\<open>Close\<close> up to the point where it waits for the connections.\<close>

definition TCPHandler_Close :: "TCPHandler \<Rightarrow> TCPHandler" where
  "TCPHandler_Close h =
     (let h = (Listener_Close h)\<lparr>th_closed := True\<rparr>
      in h\<lparr>th_heap := fold (\<lambda>(flow, i) heap. heap[i := conn_ForceClose (heap ! i)]) (th_conns h) (th_heap h)\<rparr>)"

definition ConnSnapshots :: "TCPHandler \<Rightarrow> ConnSnapshot option list" where
  "ConnSnapshots h = map (\<lambda>(flow, i). c_snapshotData (th_heap h ! i)) (th_conns h)"

definition ConnSnapshot_of :: "TCPHandler \<Rightarrow> FlowID \<Rightarrow> ConnSnapshot option option" where
  "ConnSnapshot_of h flow = map_option (\<lambda>i. c_snapshotData (th_heap h ! i)) (map_of (th_conns h) flow)"

end
