(* ===== verification/TcpDelivery.thy ===== *)
theory TcpDelivery
  imports TcpRcvProps TcpHandler
begin

text \<open>
  The receive side as a system: segments of the peer's stream arrive in any order, its FIN may arrive ahead of the
  data, and the application reads. Whatever happens, the application gets the peer's stream.
\<close>

section \<open>The peer's stream\<close>

definition of_stream :: "bytes \<Rightarrow> byte_pred" where
  "of_stream S k b \<longleftrightarrow> k < length S \<and> b = S ! k"

lemma at_pos_stream: "a + n \<le> length S \<Longrightarrow> at_pos (of_stream S) a (take n (drop a S))"
  by (simp add: at_pos_def of_stream_def)

lemma at_pos_streamD: "at_pos (of_stream S) 0 x \<Longrightarrow> x = take (length x) S \<and> length x \<le> length S"
proof -
  assume x: "at_pos (of_stream S) 0 x"
  have "length x \<le> length S"
  proof (rule ccontr)
    assume "\<not> length x \<le> length S"
    then show False
      using x [unfolded at_pos_def of_stream_def, rule_format, of "length S"] by simp
  qed
  then show ?thesis
    using x by (auto simp: at_pos_def of_stream_def intro: nth_equalityI)
qed

section \<open>The system\<close>

text \<open>A connection, what the application has read so far, and the positions of the stream that arrived inside the window.\<close>

record rcv_sys =
  rs_conn :: TCPConn
  rs_got :: bytes
  rs_have :: "nat set"

abbreviation rs_pos :: "rcv_sys \<Rightarrow> nat" where
  "rs_pos s \<equiv> length (rs_got s) + length (contents (c_readBuf (rs_conn s)))"

abbreviation rs_stream :: "rcv_sys \<Rightarrow> bytes" where
  "rs_stream s \<equiv> rs_got s @ contents (c_readBuf (rs_conn s))"

text \<open>
  The steps. A segment carries \<open>n\<close> bytes of the stream from position \<open>a\<close> on, not \<open>2 ^ 31\<close> or more away from the
  receiver's position. A FIN that is ahead of the data is remembered, as \<open>handleEstablished\<close> does. The receiver is
  not given segments after it took the FIN: no state behind that point calls \<open>handleData\<close>.
\<close>

inductive rcv_step :: "bytes \<Rightarrow> u32 \<Rightarrow> rcv_sys \<Rightarrow> rcv_sys \<Rightarrow> bool" for S base where
  segment: "near a (rs_pos s) \<Longrightarrow> 0 < n \<Longrightarrow> n \<le> 65535 \<Longrightarrow> a + n \<le> length S \<Longrightarrow> \<not> rb_closed (c_readBuf (rs_conn s)) \<Longrightarrow>
     handleData e (rs_conn s) (seq_at base a) (take n (drop a S)) = Some c' \<Longrightarrow>
     rcv_step S base s (s\<lparr>rs_conn := c', rs_have := rs_have s \<union> ({a..<a + n} \<inter> {..<rs_pos s + rcv_free (rs_conn s)})\<rparr>)"
| fin_ahead: "c_rcv (rs_conn s) = Some r \<Longrightarrow> near (length S) (rs_pos s) \<Longrightarrow> rcv_nxt r \<noteq> seq_at base (length S) \<Longrightarrow>
     \<not> rb_closed (c_readBuf (rs_conn s)) \<Longrightarrow>
     rcv_step S base s (s\<lparr>rs_conn := set_rcv (r\<lparr>rcv_finReceived := True, rcv_finSeq := seq_at base (length S)\<rparr>) (rs_conn s)\<rparr>)"
| application: "0 < k \<Longrightarrow> conn_Read_round (rs_conn s) k = Some (c', Read_data rb d) \<Longrightarrow>
     rcv_step S base s (s\<lparr>rs_conn := c', rs_got := rs_got s @ d\<rparr>)"

definition rs_inv :: "bytes \<Rightarrow> u32 \<Rightarrow> rcv_sys \<Rightarrow> bool" where
  "rs_inv S base s \<longleftrightarrow> (\<exists>ivs r. at_pos (of_stream S) 0 (rs_stream s) \<and> ivs_at (of_stream S) ivs \<and>
     rs_have s = {..<rs_pos s} \<union> cov ivs \<and> ivs_ok (rs_pos s) (rs_pos s + rcv_free (rs_conn s)) ivs \<and>
     (rcv_holds base (rs_pos s) ivs (rs_conn s) r \<and>
        (rcv_finReceived r \<longrightarrow> rcv_finSeq r = seq_at base (length S) \<and> length S < rs_pos s + 2 ^ 31) \<or>
      rs_pos s = length S \<and> rcv_ended base (rs_pos s) ivs (rs_conn s) r))"

lemma read_inv:
  assumes "rb_inv (c_readBuf c)" "0 < k" "conn_Read_round c k = Some (c', Read_data rb d)"
  obtains "c_readBuf c' = rb" "rb_inv rb" "contents (c_readBuf c) = d @ contents rb" "Cap rb = Cap (c_readBuf c)"
    "rb_closed rb = rb_closed (c_readBuf c)" "c_rcv c' = c_rcv c" "c_state c' = c_state c" "c_readShutdown c' = c_readShutdown c"
proof -
  have rr: "Read_round (c_readBuf c) k = Some (Read_data rb d)"
    using assms(3) by (auto simp: conn_Read_round_def split: bind_splits read_round.splits)
  have ne: "contents (c_readBuf c) \<noteq> []"
    using rr assms(1) length_contents [of "c_readBuf c"] by (auto simp: Read_round_def lenLocked_eq split: if_splits)
  with rr assms(1) have "ReadNoBlock (c_readBuf c) k = Some (rb, d)"
    by (auto simp: Read_round_eq)
  moreover obtain rb' where "ReadNoBlock (c_readBuf c) k = Some (rb', take k (contents (c_readBuf c)))" "rb_inv rb'"
      "contents rb' = drop k (contents (c_readBuf c))" "Cap rb' = Cap (c_readBuf c)" "rb_closed rb' = rb_closed (c_readBuf c)"
    by (rule ReadNoBlock_spec [OF assms(1,2)])
  ultimately have "rb_inv rb" "contents (c_readBuf c) = d @ contents rb" "Cap rb = Cap (c_readBuf c)" "rb_closed rb = rb_closed (c_readBuf c)"
    by auto
  moreover have "c' = c\<lparr>c_readBuf := rb\<rparr> \<or> c' = c\<lparr>c_readBuf := rb, c_windowNotify := True\<rparr>"
    using assms(3) rr by (auto simp: conn_Read_round_def split: if_splits)
  ultimately show thesis
    using that by auto
qed

lemma segment_inv:
  assumes inv: "rs_inv S base s" "\<not> rb_closed (c_readBuf (rs_conn s))"
    and d: "near a (rs_pos s)" "0 < n" "n \<le> 65535" "a + n \<le> length S"
  obtains c' where "handleData e (rs_conn s) (seq_at base a) (take n (drop a S)) = Some c'"
    "rs_inv S base (s\<lparr>rs_conn := c', rs_have := rs_have s \<union> ({a..<a + n} \<inter> {..<rs_pos s + rcv_free (rs_conn s)})\<rparr>)"
proof -
  let ?P = "of_stream S" and ?d = "take n (drop a S)"
  obtain ivs r where s: "at_pos ?P 0 (rs_stream s)" "ivs_at ?P ivs" "rs_have s = {..<rs_pos s} \<union> cov ivs"
      "rcv_holds base (rs_pos s) ivs (rs_conn s) r" "rcv_finReceived r \<longrightarrow> rcv_finSeq r = seq_at base (length S) \<and> length S < rs_pos s + 2 ^ 31"
    using inv by (auto simp: rs_inv_def rcv_ended_def)
  let ?C = "{..<rs_pos s} \<union> cov ivs \<union> ({a..<a + length ?d} \<inter> {..<rs_pos s + rcv_free (rs_conn s)})"
  have len: "length ?d = n" "length ?d \<le> 2 ^ 30" "?d \<noteq> []"
    using d by auto
  from handleData_result [OF s(4,2) d(1) len(2,3) at_pos_stream [OF d(4)], of e "\<lambda>_ _ _. True"]
  obtain c' where c': "handleData e (rs_conn s) (seq_at base a) ?d = Some c'"
      "rcv_result (\<lambda>_ _ _. True) ?P base ?C (rs_pos s) (rs_conn s) r c'"
    by blast
  then obtain x ivs' r' where x: "contents (c_readBuf c') = contents (c_readBuf (rs_conn s)) @ x" "at_pos ?P (rs_pos s) x" "ivs_at ?P ivs'"
      "{..<rs_pos s + length x} \<union> cov ivs' = ?C" "ivs_ok (rs_pos s + length x) (rs_pos s + length x + rcv_free c') ivs'"
      "rcv_holds base (rs_pos s + length x) ivs' c' r' \<and> rcv_finReceived r' = rcv_finReceived r \<and> rcv_finSeq r' = rcv_finSeq r \<or>
       rcv_finReceived r \<and> rcv_finSeq r = seq_at base (rs_pos s + length x) \<and> rcv_ended base (rs_pos s + length x) ivs' c' r'"
    unfolding rcv_result_def by blast
  have all: "at_pos ?P 0 (rs_stream s @ x)"
    using s(1) x(2) by (simp add: at_pos_append)
  then have le: "rs_pos s + length x \<le> length S"
    using at_pos_streamD [OF all] by simp
  have "rs_pos s + length x = length S" if "rcv_finReceived r" "rcv_finSeq r = seq_at base (rs_pos s + length x)"
  proof -
    have "near (rs_pos s + length x) (length S)"
      using that s(5) le by (auto simp: near_def)
    from seq_at_eq [OF this, of base] show ?thesis
      using that s(5) by simp
  qed
  then have "rs_inv S base (s\<lparr>rs_conn := c', rs_have := rs_have s \<union> ({a..<a + n} \<inter> {..<rs_pos s + rcv_free (rs_conn s)})\<rparr>)"
    unfolding rs_inv_def using s x all len(1) by (intro exI [of _ ivs'] exI [of _ r']) (auto simp: add.assoc)
  with that c'(1) show thesis
    by blast
qed

lemma application_inv:
  assumes inv: "rs_inv S base s" and rd: "0 < k" "conn_Read_round (rs_conn s) k = Some (c', Read_data rb d)"
  shows "rs_inv S base (s\<lparr>rs_conn := c', rs_got := rs_got s @ d\<rparr>)"
proof -
  let ?t = "s\<lparr>rs_conn := c', rs_got := rs_got s @ d\<rparr>"
  have rb: "rb_inv (c_readBuf (rs_conn s))"
    using inv by (auto simp: rs_inv_def rcv_holds_def rcv_open_def rcv_ended_def)
  obtain c': "c_readBuf c' = rb" "rb_inv rb" "contents (c_readBuf (rs_conn s)) = d @ contents rb" "Cap rb = Cap (c_readBuf (rs_conn s))"
    "rb_closed rb = rb_closed (c_readBuf (rs_conn s))" "c_rcv c' = c_rcv (rs_conn s)" "c_state c' = c_state (rs_conn s)"
    "c_readShutdown c' = c_readShutdown (rs_conn s)"
    by (rule read_inv [OF rb rd])
  then have pos: "rs_pos ?t = rs_pos s" "rs_stream ?t = rs_stream s" "rcv_free (rs_conn s) \<le> rcv_free c'"
    by simp_all
  have mono: "ivs_ok (rs_pos s) (rs_pos s + rcv_free (rs_conn s)) ivs \<Longrightarrow> ivs_ok (rs_pos s) (rs_pos s + rcv_free c') ivs" for ivs
    using pos(3) by (auto elim: ivs_ok_mono)
  have "rcv_holds base (rs_pos s) ivs (rs_conn s) r \<Longrightarrow> rcv_holds base (rs_pos s) ivs c' r"
      "rcv_ended base (rs_pos s) ivs (rs_conn s) r \<Longrightarrow> rcv_ended base (rs_pos s) ivs c' r" for ivs r
    using c' mono [of ivs] by (simp_all add: rcv_holds_def rcv_open_def rcv_ended_def)
  then show ?thesis
    using inv mono pos(3) unfolding rs_inv_def pos by (simp del: length_append) blast
qed

lemma rcv_step_inv: "rcv_step S base s t \<Longrightarrow> rs_inv S base s \<Longrightarrow> rs_inv S base t"
proof (induction rule: rcv_step.induct)
  case (segment a s n e c')
  then show ?case
    using segment_inv [of S base s a n e] by (metis option.inject)
next
  case (fin_ahead s r)
  then show ?case
    unfolding rs_inv_def by (auto simp: rcv_holds_def rcv_open_def rcv_ended_def set_rcv_def near_def)
next
  case (application k s c' rb d)
  then show ?case
    by (intro application_inv)
qed

section \<open>What the application reads\<close>

definition fresh_receiver :: "TCPConn \<Rightarrow> u32 \<Rightarrow> bool" where
  "fresh_receiver c base \<longleftrightarrow> (case c_rcv c of None \<Rightarrow> False | Some r \<Rightarrow> rcv_open c r \<and> contents (c_readBuf c) = [] \<and>
     rcv_nxt r = base \<and> rcv_ooo r = [] \<and> \<not> rcv_finReceived r)"

lemma fresh_inv: "fresh_receiver c base \<Longrightarrow> rs_inv S base \<lparr>rs_conn = c, rs_got = [], rs_have = {}\<rparr>"
  unfolding rs_inv_def by (intro exI [of _ "[]"] exI [of _ "the (c_rcv c)"]) (auto simp: fresh_receiver_def rcv_holds_def split: option.splits)

text \<open>C4: A receiver in the state after the handshake delivers the peer's stream exactly. After any sequence of segments of the
  stream \<open>S\<close>, in any order, repeated, overlapping, cut at the receive window, with the FIN possibly ahead of the data
  and reads of the application in between: what the application read and can still read is a prefix of \<open>S\<close>; it ends at
  the first byte that has not arrived inside the window; it is all of \<open>S\<close> once the FIN was taken; and until then no
  segment of the stream makes the receiver panic.\<close>

theorem receiver_delivers_stream:
  assumes "fresh_receiver c base" and "(rcv_step S base)\<^sup>*\<^sup>* \<lparr>rs_conn = c, rs_got = [], rs_have = {}\<rparr> s"
  shows "rs_stream s = take (rs_pos s) S \<and> {..<rs_pos s} \<subseteq> rs_have s \<and> rs_pos s \<notin> rs_have s \<and>
    (rb_closed (c_readBuf (rs_conn s)) \<longrightarrow> rs_stream s = S) \<and>
    (\<not> rb_closed (c_readBuf (rs_conn s)) \<longrightarrow> (\<forall>e a n. near a (rs_pos s) \<longrightarrow> 0 < n \<longrightarrow> n \<le> 65535 \<longrightarrow> a + n \<le> length S \<longrightarrow>
      handleData e (rs_conn s) (seq_at base a) (take n (drop a S)) \<noteq> None))"
proof -
  have inv: "rs_inv S base s"
    using assms(2) by induction (use fresh_inv [OF assms(1)] rcv_step_inv in blast)+
  then obtain ivs r where s: "at_pos (of_stream S) 0 (rs_stream s)" "rs_have s = {..<rs_pos s} \<union> cov ivs"
      "ivs_ok (rs_pos s) (rs_pos s + rcv_free (rs_conn s)) ivs" "rcv_holds base (rs_pos s) ivs (rs_conn s) r \<or> rs_pos s = length S"
    unfolding rs_inv_def by blast
  have "rs_stream s = take (rs_pos s) S"
    using at_pos_streamD [OF s(1)] by simp
  moreover have "rs_pos s \<notin> rs_have s"
    using ivs_ok_cov [OF s(3)] s(2) by auto
  moreover have "rs_stream s = S" if "rb_closed (c_readBuf (rs_conn s))"
    using that s(4) at_pos_streamD [OF s(1)] by (auto simp: rcv_holds_def rcv_open_def)
  ultimately show ?thesis
    using s(2) segment_inv [OF inv] by (metis UnCI option.distinct(1) subsetI)
qed

text \<open>A connection with a buffer of eight bytes whose sequence numbers are about to wrap around, and two segments in reverse order.\<close>

definition sample_env :: env where
  "sample_env = \<lparr>e_now = 0, e_mtu = 1500, e_gso = False, e_gsoMaxSize = 0, e_tsOffset = 0, e_tsEpoch = 0, e_packets = (\<lambda>_. []),
     e_payloads = (\<lambda>_. []), e_gsoBufs = (\<lambda>_. [])\<rparr>"

definition small_config :: Config where
  "small_config = \<lparr>cfg_ReadBufferSize = 8, cfg_WriteBufferSize = 8, cfg_InitialReadBufferSize = 8, cfg_InitialWriteBufferSize = 8,
     cfg_AcceptQueueSize = 1, cfg_InboundQueueSize = 4, cfg_KeepaliveIdle = seconds 7200, cfg_KeepaliveInterval = seconds 75,
     cfg_KeepaliveCount = 9, cfg_SynRcvdTimeout = seconds 75, cfg_FinWait2Timeout = seconds 60, cfg_TimeWaitDuration = seconds 120,
     cfg_DelayedACKTimeout = milliseconds 200, cfg_MaxZeroWindowProbeInterval = seconds 60, cfg_MinRTO = milliseconds 200,
     cfg_MaxRTO = seconds 60, cfg_InitialRTO = seconds 1, cfg_MaxRetries = 15, cfg_InitialSSThresh = 65535,
     cfg_ReceiveWindowSize = 65535, cfg_MaxReadBufferSize = 8\<rparr>"

definition sample_flow :: FlowID where
  "sample_flow = \<lparr>fl_SrcAddr = 0x0a000002, fl_DstAddr = 0x0a000001, fl_SrcPort = 4000, fl_DstPort = 80\<rparr>"

definition sample_rcv :: TCPConn where
  "sample_rcv = (let c = new_conn small_config sample_flow 0xfffffffd 7 0
       \<lparr>syn_MSS = 1460, syn_WS = -1, syn_SACKPermit = True, syn_TSEnabled = False, syn_TSVal = 0\<rparr> False
     in set_rcv (newReceiver 0xfffffffd (c_readBuf c) 8 8) c)"

definition sample_rcv1 :: TCPConn where
  "sample_rcv1 = the (handleData sample_env sample_rcv (seq_at 0xfffffffe 3) [13, 14])"

definition sample_rcv2 :: TCPConn where
  "sample_rcv2 = the (handleData sample_env sample_rcv1 (seq_at 0xfffffffe 0) [10, 11, 12])"

theorem receiver_delivers_stream_witness:
  "(rcv_step [10, 11, 12, 13, 14] 0xfffffffe)\<^sup>*\<^sup>* \<lparr>rs_conn = sample_rcv, rs_got = [], rs_have = {}\<rparr>
     \<lparr>rs_conn = sample_rcv2, rs_got = [], rs_have = {0..<5}\<rparr> \<and>
   contents (c_readBuf sample_rcv2) = [10, 11, 12, 13, 14]"
proof -
  let ?S = "[10, 11, 12, 13, 14] :: bytes" and ?b = "0xfffffffe :: u32"
  have fresh: "fresh_receiver sample_rcv ?b"
    by (simp add: fresh_receiver_def rcv_open_def sample_rcv_def new_conn_def newReceiver_def set_rcv_def small_config_def newRingBuffer_def
        Cap_def rb_inv_def contents_def rb_len_def Let_def)
  have n0: "contents (c_readBuf sample_rcv) = []" "Cap (c_readBuf sample_rcv) = 8" "\<not> rb_closed (c_readBuf sample_rcv)"
      "contents (c_readBuf sample_rcv1) = []" "Cap (c_readBuf sample_rcv1) = 8" "\<not> rb_closed (c_readBuf sample_rcv1)"
      "length (contents (c_readBuf sample_rcv2)) = 5"
    by code_simp+
  have "handleData sample_env sample_rcv (seq_at ?b 3) [13, 14] \<noteq> None" "handleData sample_env sample_rcv1 (seq_at ?b 0) [10, 11, 12] \<noteq> None"
    by code_simp+
  then have h: "handleData sample_env sample_rcv (seq_at ?b 3) [13, 14] = Some sample_rcv1"
      "handleData sample_env sample_rcv1 (seq_at ?b 0) [10, 11, 12] = Some sample_rcv2"
    by (auto simp: sample_rcv1_def sample_rcv2_def)
  have "rcv_step ?S ?b \<lparr>rs_conn = sample_rcv, rs_got = [], rs_have = {}\<rparr> \<lparr>rs_conn = sample_rcv1, rs_got = [], rs_have = {3..<5}\<rparr>"
  proof -
    have "{} \<union> ({3..<3 + 2} \<inter> {..<8 :: nat}) = {3..<5}"
      by auto
    then show ?thesis
      using rcv_step.segment [of 3 "\<lparr>rs_conn = sample_rcv, rs_got = [], rs_have = {}\<rparr>" 2 ?S sample_env ?b sample_rcv1] n0 h(1)
      by (simp add: near_def)
  qed
  moreover have "rcv_step ?S ?b \<lparr>rs_conn = sample_rcv1, rs_got = [], rs_have = {3..<5}\<rparr> \<lparr>rs_conn = sample_rcv2, rs_got = [], rs_have = {0..<5}\<rparr>"
  proof -
    have "{3..<5} \<union> ({0..<0 + 3} \<inter> {..<8 :: nat}) = {0..<5}"
      by auto
    then show ?thesis
      using rcv_step.segment [of 0 "\<lparr>rs_conn = sample_rcv1, rs_got = [], rs_have = {3..<5}\<rparr>" 3 ?S sample_env ?b sample_rcv2] n0 h(2)
      by (simp add: near_def)
  qed
  ultimately have run: "(rcv_step ?S ?b)\<^sup>*\<^sup>* \<lparr>rs_conn = sample_rcv, rs_got = [], rs_have = {}\<rparr> \<lparr>rs_conn = sample_rcv2, rs_got = [], rs_have = {0..<5}\<rparr>"
    by (meson converse_rtranclp_into_rtranclp r_into_rtranclp)
  with receiver_delivers_stream [OF fresh run] n0(7) show ?thesis
    by simp
qed

end
