(* ===== verification/TcpSndProps.thy ===== *)
theory TcpSndProps
  imports TcpSender TcpSegProps TcpStream
begin

text \<open>
  What the sender of \<open>src/transport/tcp/snd.go\<close> guarantees: it never panics, its loops end, its timers stay within
  their bounds, and every segment it sends, for the first time or again, carries the bytes of the application's
  stream that belong to its sequence number.
\<close>

section \<open>What sending data changes in the connection\<close>

definition snd_core :: "TCPConn \<Rightarrow> TCPConn" where
  "snd_core c = (core c)\<lparr>c_snd := None, c_writeBuf := (newRingBuffer 1)\<lparr>rb_closed := rb_closed (c_writeBuf c)\<rparr>\<rparr>"

definition same_snd :: "TCPConn \<Rightarrow> TCPConn \<Rightarrow> bool" where
  "same_snd c c' \<longleftrightarrow> snd_core c' = snd_core c"

lemma same_snd_refl [simp]: "same_snd c c"
  by (simp add: same_snd_def)

lemma same_snd_trans [trans]: "same_snd a b \<Longrightarrow> same_snd b c \<Longrightarrow> same_snd a c"
  by (simp add: same_snd_def)

lemma same_out_snd:
  assumes "same_out c c'"
  shows "same_snd c c'"
proof -
  have "c_writeBuf c' = c_writeBuf c"
    by (rule same_outD [OF assms])
  then show ?thesis
    using assms by (simp add: same_snd_def snd_core_def same_out_def)
qed

lemma same_snd_updates [simp]:
  "same_snd c (c\<lparr>c_snd := s\<rparr>)" "same_snd c (set_snd s' c)" "same_snd c (tcp_count f c)"
  by (simp_all add: same_snd_def snd_core_def core_def set_snd_def tcp_count_def)

lemma same_snd_buf: "rb_closed b = rb_closed (c_writeBuf c) \<Longrightarrow> same_snd c (c\<lparr>c_writeBuf := b\<rparr>)"
  by (simp add: same_snd_def snd_core_def core_def)

lemma same_sndD:
  assumes "same_snd c c'"
  shows "c_flow c' = c_flow c" "c_state c' = c_state c" "c_iss c' = c_iss c" "c_irs c' = c_irs c"
    "c_sndWndScale c' = c_sndWndScale c" "c_rcvWndScale c' = c_rcvWndScale c"
    "c_sackPermitted c' = c_sackPermitted c" "c_peerMSS c' = c_peerMSS c" "c_tsEnabled c' = c_tsEnabled c"
    "c_tsRecent c' = c_tsRecent c" "c_tsOffset c' = c_tsOffset c" "c_noDelay c' = c_noDelay c"
    "c_delayedACKTimer c' = c_delayedACKTimer c" "c_unackedSegs c' = c_unackedSegs c"
    "c_zeroWindowTimer c' = c_zeroWindowTimer c" "c_zeroWindowProbing c' = c_zeroWindowProbing c"
    "c_probeInterval c' = c_probeInterval c" "c_keepaliveTimer c' = c_keepaliveTimer c"
    "c_keepaliveProbes c' = c_keepaliveProbes c" "c_writeShutdown c' = c_writeShutdown c"
    "c_readShutdown c' = c_readShutdown c" "c_finPending c' = c_finPending c" "c_rcv c' = c_rcv c"
    "c_readBuf c' = c_readBuf c" "c_writeNotify c' = c_writeNotify c" "c_windowNotify c' = c_windowNotify c"
    "c_inbound c' = c_inbound c" "c_inboundCap c' = c_inboundCap c" "c_done c' = c_done c"
    "c_closeOnce c' = c_closeOnce c" "c_closeReadOnce c' = c_closeReadOnce c" "c_closeCh c' = c_closeCh c"
    "c_forceCloseCh c' = c_forceCloseCh c" "c_timeWaitTimer c' = c_timeWaitTimer c"
    "c_finWait2Timer c' = c_finWait2Timer c" "c_synRcvdTimer c' = c_synRcvdTimer c" "c_rtoTimer c' = c_rtoTimer c"
    "c_statsActive c' = c_statsActive c" "c_snapshotData c' = c_snapshotData c" "c_cfg c' = c_cfg c"
    "rb_closed (c_writeBuf c') = rb_closed (c_writeBuf c)"
proof -
  have eq: "snd_core c' = snd_core c"
    using assms by (simp add: same_snd_def)
  show "c_flow c' = c_flow c" "c_state c' = c_state c" "c_iss c' = c_iss c" "c_irs c' = c_irs c"
    "c_sndWndScale c' = c_sndWndScale c" "c_rcvWndScale c' = c_rcvWndScale c"
    "c_sackPermitted c' = c_sackPermitted c" "c_peerMSS c' = c_peerMSS c" "c_tsEnabled c' = c_tsEnabled c"
    "c_tsRecent c' = c_tsRecent c" "c_tsOffset c' = c_tsOffset c" "c_noDelay c' = c_noDelay c"
    "c_delayedACKTimer c' = c_delayedACKTimer c" "c_unackedSegs c' = c_unackedSegs c"
    "c_zeroWindowTimer c' = c_zeroWindowTimer c" "c_zeroWindowProbing c' = c_zeroWindowProbing c"
    "c_probeInterval c' = c_probeInterval c" "c_keepaliveTimer c' = c_keepaliveTimer c"
    "c_keepaliveProbes c' = c_keepaliveProbes c" "c_writeShutdown c' = c_writeShutdown c"
    "c_readShutdown c' = c_readShutdown c" "c_finPending c' = c_finPending c" "c_rcv c' = c_rcv c"
    "c_readBuf c' = c_readBuf c" "c_writeNotify c' = c_writeNotify c" "c_windowNotify c' = c_windowNotify c"
    "c_inbound c' = c_inbound c" "c_inboundCap c' = c_inboundCap c" "c_done c' = c_done c"
    "c_closeOnce c' = c_closeOnce c" "c_closeReadOnce c' = c_closeReadOnce c" "c_closeCh c' = c_closeCh c"
    "c_forceCloseCh c' = c_forceCloseCh c" "c_timeWaitTimer c' = c_timeWaitTimer c"
    "c_finWait2Timer c' = c_finWait2Timer c" "c_synRcvdTimer c' = c_synRcvdTimer c" "c_rtoTimer c' = c_rtoTimer c"
    "c_statsActive c' = c_statsActive c" "c_snapshotData c' = c_snapshotData c" "c_cfg c' = c_cfg c"
    "rb_closed (c_writeBuf c') = rb_closed (c_writeBuf c)"
    subgoal using arg_cong [OF eq, of c_flow] by (simp add: snd_core_def core_def)
    subgoal using arg_cong [OF eq, of c_state] by (simp add: snd_core_def core_def)
    subgoal using arg_cong [OF eq, of c_iss] by (simp add: snd_core_def core_def)
    subgoal using arg_cong [OF eq, of c_irs] by (simp add: snd_core_def core_def)
    subgoal using arg_cong [OF eq, of c_sndWndScale] by (simp add: snd_core_def core_def)
    subgoal using arg_cong [OF eq, of c_rcvWndScale] by (simp add: snd_core_def core_def)
    subgoal using arg_cong [OF eq, of c_sackPermitted] by (simp add: snd_core_def core_def)
    subgoal using arg_cong [OF eq, of c_peerMSS] by (simp add: snd_core_def core_def)
    subgoal using arg_cong [OF eq, of c_tsEnabled] by (simp add: snd_core_def core_def)
    subgoal using arg_cong [OF eq, of c_tsRecent] by (simp add: snd_core_def core_def)
    subgoal using arg_cong [OF eq, of c_tsOffset] by (simp add: snd_core_def core_def)
    subgoal using arg_cong [OF eq, of c_noDelay] by (simp add: snd_core_def core_def)
    subgoal using arg_cong [OF eq, of c_delayedACKTimer] by (simp add: snd_core_def core_def)
    subgoal using arg_cong [OF eq, of c_unackedSegs] by (simp add: snd_core_def core_def)
    subgoal using arg_cong [OF eq, of c_zeroWindowTimer] by (simp add: snd_core_def core_def)
    subgoal using arg_cong [OF eq, of c_zeroWindowProbing] by (simp add: snd_core_def core_def)
    subgoal using arg_cong [OF eq, of c_probeInterval] by (simp add: snd_core_def core_def)
    subgoal using arg_cong [OF eq, of c_keepaliveTimer] by (simp add: snd_core_def core_def)
    subgoal using arg_cong [OF eq, of c_keepaliveProbes] by (simp add: snd_core_def core_def)
    subgoal using arg_cong [OF eq, of c_writeShutdown] by (simp add: snd_core_def core_def)
    subgoal using arg_cong [OF eq, of c_readShutdown] by (simp add: snd_core_def core_def)
    subgoal using arg_cong [OF eq, of c_finPending] by (simp add: snd_core_def core_def)
    subgoal using arg_cong [OF eq, of c_rcv] by (simp add: snd_core_def core_def)
    subgoal using arg_cong [OF eq, of c_readBuf] by (simp add: snd_core_def core_def)
    subgoal using arg_cong [OF eq, of c_writeNotify] by (simp add: snd_core_def core_def)
    subgoal using arg_cong [OF eq, of c_windowNotify] by (simp add: snd_core_def core_def)
    subgoal using arg_cong [OF eq, of c_inbound] by (simp add: snd_core_def core_def)
    subgoal using arg_cong [OF eq, of c_inboundCap] by (simp add: snd_core_def core_def)
    subgoal using arg_cong [OF eq, of c_done] by (simp add: snd_core_def core_def)
    subgoal using arg_cong [OF eq, of c_closeOnce] by (simp add: snd_core_def core_def)
    subgoal using arg_cong [OF eq, of c_closeReadOnce] by (simp add: snd_core_def core_def)
    subgoal using arg_cong [OF eq, of c_closeCh] by (simp add: snd_core_def core_def)
    subgoal using arg_cong [OF eq, of c_forceCloseCh] by (simp add: snd_core_def core_def)
    subgoal using arg_cong [OF eq, of c_timeWaitTimer] by (simp add: snd_core_def core_def)
    subgoal using arg_cong [OF eq, of c_finWait2Timer] by (simp add: snd_core_def core_def)
    subgoal using arg_cong [OF eq, of c_synRcvdTimer] by (simp add: snd_core_def core_def)
    subgoal using arg_cong [OF eq, of c_rtoTimer] by (simp add: snd_core_def core_def)
    subgoal using arg_cong [OF eq, of c_statsActive] by (simp add: snd_core_def core_def)
    subgoal using arg_cong [OF eq, of c_snapshotData] by (simp add: snd_core_def core_def)
    subgoal using arg_cong [OF eq, of c_cfg] by (simp add: snd_core_def core_def)
    subgoal using arg_cong [OF eq, of "\<lambda>c. rb_closed (c_writeBuf c)"] by (simp add: snd_core_def core_def)
    done
qed

section \<open>The sender's invariant\<close>

text \<open>What the sender relies on in its surroundings: the arrays of the pools are large enough and the MTU is sensible.\<close>

definition env_ok :: "env \<Rightarrow> bool" where
  "env_ok e \<longleftrightarrow> (\<forall>k. MaxPayloadSize \<le> length (e_payloads e k)) \<and> (\<forall>k. length (e_gsoBufs e k) = GSOBufSize) \<and>
     68 \<le> e_mtu e \<and> e_mtu e \<le> 1500 \<and> (e_gso e \<longrightarrow> 0 < e_gsoMaxSize e)"

text \<open>
  A segment of the application's stream \<open>W\<close>: its data lie where its sequence number says, and a FIN is at the end;
  there is none before \<open>fin\<close>.
\<close>

definition of_written :: "u32 \<Rightarrow> bytes \<Rightarrow> bool \<Rightarrow> seg_cond" where
  "of_written base W fin seq d f \<longleftrightarrow> (\<exists>k. seq = seq_at base k \<and> k + length d \<le> length W \<and> d = take (length d) (drop k W) \<and>
     (f \<longrightarrow> fin \<and> k = length W))"

definition unacked_ok :: "seg_cond \<Rightarrow> unackedSegment \<Rightarrow> bool" where
  "unacked_ok D u \<longleftrightarrow> (if us_fin u then us_ref u = None \<and> D (us_seq u) [] True
     else \<exists>ref d. us_ref u = Some ref \<and> RefBuf_Bytes ref = Some d \<and> length d \<le> 1460 \<and> D (us_seq u) d False)"

definition queue_ok :: "seg_cond \<Rightarrow> unackedSegment list \<Rightarrow> bool" where
  "queue_ok D us \<longleftrightarrow> list_all (unacked_ok D) us \<and> list_all (\<lambda>u. \<not> us_fin u) (butlast us)"

definition rto_ok :: "sender \<Rightarrow> bool" where
  "rto_ok s \<longleftrightarrow> 0 < snd_minRTO s \<and> snd_minRTO s \<le> snd_rto s \<and> snd_rto s \<le> snd_maxRTO s"

text \<open>
  The sender \<open>s\<close> of the connection has taken the first \<open>m\<close> bytes of the application's stream \<open>W\<close>, the rest is in the write
  buffer; \<open>fin\<close> says whether the FIN was sent.
\<close>

definition snd_stream :: "u32 \<Rightarrow> bytes \<Rightarrow> bool \<Rightarrow> ringBuffer \<Rightarrow> u32 \<Rightarrow> bool" where
  "snd_stream base W fin wb nxt \<longleftrightarrow> (\<exists>m \<le> length W. contents wb = drop m W \<and>
     nxt = seq_at base (m + (if fin then 1 else 0)) \<and> (fin \<longrightarrow> m = length W))"

definition snd_ok :: "u32 \<Rightarrow> bytes \<Rightarrow> bool \<Rightarrow> sender \<Rightarrow> bool" where
  "snd_ok base W fin s \<longleftrightarrow> 0 < snd_mss s \<and> snd_mss s \<le> 1460 \<and> snd_ssthresh s \<noteq> 0 \<and> rto_ok s \<and>
     queue_ok (of_written base W fin) (snd_unacked s) \<and> (fin \<or> list_all (\<lambda>u. \<not> us_fin u) (snd_unacked s))"

definition snd_inv :: "u32 \<Rightarrow> bytes \<Rightarrow> bool \<Rightarrow> TCPConn \<Rightarrow> sender \<Rightarrow> bool" where
  "snd_inv base W fin c s \<longleftrightarrow> c_snd c = Some s \<and> c_rcv c \<noteq> None \<and> rb_inv (c_readBuf c) \<and> rb_inv (c_writeBuf c) \<and>
     snd_ok base W fin s \<and> snd_stream base W fin (c_writeBuf c) (snd_nxt s)"

text \<open>A step of the sender.\<close>

definition snd_step :: "u32 \<Rightarrow> bytes \<Rightarrow> bool \<Rightarrow> TCPConn \<Rightarrow> TCPConn \<Rightarrow> bool" where
  "snd_step base W fin c c' \<longleftrightarrow> same_snd c c' \<and> ext_out (of_written base W fin) c c' \<and> (\<exists>s'. snd_inv base W fin c' s')"

lemma snd_invD:
  assumes "snd_inv base W fin c s"
  shows "c_snd c = Some s" "c_rcv c \<noteq> None" "rb_inv (c_readBuf c)" "rb_inv (c_writeBuf c)" "snd_ok base W fin s"
    "snd_stream base W fin (c_writeBuf c) (snd_nxt s)"
  using assms by (simp_all add: snd_inv_def)

lemma snd_okD:
  assumes "snd_ok base W fin s"
  shows "0 < snd_mss s" "snd_mss s \<le> 1460" "snd_ssthresh s \<noteq> 0" "rto_ok s" "queue_ok (of_written base W fin) (snd_unacked s)"
    "fin \<or> list_all (\<lambda>u. \<not> us_fin u) (snd_unacked s)"
  using assms by (simp_all add: snd_ok_def)

lemma snd_step_refl: "snd_inv base W fin c s \<Longrightarrow> snd_step base W fin c c"
  by (auto simp: snd_step_def ext_out_refl)

lemma snd_step_trans: "snd_step base W fin a b \<Longrightarrow> snd_step base W fin b c \<Longrightarrow> snd_step base W fin a c"
  unfolding snd_step_def using same_snd_trans ext_out_trans same_sndD(1) by blast

lemma snd_inv_set:
  assumes "snd_inv base W fin c s" "snd_ok base W fin s'" "snd_nxt s' = snd_nxt s"
  shows "snd_inv base W fin (set_snd s' c) s'"
  using assms by (simp add: snd_inv_def set_snd_def)

lemma out_updates [simp]: "c_out (set_snd s c) = c_out c" "c_out (tcp_count f c) = c_out c"
  by (simp_all add: set_snd_def tcp_count_def)

lemma snd_step_set:
  assumes "snd_inv base W fin c s" "snd_ok base W fin s'" "snd_nxt s' = snd_nxt s"
  shows "snd_step base W fin c (set_snd s' c)"
  using snd_inv_set [OF assms] by (auto simp: snd_step_def ext_out_refl)

lemma snd_inv_count: "snd_inv base W fin c s \<Longrightarrow> snd_inv base W fin (tcp_count f c) s"
  by (simp add: snd_inv_def tcp_count_def)

lemma snd_step_count: "snd_inv base W fin c s \<Longrightarrow> snd_step base W fin c (tcp_count f c)"
  using snd_inv_count [of base W fin c s f] by (auto simp: snd_step_def ext_out_refl)

lemma snd_inv_out:
  assumes "snd_inv base W fin c s" "same_out c c'"
  shows "snd_inv base W fin c' s"
proof -
  have "c_snd c' = c_snd c" "c_rcv c' = c_rcv c" "c_readBuf c' = c_readBuf c" "c_writeBuf c' = c_writeBuf c"
    by (rule same_outD [OF assms(2)])+
  with assms(1) show ?thesis
    by (simp add: snd_inv_def)
qed

lemma snd_step_sends:
  assumes "snd_inv base W fin c s" "sends (of_written base W fin) c c'"
  shows "snd_step base W fin c c'" "snd_inv base W fin c' s"
  using assms snd_inv_out [OF assms(1)] by (auto simp: sends_def snd_step_def same_out_snd)

section \<open>The retransmission queue\<close>

text \<open>The parts of a queued segment that are never changed.\<close>

definition us_key :: "unackedSegment \<Rightarrow> u32 \<times> RefBuf option \<times> bool" where
  "us_key u = (us_seq u, us_ref u, us_fin u)"

lemma queue_ok_key:
  assumes "map us_key us' = map us_key us"
  shows "queue_ok D us' = queue_ok D us" "list_all (\<lambda>u. \<not> us_fin u) us' = list_all (\<lambda>u. \<not> us_fin u) us"
proof -
  have len: "length us' = length us"
    using assms by (metis length_map)
  have key: "us_seq (us' ! i) = us_seq (us ! i)" "us_ref (us' ! i) = us_ref (us ! i)" "us_fin (us' ! i) = us_fin (us ! i)"
    if "i < length us" for i
  proof -
    have "us_key (us' ! i) = us_key (us ! i)"
      using arg_cong [OF assms, of "\<lambda>l. l ! i"] that len by simp
    then show "us_seq (us' ! i) = us_seq (us ! i)" "us_ref (us' ! i) = us_ref (us ! i)" "us_fin (us' ! i) = us_fin (us ! i)"
      by (simp_all add: us_key_def)
  qed
  show fin: "list_all (\<lambda>u. \<not> us_fin u) us' = list_all (\<lambda>u. \<not> us_fin u) us"
    using key len by (auto simp: list_all_length)
  have "list_all (\<lambda>u. \<not> us_fin u) (butlast us') = list_all (\<lambda>u. \<not> us_fin u) (butlast us)"
    using key len by (auto simp: list_all_length nth_butlast)
  moreover have "list_all (unacked_ok D) us' = list_all (unacked_ok D) us"
    using key len by (auto simp: list_all_length unacked_ok_def)
  ultimately show "queue_ok D us' = queue_ok D us"
    by (simp add: queue_ok_def)
qed

lemma snd_ok_key:
  assumes "snd_ok base W fin s" "map us_key (snd_unacked s') = map us_key (snd_unacked s)" "snd_mss s' = snd_mss s"
    "snd_ssthresh s' \<noteq> 0" "rto_ok s'"
  shows "snd_ok base W fin s'"
  using assms queue_ok_key [OF assms(2)] by (simp add: snd_ok_def)

lemma queue_ok_tl: "queue_ok D (u # us) \<Longrightarrow> queue_ok D us"
  by (cases us) (auto simp: queue_ok_def)

lemma queue_ok_snoc:
  assumes "queue_ok D us" "list_all (\<lambda>u. \<not> us_fin u) us" "unacked_ok D u"
  shows "queue_ok D (us @ [u])"
  using assms by (simp add: queue_ok_def)

lemma queue_ok_append:
  assumes "queue_ok D us" "list_all (\<lambda>u. \<not> us_fin u) us" "list_all (unacked_ok D) vs" "list_all (\<lambda>u. \<not> us_fin u) vs"
  shows "queue_ok D (us @ vs)"
proof -
  have "list_all (\<lambda>u. \<not> us_fin u) (butlast (us @ vs))"
    using assms(2,4) in_set_butlastD [of _ "us @ vs"] by (auto simp: list_all_iff)
  then show ?thesis
    using assms(1,3) by (simp add: queue_ok_def)
qed

lemma queue_ok_data:
  assumes "queue_ok D us" "i < length us" "\<not> us_fin (us ! i)"
  obtains ref d where "us_ref (us ! i) = Some ref" "RefBuf_Bytes ref = Some d" "length d \<le> 1460" "D (us_seq (us ! i)) d False"
proof -
  have "unacked_ok D (us ! i)"
    using assms by (simp add: queue_ok_def list_all_length)
  then show thesis
    using that assms(3) by (auto simp: unacked_ok_def)
qed

lemma queue_ok_fin:
  assumes "queue_ok D us" "i < length us" "us_fin (us ! i)"
  shows "D (us_seq (us ! i)) [] True" "Suc i = length us"
proof -
  have "unacked_ok D (us ! i)"
    using assms by (simp add: queue_ok_def list_all_length)
  then show "D (us_seq (us ! i)) [] True"
    using assms(3) by (simp add: unacked_ok_def)
  show "Suc i = length us"
  proof (rule ccontr)
    assume "Suc i \<noteq> length us"
    then have "i < length (butlast us)"
      using assms(2) by simp
    then show False
      using assms(1,3) by (auto simp: queue_ok_def list_all_length nth_butlast)
  qed
qed

lemma updateRTT_ok:
  assumes "snd_ok base W fin s"
  shows "snd_ok base W fin (updateRTT m s)" "snd_nxt (updateRTT m s) = snd_nxt s" "snd_unacked (updateRTT m s) = snd_unacked s"
proof -
  let ?t = "updateRTT m s"
  have f: "snd_unacked ?t = snd_unacked s" "snd_mss ?t = snd_mss s" "snd_ssthresh ?t = snd_ssthresh s" "snd_minRTO ?t = snd_minRTO s"
      "snd_maxRTO ?t = snd_maxRTO s" "snd_nxt ?t = snd_nxt s"
    by (simp_all add: updateRTT_def Let_def)
  have "snd_rto ?t = min (max (snd_srtt ?t + 4 * snd_rttvar ?t) (snd_minRTO s)) (snd_maxRTO s)"
    by (cases "snd_srtt s = 0") (simp_all add: updateRTT_def Let_def)
  then have "rto_ok ?t"
    using snd_okD(4) [OF assms] f by (auto simp: rto_ok_def)
  then show "snd_ok base W fin ?t"
    using snd_ok_key [OF assms] f snd_okD(3) [OF assms] by simp
  show "snd_nxt ?t = snd_nxt s" "snd_unacked ?t = snd_unacked s"
    using f by simp_all
qed

lemma removeAcked_loop_ok:
  "snd_ok base W fin (s\<lparr>snd_unacked := us\<rparr>) \<Longrightarrow> snd_ok base W fin (removeAcked_loop e ts ack m s us) \<and>
   snd_nxt (removeAcked_loop e ts ack m s us) = snd_nxt s"
proof (induction e ts ack m s us rule: removeAcked_loop.induct)
  case (1 e ts ack m s)
  then show ?case
    by simp
next
  case (2 e ts ack m s u us)
  define s1 where "s1 = (if \<not> m \<and> \<not> ts \<and> \<not> us_retransmitted u then updateRTT (e_now e - us_sentAt u) s else s)"
  have upd: "updateRTT x (s\<lparr>snd_unacked := vs\<rparr>) = (updateRTT x s)\<lparr>snd_unacked := vs\<rparr>" for x vs
    by (cases "snd_srtt s = 0") (simp_all add: updateRTT_def Let_def)
  have s1: "snd_ok base W fin (s1\<lparr>snd_unacked := u # us\<rparr>)" "snd_nxt s1 = snd_nxt s"
    using "2.prems" updateRTT_ok(1,2) [OF "2.prems", of "e_now e - us_sentAt u"] unfolding s1_def upd by simp_all
  have tl: "snd_ok base W fin (s1\<lparr>snd_unacked := us\<rparr>)"
    using s1(1) queue_ok_tl [of "of_written base W fin" u us] unfolding snd_ok_def rto_ok_def by (simp, blast)
  define m1 where "m1 = (m \<or> (\<not> m \<and> \<not> ts \<and> \<not> us_retransmitted u))"
  have eq: "removeAcked_loop e ts ack m s (u # us) =
      (if \<not> seqGreaterThan ack (us_seq u) then s\<lparr>snd_unacked := u # us\<rparr>
       else if seqLessThan (us_end u) ack \<or> us_end u = ack then removeAcked_loop e ts ack m1 s1 us
       else s1\<lparr>snd_unacked := u # us\<rparr>)"
    unfolding removeAcked_loop.simps Let_def s1_def m1_def ..
  have "snd_ok base W fin (removeAcked_loop e ts ack m1 s1 us) \<and> snd_nxt (removeAcked_loop e ts ack m1 s1 us) = snd_nxt s1"
    if "seqGreaterThan ack (us_seq u)" "seqLessThan (us_end u) ack \<or> us_end u = ack"
    using "2.IH" [OF _ refl s1_def that(2)] that(1) tl unfolding m1_def by simp
  then show ?case
    unfolding eq using s1 "2.prems" by simp
qed

lemma removeAcked_ok:
  assumes "snd_ok base W fin s"
  shows "snd_ok base W fin (removeAcked e c ack s)" "snd_nxt (removeAcked e c ack s) = snd_nxt s"
proof -
  have "snd_ok base W fin (s\<lparr>snd_unacked := snd_unacked s\<rparr>)"
    using assms by simp
  from removeAcked_loop_ok [OF this, of e "c_tsEnabled c" ack False]
  show "snd_ok base W fin (removeAcked e c ack s)" "snd_nxt (removeAcked e c ack s) = snd_nxt s"
    by (simp_all add: removeAcked_def)
qed

section \<open>Retransmission\<close>

lemma resend_data_step:
  assumes "snd_inv base W fin c s" "us_ref u = Some ref" "RefBuf_Bytes ref = Some d" "length d \<le> 1460" "of_written base W fin (us_seq u) d False"
  shows "\<exists>c'. resend_data e c u = Some c' \<and> snd_step base W fin c c' \<and> snd_inv base W fin c' s"
proof -
  have "length d \<le> 65000"
    using assms(4) by simp
  from sends_sendData [OF snd_invD(3,2) [OF assms(1)] this, of "of_written base W fin" "us_seq u" e]
  obtain c' where "sendData e c d (us_seq u) = Some c'" "sends (of_written base W fin) c c'"
    using assms(5) by blast
  then show ?thesis
    using snd_step_sends [OF assms(1)] assms(2,3) by (auto simp: resend_data_def)
qed

definition resent :: "env \<Rightarrow> nat \<Rightarrow> sender \<Rightarrow> sender" where
  "resent e i s = s\<lparr>snd_unacked := (snd_unacked s)[i := (snd_unacked s ! i)\<lparr>us_retransmitted := True, us_sentAt := e_now e\<rparr>]\<rparr>"

lemma resent_ok:
  assumes "snd_ok base W fin s" "i < length (snd_unacked s)"
  shows "snd_ok base W fin (resent e i s)" "snd_nxt (resent e i s) = snd_nxt s"
    "map us_key (snd_unacked (resent e i s)) = map us_key (snd_unacked s)"
proof -
  show key: "map us_key (snd_unacked (resent e i s)) = map us_key (snd_unacked s)"
    using assms(2) by (simp add: resent_def map_update us_key_def list_update_same_conv)
  show "snd_ok base W fin (resent e i s)"
    using snd_ok_key [OF assms(1) key] snd_okD(3,4) [OF assms(1)] by (simp add: resent_def rto_ok_def)
  show "snd_nxt (resent e i s) = snd_nxt s"
    by (simp add: resent_def)
qed

lemma mark_resent_eq: "c_snd c = Some s \<Longrightarrow> mark_resent e i c = Some (set_snd (resent e i s) c)"
  by (simp add: mark_resent_def resent_def)

lemma resend_step:
  assumes inv: "snd_inv base W fin c s" and i: "i < length (snd_unacked s)"
  shows "\<exists>c'. resend e i c = Some c' \<and> snd_step base W fin c c' \<and> snd_inv base W fin c' (resent e i s)"
proof -
  let ?s = "resent e i s" and ?u = "snd_unacked (resent e i s) ! i"
  let ?c = "set_snd ?s c"
  note ok = resent_ok [OF snd_invD(5) [OF inv] i, of e]
  have 1: "snd_inv base W fin ?c ?s" "snd_step base W fin c ?c"
    using snd_inv_set [OF inv ok(1,2)] snd_step_set [OF inv ok(1,2)] by auto
  have i': "i < length (snd_unacked ?s)"
    using i by (simp add: resent_def)
  note q = snd_okD(5) [OF ok(1)]
  have start: "resend e i c = (if us_fin ?u then sendFINSegment e ?c (us_seq ?u) else resend_data e ?c ?u)"
    using mark_resent_eq [OF snd_invD(1) [OF inv], of e i] by (simp add: resend_def set_snd_def)
  show ?thesis
  proof (cases "us_fin ?u")
    case True
    obtain c' where "sendFINSegment e ?c (us_seq ?u) = Some c'" "sends (of_written base W fin) ?c c'"
      using sends_FIN [of ?c "of_written base W fin" "us_seq ?u" e] snd_invD(3) [OF 1(1)] queue_ok_fin(1) [OF q i' True] by blast
    then show ?thesis
      using start True snd_step_sends [OF 1(1)] snd_step_trans [OF 1(2)] by auto
  next
    case False
    obtain ref d where "us_ref ?u = Some ref" "RefBuf_Bytes ref = Some d" "length d \<le> 1460" "of_written base W fin (us_seq ?u) d False"
      using queue_ok_data [OF q i' False] by blast
    from resend_data_step [OF 1(1) this, of e] show ?thesis
      using start False snd_step_trans [OF 1(2)] by auto
  qed
qed

lemma retransmitOldest_step:
  assumes "snd_inv base W fin c s"
  shows "\<exists>c' s'. retransmitOldest e c = Some c' \<and> snd_step base W fin c c' \<and> snd_inv base W fin c' s'"
proof (cases "snd_unacked s = []")
  case True
  then show ?thesis
    using assms snd_invD(1) [OF assms] snd_step_refl [OF assms] by (auto simp: retransmitOldest_def)
next
  case False
  then show ?thesis
    using resend_step [OF assms, of 0 e] snd_invD(1) [OF assms] by (auto simp: retransmitOldest_def)
qed

lemma retransmitFirstUnSACKed_step:
  assumes "snd_inv base W fin c s"
  shows "\<exists>c' s'. retransmitFirstUnSACKed e c = Some c' \<and> snd_step base W fin c c' \<and> snd_inv base W fin c' s' \<and>
    snd_ssthresh s' = snd_ssthresh s"
proof (cases "length (takeWhile us_sacked (snd_unacked s)) < length (snd_unacked s)")
  case True
  have th: "snd_ssthresh (resent e i s) = snd_ssthresh s" for i
    by (simp add: resent_def)
  from resend_step [OF assms True, of e] show ?thesis
    using True th snd_invD(1) [OF assms] unfolding retransmitFirstUnSACKed_def by auto
next
  case False
  then show ?thesis
    using assms snd_invD(1) [OF assms] snd_step_refl [OF assms] by (auto simp: retransmitFirstUnSACKed_def)
qed

text \<open>The window and rate fields that may be set freely.\<close>

lemma mss_word: "0 < m \<Longrightarrow> m \<le> 1460 \<Longrightarrow> unat (word_of_int m :: u32) = nat m"
  by (simp add: unat_eq_nat_uint uint_word_of_int)

lemma ssthresh_pos:
  assumes "0 < m" "m \<le> 1460"
  shows "max x (2 * word_of_int m :: u32) \<noteq> 0"
proof -
  have "unat (2 * word_of_int m :: u32) = 2 * nat m"
    using assms mss_word [OF assms] by (simp add: unat_word_ariths)
  then have "(2 * word_of_int m :: u32) > 0"
    using assms by (simp add: word_less_nat_alt)
  then show ?thesis
    by (metis max.strict_coboundedI2 word_not_simps(1))
qed

lemma rto_sender_ok:
  assumes "snd_ok base W fin s"
  shows "snd_ok base W fin (rto_sender s)" "snd_nxt (rto_sender s) = snd_nxt s"
proof -
  have "map us_key (snd_unacked (rto_sender s)) = map us_key (snd_unacked s)"
    by (simp add: rto_sender_def us_key_def)
  moreover have "snd_ssthresh (rto_sender s) \<noteq> 0"
    using ssthresh_pos [OF snd_okD(1,2) [OF assms]] by (simp add: rto_sender_def)
  moreover have "rto_ok (rto_sender s)"
    using snd_okD(4) [OF assms] by (auto simp: rto_ok_def rto_sender_def)
  ultimately show "snd_ok base W fin (rto_sender s)"
    using snd_ok_key [OF assms] by (simp add: rto_sender_def)
  show "snd_nxt (rto_sender s) = snd_nxt s"
    by (simp add: rto_sender_def)
qed

lemma abort_step:
  assumes "snd_inv base W fin c s"
  shows "\<exists>c1. abort e c = Some (closeDone c1) \<and> snd_step base W fin c c1 \<and> snd_inv base W fin c1 s"
proof -
  let ?c = "tcp_count (\<lambda>st. st\<lparr>ts_TotalReset := ts_TotalReset st + 1\<rparr>) c"
  have 1: "snd_inv base W fin ?c s" "snd_step base W fin c ?c"
    by (rule snd_inv_count [OF assms], rule snd_step_count [OF assms])
  obtain c1 where "sendRSTSegment e ?c (snd_nxt s) = Some c1" "sends (of_written base W fin) ?c c1"
    using sends_RST by blast
  then show ?thesis
    using snd_step_sends [OF 1(1)] snd_step_trans [OF 1(2)] snd_invD(1) [OF 1(1)] by (auto simp: abort_def)
qed

lemma handleRTO_step:
  assumes inv: "snd_inv base W fin c s"
  shows "\<exists>c1 s1. (handleRTO e c = Some c1 \<or> handleRTO e c = Some (closeDone c1)) \<and> snd_step base W fin c c1 \<and> snd_inv base W fin c1 s1"
proof (cases "snd_unacked s = []")
  case True
  then show ?thesis
    using inv snd_invD(1) [OF inv] snd_step_refl [OF inv] by (auto simp: handleRTO_def)
next
  case False
  define s1 where "s1 = (if c_zeroWindowProbing c then s else s\<lparr>snd_retries := snd_retries s + 1\<rparr>)"
  note ok = snd_invD(5) [OF inv]
  have s1: "snd_ok base W fin s1" "snd_nxt s1 = snd_nxt s"
    using snd_ok_key [OF ok, of s1] ok snd_okD(3,4) [OF ok] by (auto simp: s1_def rto_ok_def)
  have 1: "snd_inv base W fin (set_snd s1 c) s1" "snd_step base W fin c (set_snd s1 c)"
    using snd_inv_set [OF inv s1] snd_step_set [OF inv s1] by auto
  let ?f = "\<lambda>st. st\<lparr>ts_Retransmits := ts_Retransmits st + 1\<rparr>"
  let ?d = "tcp_count ?f (set_snd (rto_sender s1) (set_snd s1 c))"
  have 2: "snd_inv base W fin (set_snd (rto_sender s1) (set_snd s1 c)) (rto_sender s1)" "snd_step base W fin (set_snd s1 c) (set_snd (rto_sender s1) (set_snd s1 c))"
    using snd_inv_set [OF 1(1) rto_sender_ok [OF s1(1)]] snd_step_set [OF 1(1) rto_sender_ok [OF s1(1)]] by auto
  have 3: "snd_inv base W fin ?d (rto_sender s1)" "snd_step base W fin c ?d"
    using snd_inv_count [OF 2(1)] snd_step_trans [OF snd_step_trans [OF 1(2) 2(2)] snd_step_count [OF 2(1)]] by auto
  have zp: "c_zeroWindowProbing (set_snd s1 c) = c_zeroWindowProbing c"
    by (simp add: set_snd_def)
  have start: "handleRTO e c = (if \<not> c_zeroWindowProbing c \<and> snd_retries s1 > snd_maxRetries s1 then abort e (set_snd s1 c) else retransmitOldest e ?d)"
    using False snd_invD(1) [OF inv] zp unfolding handleRTO_def Let_def by (cases "c_zeroWindowProbing c") (simp_all add: s1_def)
  show ?thesis
  proof (cases "\<not> c_zeroWindowProbing c \<and> snd_retries s1 > snd_maxRetries s1")
    case True
    then show ?thesis
      using start abort_step [OF 1(1), of e] snd_step_trans [OF 1(2)] by auto
  next
    case False
    then show ?thesis
      using start retransmitOldest_step [OF 3(1), of e] snd_step_trans [OF 3(2)] by auto
  qed
qed

section \<open>Selective acknowledgements\<close>

lemma processSACKBlocks_ok:
  assumes "snd_ok base W fin s"
  shows "snd_ok base W fin (processSACKBlocks blocks ack s)" "snd_nxt (processSACKBlocks blocks ack s) = snd_nxt s"
proof -
  let ?s = "processSACKBlocks blocks ack s"
  have key: "us_key (sack_mark bs u) = us_key u" for bs u
    by (simp add: sack_mark_def us_key_def)
  have "map us_key (snd_unacked ?s) = map us_key (snd_unacked s)"
    by (simp add: processSACKBlocks_def key split: list.split)
  moreover have "snd_mss ?s = snd_mss s" "snd_ssthresh ?s = snd_ssthresh s" "rto_ok ?s = rto_ok s"
    by (simp_all add: processSACKBlocks_def rto_ok_def split: list.split)
  ultimately show "snd_ok base W fin ?s"
    using snd_ok_key [OF assms] snd_okD(3,4) [OF assms] by simp
  show "snd_nxt ?s = snd_nxt s"
    by (simp add: processSACKBlocks_def split: list.split)
qed

lemma sackLoss_round_step:
  assumes inv: "snd_inv base W fin c s" and i: "i < length (snd_unacked s)"
  shows "\<exists>c' s'. sackLoss_round e i c = Some c' \<and> snd_step base W fin c c' \<and> snd_inv base W fin c' s' \<and>
    length (snd_unacked s') = length (snd_unacked s)"
proof -
  let ?u = "snd_unacked s ! i"
  note ok = snd_invD(5) [OF inv]
  have c: "c_snd c = Some s"
    by (rule snd_invD(1) [OF inv])
  show ?thesis
  proof (cases "us_sacked ?u \<or> us_retransmitted ?u \<or> length (filter us_sacked (drop (i + 1) (snd_unacked s))) < 3")
    case True
    then show ?thesis
      using c inv snd_step_refl [OF inv] by (auto simp: sackLoss_round_def Let_def)
  next
    case False
    then have "\<not> us_fin ?u"
      using queue_ok_fin(2) [OF snd_okD(5) [OF ok] i] by auto
    from queue_ok_data [OF snd_okD(5) [OF ok] i this]
    obtain ref d where d: "us_ref ?u = Some ref" "RefBuf_Bytes ref = Some d" "length d \<le> 1460" "of_written base W fin (us_seq ?u) d False"
      by blast
    note r = resent_ok [OF ok i, of e]
    have 1: "snd_inv base W fin (set_snd (resent e i s) c) (resent e i s)" "snd_step base W fin c (set_snd (resent e i s) c)"
      using snd_inv_set [OF inv r(1,2)] snd_step_set [OF inv r(1,2)] by auto
    have "sackLoss_round e i c = resend_data e (set_snd (resent e i s) c) ?u"
      using False c mark_resent_eq [OF c, of e i] by (simp add: sackLoss_round_def)
    moreover have "length (snd_unacked (resent e i s)) = length (snd_unacked s)"
      by (simp add: resent_def)
    ultimately show ?thesis
      using resend_data_step [OF 1(1) d, of e] snd_step_trans [OF 1(2)] by auto
  qed
qed

lemma sackLoss_iterate:
  assumes "snd_inv base W fin c s" "list_all (\<lambda>i. i < length (snd_unacked s)) is"
  shows "\<exists>c' s'. iterate (sackLoss_round e) is c = Some c' \<and> snd_step base W fin c c' \<and> snd_inv base W fin c' s'"
  using assms
proof (induction "is" arbitrary: c s)
  case Nil
  then show ?case
    using snd_step_refl by auto
next
  case (Cons i "is")
  have "i < length (snd_unacked s)"
    using Cons.prems(2) by simp
  from sackLoss_round_step [OF Cons.prems(1) this, of e]
  obtain c1 s1 where 1: "sackLoss_round e i c = Some c1" "snd_step base W fin c c1" "snd_inv base W fin c1 s1"
      "length (snd_unacked s1) = length (snd_unacked s)"
    by blast
  with Cons.IH [OF 1(3)] Cons.prems(2) show ?case
    using snd_step_trans [OF 1(2)] by auto
qed

lemma sackLossDetection_step:
  assumes "snd_inv base W fin c s"
  shows "\<exists>c' s'. sackLossDetection e c = Some c' \<and> snd_step base W fin c c' \<and> snd_inv base W fin c' s'"
  using sackLoss_iterate [OF assms, of "[0..<length (snd_unacked s)]" e] snd_invD(1) [OF assms]
  by (simp add: sackLossDetection_def list_all_iff)

section \<open>New data\<close>

lemma of_written_take:
  assumes "m + k \<le> length W"
  shows "of_written base W fin (seq_at base m) (take k (drop m W)) False"
  using assms unfolding of_written_def by (intro exI [of _ m]) (simp add: min_def)

text \<open>Taking \<open>k\<close> bytes from the write buffer.\<close>

lemma take_data:
  assumes inv: "snd_inv base W fin c s" and k: "0 < k"
  obtains wb d where "ReadNoBlock (c_writeBuf c) k = Some (wb, d)" "d = take k (contents (c_writeBuf c))"
    "rb_inv wb" "rb_closed wb = rb_closed (c_writeBuf c)" "contents wb = drop (length d) (contents (c_writeBuf c))"
    "d \<noteq> [] \<Longrightarrow> of_written base W fin (snd_nxt s) d False" "snd_stream base W fin wb (snd_nxt s + of_nat (length d))" "d \<noteq> [] \<Longrightarrow> \<not> fin"
proof -
  note i = snd_invD [OF inv]
  obtain wb where wb: "ReadNoBlock (c_writeBuf c) k = Some (wb, take k (contents (c_writeBuf c)))" "rb_inv wb"
      "contents wb = drop k (contents (c_writeBuf c))" "rb_closed wb = rb_closed (c_writeBuf c)"
    by (rule ReadNoBlock_spec [OF i(4) k])
  obtain m where m: "m \<le> length W" "contents (c_writeBuf c) = drop m W" "snd_nxt s = seq_at base (m + (if fin then 1 else 0))"
      "fin \<longrightarrow> m = length W"
    using i(6) unfolding snd_stream_def by blast
  define d where "d = take k (contents (c_writeBuf c))"
  have d: "d = take (length d) (drop m W)" "m + length d \<le> length W"
    using m(1,2) unfolding d_def by (cases "k \<le> length W - m"; simp)+
  have nf: "\<not> fin" if "d \<noteq> []"
    using that m unfolding d_def by auto
  have rest: "contents wb = drop (length d) (contents (c_writeBuf c))"
    using wb(3) unfolding d_def by (simp add: min_def)
  have "of_written base W fin (snd_nxt s) d False" if "d \<noteq> []"
    using of_written_take [OF d(2), of base] m(3) nf [OF that] unfolding d(1) [symmetric] by simp
  moreover have "snd_stream base W fin wb (snd_nxt s + of_nat (length d))"
  proof (cases "d = []")
    case True
    then show ?thesis
      using rest i(6) unfolding snd_stream_def by simp
  next
    case False
    have "contents wb = drop (m + length d) W"
      using rest m(2) by (simp add: add.commute)
    moreover have "snd_nxt s + of_nat (length d) = seq_at base (m + length d)"
      using m(3) nf [OF False] by (simp add: seq_at_add)
    ultimately show ?thesis
      using d(2) nf [OF False] unfolding snd_stream_def by (intro exI [of _ "m + length d"]) simp
  qed
  ultimately show thesis
    using that [OF wb(1) [folded d_def] d_def wb(2,4) rest] nf by blast
qed

lemma snd_ok_recorded:
  assumes "snd_ok base W fin s" "\<not> fin" "list_all (unacked_ok (of_written base W fin)) us" "list_all (\<lambda>u. \<not> us_fin u) us"
  shows "snd_ok base W fin (s\<lparr>snd_unacked := snd_unacked s @ us, snd_nxt := n\<rparr>)"
  using assms queue_ok_append [of "of_written base W fin" "snd_unacked s" us] unfolding snd_ok_def rto_ok_def by simp

text \<open>The sender after \<open>n\<close> new bytes were sent and recorded.\<close>

definition sent_new :: "nat \<Rightarrow> sender \<Rightarrow> sender \<Rightarrow> bool" where
  "sent_new n s s' \<longleftrightarrow> (\<exists>us. s' = s\<lparr>snd_unacked := snd_unacked s @ us, snd_nxt := snd_nxt s + of_nat n\<rparr>)"

lemma sent_new_0 [simp]: "sent_new 0 s s"
  unfolding sent_new_def by (intro exI [of _ "[]"]) simp

lemma sent_newI: "sent_new n s (s\<lparr>snd_unacked := snd_unacked s @ us, snd_nxt := snd_nxt s + of_nat n\<rparr>)"
  unfolding sent_new_def by blast

lemma sent_newD:
  assumes "sent_new n s s'"
  shows "snd_nxt s' = snd_nxt s + of_nat n" "snd_una s' = snd_una s" "snd_wnd s' = snd_wnd s" "snd_cwnd s' = snd_cwnd s"
    "snd_mss s' = snd_mss s"
  using assms by (auto simp: sent_new_def)

text \<open>Bytes were taken from the write buffer, sent and recorded.\<close>

lemma snd_inv_sent:
  assumes inv: "snd_inv base W fin c s" and nf: "\<not> fin" and us: "list_all (unacked_ok (of_written base W fin)) us" "list_all (\<lambda>u. \<not> us_fin u) us"
    and wb: "rb_inv wb" "snd_stream base W fin wb n" "rb_closed wb = rb_closed (c_writeBuf c)" and c1: "same_out (c\<lparr>c_writeBuf := wb, c_snd := Some s1\<rparr>) c1"
    and out: "ext_out (of_written base W fin) c c1" and s': "s' = s\<lparr>snd_unacked := snd_unacked s @ us, snd_nxt := n\<rparr>"
  shows "snd_inv base W fin (set_snd s' c1) s'" "snd_step base W fin c (set_snd s' c1)" "c_writeBuf (set_snd s' c1) = wb"
proof -
  have f: "c_rcv c1 = c_rcv (c\<lparr>c_writeBuf := wb, c_snd := Some s1\<rparr>)" "c_readBuf c1 = c_readBuf (c\<lparr>c_writeBuf := wb, c_snd := Some s1\<rparr>)"
      "c_writeBuf c1 = c_writeBuf (c\<lparr>c_writeBuf := wb, c_snd := Some s1\<rparr>)"
    by (rule same_outD [OF c1])+
  show "c_writeBuf (set_snd s' c1) = wb"
    using f by (simp add: set_snd_def)
  have "snd_ok base W fin s'"
    unfolding s' by (rule snd_ok_recorded [OF snd_invD(5) [OF inv] nf us])
  then show inv': "snd_inv base W fin (set_snd s' c1) s'"
    using inv wb f s' by (simp add: snd_inv_def set_snd_def)
  have "same_snd c (set_snd s' c1)"
    using same_snd_trans [OF same_snd_trans [OF same_snd_trans [OF same_snd_buf [OF wb(3)] same_snd_updates(1)] same_out_snd [OF c1]]
      same_snd_updates(2)] by simp
  moreover have "ext_out (of_written base W fin) c (set_snd s' c1)"
    using out by (simp add: ext_out_def)
  ultimately show "snd_step base W fin c (set_snd s' c1)"
    using inv' by (auto simp: snd_step_def)
qed

lemma snd_inv_buf:
  assumes inv: "snd_inv base W fin c s" and wb: "rb_inv wb" "snd_stream base W fin wb (snd_nxt s)" "rb_closed wb = rb_closed (c_writeBuf c)"
  shows "snd_inv base W fin (c\<lparr>c_writeBuf := wb\<rparr>) s" "snd_step base W fin c (c\<lparr>c_writeBuf := wb\<rparr>)"
proof -
  show "snd_inv base W fin (c\<lparr>c_writeBuf := wb\<rparr>) s"
    using assms by (simp add: snd_inv_def)
  then show "snd_step base W fin c (c\<lparr>c_writeBuf := wb\<rparr>)"
    using same_snd_buf [OF wb(3)] by (auto simp: snd_step_def intro: ext_out_refl)
qed

lemma filled_ref:
  assumes "length d \<le> length arr"
  shows "RefBuf_Bytes (SetLen ((GetRefBuf arr)\<lparr>ref_buf := overwrite arr 0 d\<rparr>) (length d)) = Some d"
  using assms by (simp add: RefBuf_Bytes_def SetLen_def GetRefBuf_def overwrite_fits subslice_def)

lemma send_new_step:
  assumes inv: "snd_inv base W fin c s" and e: "env_ok e" and seg: "0 < segSize" "segSize \<le> 1460"
  shows "\<exists>c' s'. send_new e segSize c = Some (c', contents (c_writeBuf c) \<noteq> []) \<and> snd_step base W fin c c' \<and> snd_inv base W fin c' s' \<and>
    contents (c_writeBuf c') = drop (nat segSize) (contents (c_writeBuf c)) \<and>
    sent_new (length (take (nat segSize) (contents (c_writeBuf c)))) s s'"
proof -
  let ?arr = "e_payloads e (length (c_out c))"
  have k: "0 < nat segSize" "nat segSize \<le> length ?arr"
    using seg e by (auto simp: env_ok_def MaxPayloadSize_def intro: order_trans [of _ 1500])
  obtain wb d where wb: "ReadNoBlock (c_writeBuf c) (nat segSize) = Some (wb, d)" and d: "d = take (nat segSize) (contents (c_writeBuf c))"
      and w: "rb_inv wb" "rb_closed wb = rb_closed (c_writeBuf c)" "contents wb = drop (length d) (contents (c_writeBuf c))" "d \<noteq> [] \<Longrightarrow> of_written base W fin (snd_nxt s) d False"
        "snd_stream base W fin wb (snd_nxt s + of_nat (length d))" "d \<noteq> [] \<Longrightarrow> \<not> fin"
    by (rule take_data [OF inv k(1)]) (rule that; blast)
  have rest: "contents wb = drop (nat segSize) (contents (c_writeBuf c))"
    using w(3) d by (simp add: min_def)
  have ld: "length d \<le> 1460" "length d \<le> length ?arr"
    using d seg k(2) by auto
  let ?ref = "SetLen ((GetRefBuf ?arr)\<lparr>ref_buf := overwrite ?arr 0 d\<rparr>) (length d)"
  have bs: "RefBuf_Bytes ?ref = Some d"
    by (rule filled_ref [OF ld(2)])
  have ref: "ref_buf (GetRefBuf ?arr) = ?arr"
    by (simp add: GetRefBuf_def)
  show ?thesis
  proof (cases "d = []")
    case True
    then have "contents (c_writeBuf c) = []"
      using d k(1) by simp
    then show ?thesis
      using snd_inv_buf [OF inv w(1)] w(5,2) True seg(1) k(2) wb rest ref by (auto simp: send_new_def subslice_def)
  next
    case False
    let ?c = "c\<lparr>c_writeBuf := wb\<rparr>"
    have ne: "contents (c_writeBuf c) \<noteq> []"
      using False d by auto
    have i: "rb_inv (c_readBuf ?c)" "c_rcv ?c \<noteq> None"
      using snd_invD(2,3) [OF inv] by simp_all
    obtain c1 where c1: "sendData e ?c d (snd_nxt s) = Some c1" "sends (of_written base W fin) ?c c1"
      using sends_sendData [OF i, of d "of_written base W fin" "snd_nxt s" e] ld(1) w(4) by auto
    have s1: "c_snd c1 = Some s"
      using same_outD [of ?c c1] c1(2) snd_invD(1) [OF inv] by (simp add: sends_def)
    let ?us = "[sent_segment (e_now e) (snd_nxt s) (Some (IncRef ?ref)) False]"
    let ?s = "s\<lparr>snd_unacked := snd_unacked s @ ?us, snd_nxt := snd_nxt s + of_nat (length d)\<rparr>"
    have "RefBuf_Bytes (IncRef ?ref) = Some d"
      using bs by (simp add: RefBuf_Bytes_def IncRef_def)
    then have us: "list_all (unacked_ok (of_written base W fin)) ?us" "list_all (\<lambda>u. \<not> us_fin u) ?us"
      using ld(1) w(4) [OF False] by (simp_all add: unacked_ok_def sent_segment_def)
    have c: "?c\<lparr>c_snd := Some s\<rparr> = ?c"
      using snd_invD(1) [OF inv] by simp
    have "same_out (?c\<lparr>c_snd := Some s\<rparr>) c1" "ext_out (of_written base W fin) c c1"
      using c1(2) unfolding c by (simp_all add: sends_def ext_out_def)
    from snd_inv_sent [OF inv w(6) [OF False] us w(1,5,2) this refl] 
    show ?thesis
      using wb c1(1) bs seg(1) k(2) False s1 rest ref ne snd_invD(1) [OF inv]
        sent_newI [of "length d" s ?us]
      by (auto simp: send_new_def subslice_def recordSent_def d [symmetric])
  qed
qed

lemma of_written_split:
  assumes "of_written base W fin seq d False" "n \<le> length d"
  shows "of_written base W fin seq (take n d) False" "of_written base W fin (seq + of_nat n) (drop n d) False"
proof -
  obtain k where k: "seq = seq_at base k" "k + length d \<le> length W" "d = take (length d) (drop k W)"
    using assms(1) unfolding of_written_def by blast
  have "take n d = take n (take (length d) (drop k W))" "drop n d = drop n (take (length d) (drop k W))"
    by (rule arg_cong [OF k(3)])+
  then have "take n d = take n (drop k W)" "drop n d = take (length d - n) (drop (k + n) W)"
    using assms(2) by (simp_all add: drop_take add.commute min_absorb1)
  then show "of_written base W fin seq (take n d) False" "of_written base W fin (seq + of_nat n) (drop n d) False"
    using of_written_take [of k n W base] of_written_take [of "k + n" "length d - n" W base] k(1,2) assms(2)
    by (simp_all add: seq_at_add)
qed

lemma gso_segments_ok:
  assumes "of_written base W fin seq d False" "0 < mss" "mss \<le> 1460" "env_ok e"
  shows "\<exists>us. gso_segments e k seq d mss = Some us \<and> list_all (unacked_ok (of_written base W fin)) us \<and> list_all (\<lambda>u. \<not> us_fin u) us"
  using assms
proof (induction e k seq d mss rule: gso_segments.induct)
  case (1 e k seq d mss)
  show ?case
  proof (cases "d = []")
    case True
    then show ?thesis
      by (simp add: gso_segments.simps)
  next
    case False
    define n where "n = min (length d) (nat mss)"
    let ?arr = "e_payloads e k"
    let ?ref = "SetLen ((GetRefBuf ?arr)\<lparr>ref_buf := overwrite ?arr 0 (take n d)\<rparr>) n"
    have n: "n \<le> length d" "n \<le> 1460" "n \<le> length ?arr" "length (take n d) = n"
      using "1.prems"(3,4) unfolding n_def by (auto simp: env_ok_def MaxPayloadSize_def intro: order_trans [of _ 1500])
    note s = of_written_split [OF "1.prems"(1) n(1)]
    obtain us where us: "gso_segments e (k + 1) (seq + of_nat n) (drop n d) mss = Some us"
        "list_all (unacked_ok (of_written base W fin)) us" "list_all (\<lambda>u. \<not> us_fin u) us"
      using "1.IH" [OF False _ n_def refl _ refl] "1.prems" s(2) n(3) by (auto simp: GetRefBuf_def subslice_def)
    have "RefBuf_Bytes ?ref = Some (take n d)"
      using filled_ref [of "take n d" ?arr] n by simp
    then have "unacked_ok (of_written base W fin) (sent_segment (e_now e) seq (Some ?ref) False)"
      using s(1) n(2,4) by (simp add: unacked_ok_def sent_segment_def)
    moreover have "gso_segments e k seq d mss = Some (sent_segment (e_now e) seq (Some ?ref) False # us)"
      using False "1.prems"(2) us(1) n(3) by (subst gso_segments.simps) (simp add: n_def [symmetric] Let_def GetRefBuf_def subslice_def)
    ultimately show ?thesis
      using us(2,3) by (simp add: sent_segment_def)
  qed
qed

lemma send_new_gso_step:
  assumes inv: "snd_inv base W fin c s" and e: "env_ok e" and seg: "0 < gsoSize" "gsoSize \<le> 0xffff - int (gsoDataOffset c)"
  shows "\<exists>c' s'. send_new_gso e gsoSize c = Some (c', contents (c_writeBuf c) \<noteq> []) \<and> snd_step base W fin c c' \<and> snd_inv base W fin c' s' \<and>
    contents (c_writeBuf c') = drop (nat gsoSize) (contents (c_writeBuf c)) \<and>
    sent_new (length (take (nat gsoSize) (contents (c_writeBuf c)))) s s'"
proof -
  let ?buf = "e_gsoBufs e (length (c_out c))" and ?off = "gsoDataOffset c"
  have k: "0 < nat gsoSize" "?off + nat gsoSize \<le> 65535" "length ?buf = 65536"
    using seg e by (auto simp: env_ok_def GSOBufSize_def)
  obtain wb d where wb: "ReadNoBlock (c_writeBuf c) (nat gsoSize) = Some (wb, d)" and d: "d = take (nat gsoSize) (contents (c_writeBuf c))"
      and w: "rb_inv wb" "rb_closed wb = rb_closed (c_writeBuf c)" "contents wb = drop (length d) (contents (c_writeBuf c))" "d \<noteq> [] \<Longrightarrow> of_written base W fin (snd_nxt s) d False"
        "snd_stream base W fin wb (snd_nxt s + of_nat (length d))" "d \<noteq> [] \<Longrightarrow> \<not> fin"
    by (rule take_data [OF inv k(1)]) (rule that; blast)
  have rest: "contents wb = drop (nat gsoSize) (contents (c_writeBuf c))"
    using w(3) d by (simp add: min_def)
  have ld: "?off + length d \<le> 65535"
    using d k(2) by auto
  have sub: "subslice ?buf ?off (?off + nat gsoSize) = Some (take (nat gsoSize) (drop ?off ?buf))"
    using k by (simp add: subslice_def)
  show ?thesis
  proof (cases "d = []")
    case True
    then have "contents (c_writeBuf c) = []"
      using d k(1) by simp
    then show ?thesis
      using snd_inv_buf [OF inv w(1)] w(5,2) True seg(1) sub wb rest by (auto simp: send_new_gso_def)
  next
    case False
    let ?c = "c\<lparr>c_writeBuf := wb\<rparr>"
    note ok = snd_invD(5) [OF inv]
    have ne: "contents (c_writeBuf c) \<noteq> []"
      using False d by auto
    obtain us where us: "gso_segments e (length (c_out c)) (snd_nxt s) d (snd_mss s) = Some us"
        "list_all (unacked_ok (of_written base W fin)) us" "list_all (\<lambda>u. \<not> us_fin u) us"
      using gso_segments_ok [OF w(4) [OF False] snd_okD(1,2) [OF ok] e] by blast
    let ?s1 = "s\<lparr>snd_unacked := snd_unacked s @ us\<rparr>"
    let ?c1 = "set_snd ?s1 ?c"
    obtain r where r: "c_rcv ?c1 = Some r"
      using snd_invD(2) [OF inv] by (auto simp: set_snd_def)
    obtain wnd where wnd: "rcv_wnd ?c1 = Some wnd"
      using rcv_wnd_total [of ?c1] snd_invD(3) [OF inv] by (auto simp: set_snd_def)
    have off: "?off = 40 + length (ts_bytes e ?c1)"
      by (simp add: gsoDataOffset_def length_ts_bytes set_snd_def IPv4MinHeaderSize_def TCPMinHeaderSize_def)
    have buf: "overwrite ?buf ?off d = take 20 ?buf @ take (20 + length (ts_bytes e ?c1)) (drop 20 ?buf) @ d @ drop (?off + length d) ?buf"
    proof -
      have "20 + (20 + length (ts_bytes e ?c1)) = ?off"
        unfolding off by simp
      then have "take ?off ?buf = take 20 ?buf @ take (20 + length (ts_bytes e ?c1)) (drop 20 ?buf)"
        using take_add [of 20 "20 + length (ts_bytes e ?c1)" ?buf] by simp
      then show ?thesis
        using k(3) ld overwrite_fits [of ?off d ?buf] by simp
    qed
    obtain c1 where c1: "sendDataGSO e ?c1 (overwrite ?buf ?off d) (length d) (snd_nxt s) = Some c1"
        "sent_gso ?c1 c1 (conn_fields ?c1 (snd_nxt s) (rcv_nxt r) TCPFlagACK wnd (ts_bytes e ?c1)) (ts_bytes e ?c1) d (snd_mss ?s1)"
      unfolding buf using sendDataGSO_sent [OF wnd r, of ?s1 "take 20 ?buf" "take (20 + length (ts_bytes e ?c1)) (drop 20 ?buf)" e d] k(3) off ld
      by (auto simp: set_snd_def)
    have same: "same_out ?c1 c1"
      using c1(2) by (simp add: sent_gso_def)
    have "ext_out (of_written base W fin) ?c1 c1"
      by (rule sent_gso_out [OF c1(2)]) (use off ld w(4) False in \<open>auto simp: length_ts_bytes\<close>)
    then have out: "ext_out (of_written base W fin) c c1"
      by (simp add: ext_out_def set_snd_def)
    have "c_snd c1 = c_snd ?c1"
      by (rule same_outD [OF same])
    then have s1: "c_snd c1 = Some ?s1"
      by (simp add: set_snd_def)
    from snd_inv_sent [OF inv w(6) [OF False] us(2,3) w(1,5,2) same [unfolded set_snd_def] out refl]
    show ?thesis
      using wb c1(1) seg(1) sub False s1 rest ne snd_invD(1) [OF inv] us(1)
        sent_newI [of "length d" s us]
      by (auto simp: send_new_gso_def recordSentGSO_def d [symmetric])
  qed
qed

section \<open>Sending what the windows allow\<close>

definition flight :: "sender \<Rightarrow> int" where
  "flight s = uint (snd_nxt s - snd_una s)"

lemma flight_sent:
  assumes "sent_new n s s'" "flight s + int n \<le> uint (w :: u32)"
  shows "flight s' = flight s + int n"
proof -
  have "snd_nxt s' - snd_una s' = (snd_nxt s - snd_una s) + of_nat n"
    using sent_newD [OF assms(1)] by simp
  moreover have "uint (snd_nxt s - snd_una s) + int n < 2 ^ 32" "int n < 2 ^ 32"
    using assms(2) uint_bounded [of w] uint_nonnegative [of "snd_nxt s - snd_una s"] unfolding flight_def
    by (simp_all, linarith)
  ultimately show ?thesis
    unfolding flight_def by (simp add: uint_word_ariths unsigned_of_nat take_bit_eq_mod)
qed

text \<open>How much the sender may have outstanding; \<open>sendPending\<close> never sends beyond it.\<close>

definition window :: "sender \<Rightarrow> int" where
  "window s = min (uint (snd_cwnd s)) (uint (snd_wnd s))"

definition within_window :: "sender \<Rightarrow> sender \<Rightarrow> bool" where
  "within_window s s' \<longleftrightarrow> window s' = window s \<and> flight s' \<le> max (flight s) (window s)"

lemma within_window_sent:
  assumes "sent_new n s s'" "int n \<le> max 0 (window s - flight s)"
  shows "within_window s s'"
proof (cases "n = 0")
  case True
  then show ?thesis
    using assms sent_newD [OF assms(1)] by (simp add: within_window_def window_def flight_def)
next
  case False
  then have "flight s + int n \<le> window s"
    using assms(2) by simp
  then show ?thesis
    using flight_sent [OF assms(1), of "snd_wnd s"] sent_newD [OF assms(1)] by (simp add: within_window_def window_def)
qed

lemma within_window_trans: "within_window a b \<Longrightarrow> within_window b c \<Longrightarrow> within_window a c"
  by (auto simp: within_window_def)

lemma length_taken: "0 < n \<Longrightarrow> n \<le> w \<Longrightarrow> int (length (take (nat n) q)) \<le> (w :: int)"
  by (simp add: min_def split: if_split) linarith

lemma sendPending_round_step:
  assumes inv: "snd_inv base W fin c s" and e: "env_ok e"
  shows "\<exists>c' b s'. sendPending_round e c = Some (c', b) \<and> snd_step base W fin c c' \<and> snd_inv base W fin c' s' \<and>
    (b \<longrightarrow> length (contents (c_writeBuf c')) < length (contents (c_writeBuf c))) \<and> within_window s s'"
proof -
  define w where "w = effectiveWindow s"
  let ?q = "contents (c_writeBuf c)"
  define a where "a = (if w \<le> 0 then 0 else length ?q)"
  have len: "(if w \<le> 0 then Some 0 else Len (c_writeBuf c)) = Some a"
    using Len_eq [OF snd_invD(4) [OF inv]] by (simp add: a_def)
  have start: "sendPending_round e c = (if sendPending_stops c s w (int a) then Some (c, False)
      else if e_gso e \<and> int a > snd_mss s \<and> w > snd_mss s
      then send_new_gso e (min w (min (int a) (min (e_gsoMaxSize e)
            (min (0xffff - int (gsoDataOffset c)) (int GSOBufSize - int (gsoDataOffset c)))))) c
      else send_new e (min (min w (int a)) (snd_mss s)) c)"
    using snd_invD(1) [OF inv] len by (simp add: sendPending_round_def w_def [symmetric])
  have weq: "w = window s - flight s"
    by (simp add: w_def effectiveWindow_def window_def flight_def)
  have refl: "within_window s s"
    by (simp add: within_window_def)
  show ?thesis
  proof (cases "sendPending_stops c s w (int a)")
    case True
    then show ?thesis
      using start snd_step_refl [OF inv] inv refl by auto
  next
    case False
    then have pos: "0 < w" "0 < int a"
      by (auto simp: sendPending_stops_def)
    then have q: "?q \<noteq> []"
      by (auto simp: a_def)
    note mss = snd_okD(1,2) [OF snd_invD(5) [OF inv]]
    have finish: ?thesis if r: "sendPending_round e c = Some (c', ?q \<noteq> [])" "snd_step base W fin c c'" "snd_inv base W fin c' s'"
        "contents (c_writeBuf c') = drop (nat n) ?q" "sent_new (length (take (nat n) ?q)) s s'" and n: "0 < n" "n \<le> w" for n c' s'
    proof -
      have "within_window s s'"
        by (rule within_window_sent [OF r(5)]) (use length_taken [OF n, of ?q] in \<open>simp add: weq\<close>)
      moreover have "length (contents (c_writeBuf c')) < length ?q"
        unfolding r(4) using n(1) q by (cases ?q) auto
      ultimately show ?thesis
        using r(1-3) by blast
    qed
    show ?thesis
    proof (cases "e_gso e \<and> int a > snd_mss s \<and> w > snd_mss s")
      case True
      define n where "n = min w (min (int a) (min (e_gsoMaxSize e) (min (0xffff - int (gsoDataOffset c)) (int GSOBufSize - int (gsoDataOffset c)))))"
      have "gsoDataOffset c \<le> 52"
        by (simp add: gsoDataOffset_def IPv4MinHeaderSize_def TCPMinHeaderSize_def)
      then have n: "0 < n" "n \<le> 0xffff - int (gsoDataOffset c)" "n \<le> w"
        using pos e True by (auto simp: env_ok_def GSOBufSize_def n_def)
      have "sendPending_round e c = send_new_gso e n c"
        using start False True unfolding n_def by simp
      then show ?thesis
        using send_new_gso_step [OF inv e n(1,2)] finish [OF _ _ _ _ _ n(1,3)] by fastforce
    next
      case no_gso: False
      define n where "n = min (min w (int a)) (snd_mss s)"
      have n: "0 < n" "n \<le> 1460" "n \<le> w"
        using pos mss by (auto simp: n_def)
      have "sendPending_round e c = send_new e n c"
        using start False no_gso unfolding n_def by simp
      then show ?thesis
        using send_new_step [OF inv e n(1,2)] finish [OF _ _ _ _ _ n(1,3)] by fastforce
    qed
  qed
qed

lemma sendPending_step:
  assumes "snd_inv base W fin c s" and e: "env_ok e"
  shows "\<exists>c' s'. sendPending e c = Some c' \<and> snd_step base W fin c c' \<and> snd_inv base W fin c' s' \<and> within_window s s'"
  using assms(1)
proof (induction "length (contents (c_writeBuf c))" arbitrary: c s rule: less_induct)
  case less
  obtain c1 b s1 where 1: "sendPending_round e c = Some (c1, b)" "snd_step base W fin c c1" "snd_inv base W fin c1 s1"
      "b \<longrightarrow> length (contents (c_writeBuf c1)) < length (contents (c_writeBuf c))" "within_window s s1"
    using sendPending_round_step [OF less.prems e] by blast
  show ?case
  proof (cases b)
    case True
    obtain c2 s2 where "sendPending e c1 = Some c2" "snd_step base W fin c1 c2" "snd_inv base W fin c2 s2" "within_window s1 s2"
      using less.hyps [OF _ 1(3)] 1(4) True by blast
    then show ?thesis
      using 1 True snd_step_trans [OF 1(2)] within_window_trans [OF 1(5)] by (subst sendPending.simps) auto
  next
    case False
    then show ?thesis
      using 1 by (subst sendPending.simps) auto
  qed
qed

lemma limitedTransmit_step:
  assumes inv: "snd_inv base W fin c s" and e: "env_ok e"
  shows "\<exists>c' s'. limitedTransmit e c = Some c' \<and> snd_step base W fin c c' \<and> snd_inv base W fin c' s' \<and>
    flight s' \<le> max (flight s) (uint (snd_wnd s))"
proof -
  let ?q = "contents (c_writeBuf c)" and ?f = "flight s"
  define n where "n = min (min (int (length ?q)) (snd_mss s)) (uint (snd_wnd s) - ?f)"
  have start: "limitedTransmit e c = (if length ?q = 0 \<or> ?f \<ge> uint (snd_wnd s) \<or> n \<le> 0 then Some c
      else do { (c, _) \<leftarrow> send_new e n c; Some c })"
    using Len_eq [OF snd_invD(4) [OF inv]] snd_invD(1) [OF inv] by (simp add: limitedTransmit_def n_def flight_def Let_def)
  show ?thesis
  proof (cases "length ?q = 0 \<or> ?f \<ge> uint (snd_wnd s) \<or> n \<le> 0")
    case True
    then show ?thesis
      using start inv snd_step_refl [OF inv] by auto
  next
    case False
    have n: "0 < n" "n \<le> 1460"
      using False snd_okD(2) [OF snd_invD(5) [OF inv]] by (auto simp: n_def)
    obtain c' s' where c': "send_new e n c = Some (c', ?q \<noteq> [])" "snd_step base W fin c c'" "snd_inv base W fin c' s'"
        "sent_new (length (take (nat n) ?q)) s s'"
      using send_new_step [OF inv e n] by blast
    have "flight s + int (length (take (nat n) ?q)) \<le> uint (snd_wnd s)"
      using length_taken [OF n(1), of "uint (snd_wnd s) - ?f" ?q] by (simp add: n_def)
    then have "flight s' \<le> uint (snd_wnd s)"
      using flight_sent [OF c'(4)] by simp
    then show ?thesis
      using start False c' by auto
  qed
qed

section \<open>Acknowledgements\<close>

lemma snd_ok_counters [simp]:
  "snd_ok base W fin (s\<lparr>snd_dupACKCount := n\<rparr>) = snd_ok base W fin s" "snd_ok base W fin (s\<lparr>snd_cwnd := w\<rparr>) = snd_ok base W fin s"
  "snd_ok base W fin (s\<lparr>snd_inRecovery := b\<rparr>) = snd_ok base W fin s" "snd_ok base W fin (s\<lparr>snd_recoveryPoint := p\<rparr>) = snd_ok base W fin s"
  "snd_ok base W fin (s\<lparr>snd_una := p\<rparr>) = snd_ok base W fin s" "snd_ok base W fin (s\<lparr>snd_retries := k\<rparr>) = snd_ok base W fin s"
  "snd_ok base W fin (s\<lparr>snd_wnd := w\<rparr>) = snd_ok base W fin s" "snd_ok base W fin (s\<lparr>snd_maxWnd := w\<rparr>) = snd_ok base W fin s"
  "snd_ok base W fin (s\<lparr>snd_dsackSeen := b\<rparr>) = snd_ok base W fin s"
  by (simp_all add: snd_ok_def rto_ok_def)

lemma snd_ok_ssthresh: "snd_ok base W fin s \<Longrightarrow> t \<noteq> 0 \<Longrightarrow> snd_ok base W fin (s\<lparr>snd_ssthresh := t\<rparr>)"
  by (simp add: snd_ok_def rto_ok_def)

lemma handleDupACK_step:
  assumes inv: "snd_inv base W fin c s" and e: "env_ok e"
  shows "\<exists>c' s'. handleDupACK e c = Some c' \<and> snd_step base W fin c c' \<and> snd_inv base W fin c' s'"
proof -
  note ok = snd_invD(5) [OF inv]
  let ?s = "s\<lparr>snd_dupACKCount := snd_dupACKCount s + 1\<rparr>"
  let ?ca = "tcp_count (\<lambda>st. st\<lparr>ts_DupACKsIn := ts_DupACKsIn st + 1\<rparr>) c"
  let ?c = "set_snd ?s ?ca"
  have c0: "snd_inv base W fin ?ca s" "snd_step base W fin c ?ca"
    using snd_inv_count [OF inv] snd_step_count [OF inv] by auto
  have c: "snd_inv base W fin ?c ?s" "snd_step base W fin c ?c"
    using snd_inv_set [OF c0(1), of ?s] snd_step_trans [OF c0(2) snd_step_set [OF c0(1), of ?s]] ok by simp_all
  have snd: "c_snd ?ca = Some s"
    by (rule snd_invD(1) [OF c0(1)])
  consider "snd_inRecovery s" | "\<not> snd_inRecovery s" "snd_dupACKCount ?s \<le> 2" | "\<not> snd_inRecovery s" "snd_dupACKCount ?s = 3"
    | "\<not> snd_inRecovery s" "snd_dupACKCount ?s > 3"
    by linarith
  then show ?thesis
  proof cases
    case 1
    let ?t = "?s\<lparr>snd_cwnd := snd_cwnd s + word_of_int (snd_mss s)\<rparr>"
    have t: "snd_inv base W fin (set_snd ?t ?c) ?t" "snd_step base W fin ?c (set_snd ?t ?c)"
      using snd_inv_set [OF c(1), of ?t] snd_step_set [OF c(1), of ?t] ok by simp_all
    have "handleDupACK e c = sendPending e (set_snd ?t ?c)"
      using 1 snd by (simp add: handleDupACK_def Let_def)
    then show ?thesis
      using sendPending_step [OF t(1) e] snd_step_trans [OF snd_step_trans [OF c(2) t(2)]] by auto
  next
    case 2
    then have "handleDupACK e c = limitedTransmit e ?c"
      using snd by (simp add: handleDupACK_def Let_def)
    then show ?thesis
      using limitedTransmit_step [OF c(1) e] snd_step_trans [OF c(2)] by auto
  next
    case 3
    let ?th = "max (snd_cwnd s div 2) (2 * word_of_int (snd_mss s))"
    let ?t = "?s\<lparr>snd_ssthresh := ?th, snd_cwnd := ?th + 3 * word_of_int (snd_mss s), snd_inRecovery := True,
                snd_recoveryPoint := snd_nxt s\<rparr>"
    let ?c1 = "tcp_count (\<lambda>st. st\<lparr>ts_FastRetransmits := ts_FastRetransmits st + 1\<rparr>) ?c"
    have c1: "snd_inv base W fin ?c1 ?s" "snd_step base W fin c ?c1"
      using snd_inv_count [OF c(1)] snd_step_trans [OF c(2) snd_step_count [OF c(1)]] by auto
    have "snd_ok base W fin ?t"
      using ok ssthresh_pos [OF snd_okD(1,2) [OF ok]] by (simp add: snd_ok_ssthresh)
    then have t: "snd_inv base W fin (set_snd ?t ?c1) ?t" "snd_step base W fin ?c1 (set_snd ?t ?c1)"
      using snd_inv_set [OF c1(1), of ?t] snd_step_set [OF c1(1), of ?t] by simp_all
    have "handleDupACK e c = retransmitFirstUnSACKed e (set_snd ?t ?c1)"
      using 3 snd by (simp add: handleDupACK_def Let_def)
    then show ?thesis
      using retransmitFirstUnSACKed_step [OF t(1), of e] snd_step_trans [OF snd_step_trans [OF c1(2) t(2)]] by auto
  next
    case 4
    then have "handleDupACK e c = Some ?c"
      using snd by (simp add: handleDupACK_def Let_def)
    then show ?thesis
      using c by auto
  qed
qed

lemma grow_cwnd_ok:
  assumes "snd_ok base W fin s"
  shows "\<exists>s'. grow_cwnd n s = Some s' \<and> snd_ok base W fin s' \<and> snd_nxt s' = snd_nxt s"
proof (cases "snd_cwnd s < snd_ssthresh s")
  case True
  then show ?thesis
    using assms by (simp add: grow_cwnd_def Let_def)
next
  case False
  then have "snd_cwnd s \<noteq> 0"
    using snd_okD(3) [OF assms] by (auto simp: word_gt_0)
  then show ?thesis
    using False assms by (simp add: grow_cwnd_def Let_def)
qed

text \<open>What \<open>handleACK\<close> does with the sender once the acknowledgement is known to be new.\<close>

lemma ack_advance_step:
  assumes inv: "snd_inv base W fin c s0" and ok: "snd_ok base W fin s" "snd_nxt s = snd_nxt s0"
  shows "\<exists>c' s'. (if snd_inRecovery s then
               (if seqLessThan ack (snd_recoveryPoint s) then do {
                  c \<leftarrow> retransmitFirstUnSACKed e (set_snd s c);
                  s \<leftarrow> c_snd c;
                  Some (set_snd (s\<lparr>snd_cwnd := snd_ssthresh s, snd_dupACKCount := 0\<rparr>) c) }
                else Some (set_snd (s\<lparr>snd_inRecovery := False, snd_cwnd := snd_ssthresh s, snd_dupACKCount := 0\<rparr>) c))
             else do {
               s \<leftarrow> grow_cwnd acked (s\<lparr>snd_dupACKCount := 0\<rparr>);
               Some (set_snd s c) }) = Some c' \<and> snd_step base W fin c c' \<and> snd_inv base W fin c' s'"
    (is "\<exists>c' s'. ?f = Some c' \<and> _ c'\<and> _ c' s'")
proof -
  note set = snd_inv_set [OF inv] snd_step_set [OF inv]
  consider "snd_inRecovery s" "seqLessThan ack (snd_recoveryPoint s)" | "snd_inRecovery s" "\<not> seqLessThan ack (snd_recoveryPoint s)"
    | "\<not> snd_inRecovery s"
    by blast
  then show ?thesis
  proof cases
    case 1
    obtain c1 s1 where 1: "retransmitFirstUnSACKed e (set_snd s c) = Some c1" "snd_step base W fin (set_snd s c) c1" "snd_inv base W fin c1 s1"
      using retransmitFirstUnSACKed_step [OF set(1) [OF ok]] by blast
    let ?t = "s1\<lparr>snd_cwnd := snd_ssthresh s1, snd_dupACKCount := 0\<rparr>"
    have t: "snd_inv base W fin (set_snd ?t c1) ?t" "snd_step base W fin c1 (set_snd ?t c1)"
      using snd_inv_set [OF 1(3), of ?t] snd_step_set [OF 1(3), of ?t] snd_invD(5) [OF 1(3)] by simp_all
    have "?f = Some (set_snd ?t c1)"
      using \<open>snd_inRecovery s\<close> \<open>seqLessThan ack (snd_recoveryPoint s)\<close> 1(1) snd_invD(1) [OF 1(3)] by simp
    then show ?thesis
      using t snd_step_trans [OF snd_step_trans [OF set(2) [OF ok] 1(2)] t(2)] by blast
  next
    case 2
    let ?t = "s\<lparr>snd_inRecovery := False, snd_cwnd := snd_ssthresh s, snd_dupACKCount := 0\<rparr>"
    have "?f = Some (set_snd ?t c)"
      using 2 by simp
    then show ?thesis
      using set [of ?t] ok by auto
  next
    case 3
    obtain t where "grow_cwnd acked (s\<lparr>snd_dupACKCount := 0\<rparr>) = Some t" "snd_ok base W fin t" "snd_nxt t = snd_nxt s0"
      using grow_cwnd_ok [of base W fin "s\<lparr>snd_dupACKCount := 0\<rparr>" acked] ok by auto
    then show ?thesis
      using set [of t] 3 by auto
  qed
qed

lemma handleACK_step:
  assumes inv: "snd_inv base W fin c s" and e: "env_ok e"
  shows "\<exists>c' s'. handleACK e c ack = Some c' \<and> snd_step base W fin c c' \<and> snd_inv base W fin c' s'"
proof -
  note snd = snd_invD(1) [OF inv]
  define t where "t = removeAcked e c ack (s\<lparr>snd_una := ack, snd_retries := 0\<rparr>)"
  have t: "snd_ok base W fin t" "snd_nxt t = snd_nxt s"
    using removeAcked_ok [of base W fin "s\<lparr>snd_una := ack, snd_retries := 0\<rparr>" e c ack] snd_invD(5) [OF inv] unfolding t_def by simp_all
  consider "ack = snd_una s" | "ack \<noteq> snd_una s" "\<not> seqGreaterThan ack (snd_una s) \<or> seqGreaterThan ack (snd_nxt s)"
    | "ack \<noteq> snd_una s" "\<not> (\<not> seqGreaterThan ack (snd_una s) \<or> seqGreaterThan ack (snd_nxt s))"
    by blast
  then show ?thesis
  proof cases
    case 1
    then show ?thesis
      using handleDupACK_step [OF inv e] snd by (simp add: handleACK_def)
  next
    case 2
    then show ?thesis
      using snd inv snd_step_refl [OF inv] by (auto simp: handleACK_def)
  next
    case 3
    obtain c1 s1 where 1: "(if snd_inRecovery t then
               (if seqLessThan ack (snd_recoveryPoint t) then do {
                  c \<leftarrow> retransmitFirstUnSACKed e (set_snd t c);
                  s \<leftarrow> c_snd c;
                  Some (set_snd (s\<lparr>snd_cwnd := snd_ssthresh s, snd_dupACKCount := 0\<rparr>) c) }
                else Some (set_snd (t\<lparr>snd_inRecovery := False, snd_cwnd := snd_ssthresh t, snd_dupACKCount := 0\<rparr>) c))
             else do {
               s \<leftarrow> grow_cwnd (ack - snd_una s) (t\<lparr>snd_dupACKCount := 0\<rparr>);
               Some (set_snd s c) }) = Some c1" "snd_step base W fin c c1" "snd_inv base W fin c1 s1"
      using ack_advance_step [OF inv t] by blast
    have "handleACK e c ack = sendPending e c1"
      using 3 1(1) snd unfolding handleACK_def by (simp add: t_def [symmetric] Let_def)
    then show ?thesis
      using sendPending_step [OF 1(3) e] snd_step_trans [OF 1(2)] by auto
  qed
qed

end
