(* ===== verification/TcpConnProps.thy ===== *)
theory TcpConnProps
  imports TcpConn TcpRcvProps TcpSndProps
begin

text \<open>
  The invariant of a connection, \<open>src/transport/tcp/conn.go\<close> and its segment handlers: no event makes \<open>run\<close> panic,
  whatever the peer sends, and every segment a connection sends carries the bytes the application wrote.
\<close>

section \<open>The invariant\<close>

definition cfg_ok :: "ConnConfig \<Rightarrow> bool" where
  "cfg_ok k \<longleftrightarrow> 0 < cc_minRTO k \<and> cc_minRTO k \<le> cc_initialRTO k \<and> cc_initialRTO k \<le> cc_maxRTO k \<and> cc_initialSSThresh k \<noteq> 0 \<and>
     cc_readBufSize k \<le> 2 ^ 30 \<and> cc_maxReadBufSize k \<le> 2 ^ 30"

text \<open>A peer that uses timestamps announced a segment size that leaves room for them, or none.\<close>

definition peer_ok :: "TCPConn \<Rightarrow> bool" where
  "peer_ok c \<longleftrightarrow> (c_tsEnabled c \<longrightarrow> c_peerMSS c = 0 \<or> 12 < uint (c_peerMSS c))"

text \<open>The sequence number of the first byte the application writes.\<close>

definition snd_base :: "TCPConn \<Rightarrow> u32" where
  "snd_base c = c_iss c + 1"

text \<open>The application wrote \<open>W\<close>; \<open>fin\<close> says whether the FIN was sent.\<close>

definition snd_side :: "bytes \<Rightarrow> bool \<Rightarrow> TCPConn \<Rightarrow> bool" where
  "snd_side W fin c \<longleftrightarrow> rb_inv (c_writeBuf c) \<and> (case c_snd c of
     None \<Rightarrow> \<not> fin \<and> contents (c_writeBuf c) = W
   | Some s \<Rightarrow> snd_ok (snd_base c) W fin s \<and> snd_stream (snd_base c) W fin (c_writeBuf c) (snd_nxt s))"

text \<open>The FIN is sent at most once, and nothing is written once it is due.\<close>

definition closing_ok :: "bool \<Rightarrow> TCPConn \<Rightarrow> bool" where
  "closing_ok fin c \<longleftrightarrow> (c_closeOnce c \<longrightarrow> rb_closed (c_writeBuf c)) \<and> (c_closeCh c \<longrightarrow> c_closeOnce c) \<and>
     (fin \<or> c_finPending c \<longrightarrow> c_closeOnce c \<and> \<not> c_closeCh c) \<and> (fin \<longrightarrow> \<not> c_finPending c)"

definition inbound_ok :: "PacketBuffer \<Rightarrow> bool" where
  "inbound_ok pb \<longleftrightarrow> (case pb_bytes pb of None \<Rightarrow> False | Some d \<Rightarrow> TCPMinHeaderSize \<le> length d \<and> length d \<le> 65535)"

definition conn_rest :: "bool \<Rightarrow> TCPConn \<Rightarrow> bool" where
  "conn_rest fin c \<longleftrightarrow> closing_ok fin c \<and> cfg_ok (c_cfg c) \<and> peer_ok c \<and> list_all inbound_ok (c_inbound c)"

definition conn_base :: "bytes \<Rightarrow> bool \<Rightarrow> TCPConn \<Rightarrow> bool" where
  "conn_base W fin c \<longleftrightarrow> rb_inv (c_readBuf c) \<and> Cap (c_readBuf c) \<le> 2 ^ 30 \<and> snd_side W fin c \<and>
     (c_snd c = None \<longleftrightarrow> c_rcv c = None) \<and> (c_snd c = None \<longrightarrow> c_state c = stateSynRcvd \<or> c_state c = stateClosed) \<and>
     (c_state c = stateSynRcvd \<longrightarrow> c_snd c = None) \<and> conn_rest fin c"

definition conn_inv :: "bytes \<Rightarrow> bool \<Rightarrow> TCPConn \<Rightarrow> bool" where
  "conn_inv W fin c \<longleftrightarrow> conn_base W fin c \<and> (c_rcv c = None \<or> rcv_quiet (c_state c) \<or> rcv_live c)"

section \<open>Steps that neither take data nor change the state\<close>

definition frame :: "TCPConn \<Rightarrow> TCPConn \<Rightarrow> bool" where
  "frame c c' \<longleftrightarrow> c_flow c' = c_flow c \<and> c_iss c' = c_iss c \<and> c_state c' = c_state c \<and> c_readShutdown c' = c_readShutdown c \<and>
     c_finPending c' = c_finPending c \<and> c_closeOnce c' = c_closeOnce c \<and> c_closeCh c' = c_closeCh c \<and>
     c_tsEnabled c' = c_tsEnabled c \<and> c_peerMSS c' = c_peerMSS c \<and> c_cfg c' = c_cfg c \<and> c_inbound c' = c_inbound c \<and>
     c_irs c' = c_irs c"

lemma frame_refl [simp]: "frame c c"
  by (simp add: frame_def)

lemma frame_trans: "frame a b \<Longrightarrow> frame b c \<Longrightarrow> frame a c"
  by (simp add: frame_def)

abbreviation written :: "bytes \<Rightarrow> bool \<Rightarrow> TCPConn \<Rightarrow> seg_cond" where
  "written W fin c \<equiv> of_written (snd_base c) W fin"

definition tx :: "bytes \<Rightarrow> bool \<Rightarrow> TCPConn \<Rightarrow> TCPConn \<Rightarrow> bool" where
  "tx W fin c c' \<longleftrightarrow> frame c c' \<and> ext_out (written W fin c) c c' \<and> conn_base W fin c' \<and> (rcv_live c \<longrightarrow> rcv_live c') \<and>
     (c_snd c' = None \<longleftrightarrow> c_snd c = None)"

lemma tx_refl: "conn_base W fin c \<Longrightarrow> tx W fin c c"
  by (simp add: tx_def ext_out_refl)

lemma tx_trans:
  assumes "tx W fin a b" "tx W fin b c"
  shows "tx W fin a c"
proof -
  have "snd_base b = snd_base a" "c_flow b = c_flow a"
    using assms(1) by (simp_all add: tx_def frame_def snd_base_def)
  then show ?thesis
    using assms frame_trans [of a b c] ext_out_trans [of "written W fin a" a b c] by (simp add: tx_def)
qed

lemma txD:
  assumes "tx W fin c c'"
  shows "frame c c'" "ext_out (written W fin c) c c'" "conn_base W fin c'" "rcv_live c \<Longrightarrow> rcv_live c'"
    "c_snd c' = None \<longleftrightarrow> c_snd c = None" "c_state c' = c_state c" "c_flow c' = c_flow c" "snd_base c' = snd_base c"
  using assms by (simp_all add: tx_def frame_def snd_base_def)

lemma conn_baseD:
  assumes "conn_base W fin c"
  shows "rb_inv (c_readBuf c)" "Cap (c_readBuf c) \<le> 2 ^ 30" "snd_side W fin c" "c_snd c = None \<longleftrightarrow> c_rcv c = None"
    "c_snd c = None \<longrightarrow> c_state c = stateSynRcvd \<or> c_state c = stateClosed" "c_state c = stateSynRcvd \<longrightarrow> c_snd c = None"
    "closing_ok fin c" "cfg_ok (c_cfg c)" "peer_ok c" "list_all inbound_ok (c_inbound c)" "rb_inv (c_writeBuf c)"
    "conn_rest fin c"
  using assms by (simp_all add: conn_base_def snd_side_def conn_rest_def)

text \<open>The fields on which nothing but timing and statistics depends.\<close>

definition aux :: "TCPConn \<Rightarrow> TCPConn" where
  "aux c = c\<lparr>c_tsRecent := 0, c_tsLastAckSent := 0, c_noDelay := False, c_delayedACKTimer := None, c_unackedSegs := 0,
     c_zeroWindowTimer := None, c_zeroWindowProbing := False, c_probeInterval := 0, c_keepaliveTimer := None,
     c_keepaliveProbes := 0, c_writeNotify := False, c_windowNotify := False, c_lastWndZero := False, c_done := False,
     c_forceCloseCh := False, c_timeWaitTimer := None, c_finWait2Timer := None, c_synRcvdTimer := None, c_rtoTimer := None,
     c_stats := None, c_statsActive := False, c_snapshotData := None\<rparr>"

definition same_aux :: "TCPConn \<Rightarrow> TCPConn \<Rightarrow> bool" where
  "same_aux c c' \<longleftrightarrow> aux c' = aux c"

lemma same_auxD:
  assumes "same_aux c c'"
  shows "frame c c'" "c_snd c' = c_snd c" "c_rcv c' = c_rcv c" "c_readBuf c' = c_readBuf c" "c_writeBuf c' = c_writeBuf c"
    "c_out c' = c_out c"
proof -
  have eq: "f (aux c') = f (aux c)" for f :: "TCPConn \<Rightarrow> 'a"
    using assms by (simp add: same_aux_def)
  show "c_snd c' = c_snd c" "c_rcv c' = c_rcv c" "c_readBuf c' = c_readBuf c" "c_writeBuf c' = c_writeBuf c" "c_out c' = c_out c"
    using eq [of c_snd] eq [of c_rcv] eq [of c_readBuf] eq [of c_writeBuf] eq [of c_out] by (simp_all add: aux_def)
  show "frame c c'"
    using eq [of c_flow] eq [of c_iss] eq [of c_state] eq [of c_readShutdown] eq [of c_finPending] eq [of c_closeOnce]
      eq [of c_closeCh] eq [of c_tsEnabled] eq [of c_peerMSS] eq [of c_cfg] eq [of c_inbound] eq [of c_irs]
    by (simp add: aux_def frame_def)
qed

lemma snd_side_same:
  assumes "c_snd c' = c_snd c" "c_writeBuf c' = c_writeBuf c" "c_iss c' = c_iss c"
  shows "snd_side W fin c' = snd_side W fin c"
  using assms by (cases "c_snd c") (simp_all add: snd_side_def snd_base_def)

lemma conn_rest_same:
  assumes "c_finPending c' = c_finPending c" "c_closeOnce c' = c_closeOnce c" "c_closeCh c' = c_closeCh c"
    "c_tsEnabled c' = c_tsEnabled c" "c_peerMSS c' = c_peerMSS c" "c_cfg c' = c_cfg c" "c_inbound c' = c_inbound c"
    "rb_closed (c_writeBuf c') = rb_closed (c_writeBuf c)"
  shows "conn_rest fin c' = conn_rest fin c"
  using assms by (simp add: conn_rest_def closing_ok_def peer_ok_def)

lemma conn_base_same:
  assumes "conn_base W fin c" "frame c c'" "c_snd c' = c_snd c" "c_rcv c' = None \<longleftrightarrow> c_rcv c = None" "c_readBuf c' = c_readBuf c"
    "c_writeBuf c' = c_writeBuf c"
  shows "conn_base W fin c'"
  using assms conn_rest_same [of c' c] snd_side_same [of c' c] by (simp add: conn_base_def frame_def)

text \<open>Only the blocks to report may differ in the receiver.\<close>

lemma rcv_live_same:
  assumes "rcv_live c" "c_rcv c = Some r" "c_rcv c' = Some r'" "rcv_nxt r' = rcv_nxt r" "rcv_ooo r' = rcv_ooo r"
    "rcv_autoTune r' = rcv_autoTune r" "c_readBuf c' = c_readBuf c" "c_readShutdown c' = c_readShutdown c"
  shows "rcv_live c'"
  using assms unfolding rcv_live_def rcv_holds_def rcv_open_def rcv_slots_def by auto

lemma rcv_live_eq:
  assumes "rcv_live c" "c_rcv c' = c_rcv c" "c_readBuf c' = c_readBuf c" "c_readShutdown c' = c_readShutdown c"
  shows "rcv_live c'"
proof -
  obtain r where "c_rcv c = Some r"
    using assms(1) by (auto simp: rcv_live_def)
  then show ?thesis
    using rcv_live_same [OF assms(1), of r c' r] assms by simp
qed

lemma tx_aux:
  assumes "conn_base W fin c" "same_aux c c'"
  shows "tx W fin c c'"
proof -
  note d = same_auxD [OF assms(2)]
  have "c_readShutdown c' = c_readShutdown c"
    using d(1) by (simp add: frame_def)
  then show ?thesis
    using d conn_base_same [OF assms(1) d(1,2)] rcv_live_eq [of c c'] by (simp add: tx_def ext_out_refl)
qed

lemma same_out_frame:
  assumes "same_out c c'"
  shows "frame c c'"
proof -
  have "c_flow c' = c_flow c" "c_iss c' = c_iss c" "c_state c' = c_state c" "c_readShutdown c' = c_readShutdown c"
     "c_finPending c' = c_finPending c" "c_closeOnce c' = c_closeOnce c" "c_closeCh c' = c_closeCh c"
     "c_tsEnabled c' = c_tsEnabled c" "c_peerMSS c' = c_peerMSS c" "c_cfg c' = c_cfg c" "c_inbound c' = c_inbound c" "c_irs c' = c_irs c"
    by (rule same_outD [OF assms])+
  then show ?thesis
    by (simp add: frame_def)
qed

lemma tx_sends:
  assumes base: "conn_base W fin c" and s: "sends (written W fin c) c c'"
  shows "tx W fin c c'"
proof -
  have so: "same_out c c'"
    using s by (simp add: sends_def)
  have f: "c_snd c' = c_snd c" "c_rcv c' = c_rcv c" "c_readBuf c' = c_readBuf c" "c_writeBuf c' = c_writeBuf c"
      "c_readShutdown c' = c_readShutdown c"
    by (rule same_outD [OF so])+
  show ?thesis
    using s f conn_base_same [OF base same_out_frame [OF so] f(1)] rcv_live_eq [of c c'] same_out_frame [OF so]
    by (simp add: tx_def sends_def)
qed

lemma reported_same:
  "frame c (reported c)" "c_snd (reported c) = c_snd c" "c_rcv (reported c) = None \<longleftrightarrow> c_rcv c = None"
  "c_readBuf (reported c) = c_readBuf c" "c_writeBuf (reported c) = c_writeBuf c" "c_out (reported c) = c_out c"
  by (auto simp: reported_def frame_def split: option.split)

lemma tx_reported:
  assumes "conn_base W fin c"
  shows "tx W fin c (reported c)"
proof -
  have "rcv_live (reported c)" if l: "rcv_live c"
  proof -
    obtain r where r: "c_rcv c = Some r"
      using l by (auto simp: rcv_live_def)
    let ?r = "snd (sackBlocks (c_tsEnabled c) r)"
    have "rcv_nxt ?r = rcv_nxt r" "rcv_ooo ?r = rcv_ooo r" "rcv_autoTune ?r = rcv_autoTune r"
      by (auto simp: sackBlocks_def Let_def split: list.split)
    then show ?thesis
      using rcv_live_same [OF l r, of "c\<lparr>c_rcv := Some ?r\<rparr>" ?r] l r by (simp add: reported_def)
  qed
  then show ?thesis
    using reported_same [of c] conn_base_same [OF assms reported_same(1-5)] by (simp add: tx_def ext_out_refl)
qed

lemma sendACK_tx:
  assumes "conn_base W fin c"
  shows "\<exists>c'. sendACK e c = Some c' \<and> tx W fin c c'"
proof -
  note r = tx_reported [OF assms]
  obtain c' where c': "sendACK e c = Some c'" "sends (written W fin (reported c)) (reported c) c'"
    using sends_ACK [OF conn_baseD(1) [OF assms]] by blast
  then show ?thesis
    using tx_trans [OF r tx_sends [OF txD(3) [OF r] c'(2)]] by blast
qed

lemma sendRST_tx: "conn_base W fin c \<Longrightarrow> \<exists>c'. sendRSTSegment e c seq = Some c' \<and> tx W fin c c'"
  by (rule sends_RST [of e c seq "written W fin c"]) (blast intro: tx_sends)

lemma sendSYNACK_tx: "conn_base W fin c \<Longrightarrow> \<exists>c'. sendSYNACK e c = Some c' \<and> tx W fin c c'"
  by (rule sends_SYNACK [of e c "written W fin c"]) (blast intro: tx_sends)

lemma sendKeepalive_tx: "conn_base W fin c \<Longrightarrow> \<exists>c'. sendKeepaliveProbe e c = Some c' \<and> tx W fin c c'"
  by (rule sends_Keepalive [OF conn_baseD(1), of W fin c e "written W fin c"]) (blast intro: tx_sends)+

section \<open>Steps of the sender\<close>

lemma snd_inv_conn:
  assumes "conn_base W fin c" "c_snd c = Some s"
  shows "snd_inv (snd_base c) W fin c s"
  using conn_baseD [OF assms(1)] assms(2) by (simp add: snd_inv_def snd_side_def)

lemma tx_snd:
  assumes base: "conn_base W fin c" and st: "snd_step (snd_base c) W fin c c'" and snd: "c_snd c \<noteq> None"
  shows "tx W fin c c'"
proof -
  have same: "same_snd c c'" and ext: "ext_out (written W fin c) c c'"
    using st by (simp_all add: snd_step_def)
  obtain s' where s': "snd_inv (snd_base c) W fin c' s'"
    using st by (auto simp: snd_step_def)
  have f: "c_flow c' = c_flow c" "c_iss c' = c_iss c" "c_state c' = c_state c" "c_readShutdown c' = c_readShutdown c"
     "c_finPending c' = c_finPending c" "c_closeOnce c' = c_closeOnce c" "c_closeCh c' = c_closeCh c"
     "c_tsEnabled c' = c_tsEnabled c" "c_peerMSS c' = c_peerMSS c" "c_cfg c' = c_cfg c" "c_inbound c' = c_inbound c"
     "c_irs c' = c_irs c" "rb_closed (c_writeBuf c') = rb_closed (c_writeBuf c)" "c_rcv c' = c_rcv c" "c_readBuf c' = c_readBuf c"
    by (rule same_sndD [OF same])+
  have "snd_side W fin c'"
    using s' f(2) by (simp add: snd_side_def snd_inv_def snd_base_def)
  then have "conn_base W fin c'"
    using base f snd_invD(1) [OF s'] snd conn_rest_same [of c' c] by (simp add: conn_base_def)
  moreover have "frame c c'"
    using f by (simp add: frame_def)
  ultimately show ?thesis
    using ext f rcv_live_eq [of c c'] snd snd_invD(1) [OF s'] by (simp add: tx_def)
qed

lemma tx_set:
  assumes "conn_base W fin c" "c_snd c = Some s" "snd_ok (snd_base c) W fin s'" "snd_nxt s' = snd_nxt s"
  shows "tx W fin c (set_snd s' c)"
  using tx_snd [OF assms(1) snd_step_set [OF snd_inv_conn [OF assms(1,2)] assms(3,4)]] assms(2) by simp

lemma sendPending_tx:
  assumes "conn_base W fin c" "c_snd c \<noteq> None" "env_ok e"
  shows "\<exists>c'. sendPending e c = Some c' \<and> tx W fin c c'"
proof -
  obtain s where s: "c_snd c = Some s"
    using assms(2) by blast
  then show ?thesis
    using sendPending_step [OF snd_inv_conn [OF assms(1) s] assms(3)] tx_snd [OF assms(1) _ assms(2)] by blast
qed

lemma handleACK_tx:
  assumes "conn_base W fin c" "c_snd c \<noteq> None" "env_ok e"
  shows "\<exists>c'. handleACK e c ack = Some c' \<and> tx W fin c c'"
proof -
  obtain s where s: "c_snd c = Some s"
    using assms(2) by blast
  then show ?thesis
    using handleACK_step [OF snd_inv_conn [OF assms(1) s] assms(3)] tx_snd [OF assms(1) _ assms(2)] by blast
qed

lemma sackLossDetection_tx:
  assumes "conn_base W fin c" "c_snd c \<noteq> None"
  shows "\<exists>c'. sackLossDetection e c = Some c' \<and> tx W fin c c'"
proof -
  obtain s where s: "c_snd c = Some s"
    using assms(2) by blast
  then show ?thesis
    using sackLossDetection_step [OF snd_inv_conn [OF assms(1) s]] tx_snd [OF assms(1) _ assms(2)] by blast
qed

lemma send_new_tx:
  assumes "conn_base W fin c" "c_snd c \<noteq> None" "env_ok e" "0 < n" "n \<le> 1460"
  shows "\<exists>c' b. send_new e n c = Some (c', b) \<and> tx W fin c c'"
proof -
  obtain s where s: "c_snd c = Some s"
    using assms(2) by blast
  then show ?thesis
    using send_new_step [OF snd_inv_conn [OF assms(1) s] assms(3-5)] tx_snd [OF assms(1) _ assms(2)] by blast
qed

section \<open>Small operations\<close>

lemma same_aux_updates [simp]:
  "same_aux c c" "same_aux c (tcp_count f c)" "same_aux c (resetKeepalive e c)" "same_aux c (cancelZeroWindowProbe c)"
  "same_aux c (cancelDelayedACK c)" "same_aux c (update_tsRecent seg c)" "same_aux c (arm_rto e c)" "same_aux c (stop_or_arm_rto e c)"
  by (simp_all add: same_aux_def aux_def tcp_count_def resetKeepalive_def cancelZeroWindowProbe_def cancelDelayedACK_def
      update_tsRecent_def arm_rto_def stop_or_arm_rto_def split: option.split)

lemma same_aux_fields [simp]:
  "same_aux c (c\<lparr>c_delayedACKTimer := t\<rparr>)" "same_aux c (c\<lparr>c_unackedSegs := n\<rparr>)" "same_aux c (c\<lparr>c_zeroWindowTimer := t\<rparr>)"
  "same_aux c (c\<lparr>c_keepaliveTimer := t\<rparr>)" "same_aux c (c\<lparr>c_keepaliveProbes := n\<rparr>)" "same_aux c (c\<lparr>c_writeNotify := b\<rparr>)"
  "same_aux c (c\<lparr>c_windowNotify := b\<rparr>)" "same_aux c (c\<lparr>c_lastWndZero := b\<rparr>)" "same_aux c (c\<lparr>c_rtoTimer := t\<rparr>)"
  "same_aux c (c\<lparr>c_synRcvdTimer := t\<rparr>)" "same_aux c (c\<lparr>c_finWait2Timer := t\<rparr>)" "same_aux c (c\<lparr>c_timeWaitTimer := t\<rparr>)"
  "same_aux c (c\<lparr>c_snapshotData := sn\<rparr>)" "same_aux c (c\<lparr>c_forceCloseCh := b\<rparr>)"
  "same_aux c (c\<lparr>c_probeInterval := n, c_zeroWindowTimer := t\<rparr>)" "same_aux c (c\<lparr>c_delayedACKTimer := t, c_unackedSegs := n\<rparr>)"
  "same_aux c (c\<lparr>c_zeroWindowProbing := b, c_probeInterval := n, c_zeroWindowTimer := t\<rparr>)"
  by (simp_all add: same_aux_def aux_def)

lemma count_fields [simp]:
  "c_snd (tcp_count f c) = c_snd c" "c_rcv (tcp_count f c) = c_rcv c" "c_state (tcp_count f c) = c_state c" "c_done (tcp_count f c) = c_done c"
  by (simp_all add: tcp_count_def)

lemma updateSnapshot_tx:
  assumes "conn_base W fin c"
  shows "\<exists>c'. updateSnapshot c = Some c' \<and> tx W fin c c'"
proof -
  have "Len (c_readBuf c) = Some (length (contents (c_readBuf c)))" "Len (c_writeBuf c) = Some (length (contents (c_writeBuf c)))"
    "Free (c_readBuf c) = Some (Cap (c_readBuf c) - length (contents (c_readBuf c)))"
    using Len_eq Free_eq conn_baseD(1,11) [OF assms] by auto
  then have "\<exists>sn. updateSnapshot c = Some (c\<lparr>c_snapshotData := sn\<rparr>)"
    using rcv_wnd_total [OF conn_baseD(1) [OF assms]] by (auto simp: updateSnapshot_def Let_def split: option.split)
  then show ?thesis
    using tx_aux [OF assms] by auto
qed

lemma checkZeroWindow_tx:
  assumes "conn_base W fin c"
  shows "\<exists>c'. checkZeroWindow e c = Some c' \<and> tx W fin c c'"
proof -
  have "Len (c_writeBuf c) = Some (length (contents (c_writeBuf c)))"
    using Len_eq conn_baseD(11) [OF assms] by auto
  then have "\<exists>c'. checkZeroWindow e c = Some c' \<and> same_aux c c'"
    by (auto simp: checkZeroWindow_def split: option.split)
  then show ?thesis
    using tx_aux [OF assms] by auto
qed

lemma sendZeroWindowProbe_tx:
  assumes "conn_base W fin c" "c_snd c \<noteq> None" "env_ok e"
  shows "\<exists>c'. sendZeroWindowProbe e c = Some c' \<and> tx W fin c c'"
proof -
  let ?c = "tcp_count (\<lambda>st. st\<lparr>ts_ZeroWindowProbes := ts_ZeroWindowProbes st + 1\<rparr>) c"
  have 1: "tx W fin c ?c" "c_snd ?c \<noteq> None"
    using tx_aux [OF assms(1)] assms(2) by simp_all
  obtain c2 b where 2: "send_new e 1 ?c = Some (c2, b)" "tx W fin ?c c2"
    using send_new_tx [OF txD(3) [OF 1(1)] 1(2) assms(3), of 1] by auto
  have "sendZeroWindowProbe e c = Some (if b then c2 else cancelZeroWindowProbe c2)"
    using 1(2) 2(1) by (auto simp: sendZeroWindowProbe_def)
  moreover have "tx W fin c2 (if b then c2 else cancelZeroWindowProbe c2)"
    using tx_aux [OF txD(3) [OF 2(2)]] by simp
  ultimately show ?thesis
    using tx_trans [OF tx_trans [OF 1(1) 2(2)]] by blast
qed

lemma measureRTTM_tx:
  assumes "conn_base W fin c"
  shows "tx W fin c (measureRTTM e seg c)"
proof (cases "c_snd c")
  case (Some s)
  then show ?thesis
    using tx_set [OF assms Some] updateRTT_ok [OF snd_invD(5) [OF snd_inv_conn [OF assms Some]]] tx_refl [OF assms]
    by (auto simp: measureRTTM_def Let_def)
qed (use tx_refl [OF assms] in \<open>simp add: measureRTTM_def\<close>)

lemma set_wnd_tx:
  assumes "conn_base W fin c"
  shows "tx W fin c (set_wnd seg c)"
proof (cases "c_snd c")
  case (Some s)
  then show ?thesis
    using tx_set [OF assms Some] snd_invD(5) [OF snd_inv_conn [OF assms Some]] by (simp add: set_wnd_def)
qed (use tx_refl [OF assms] in \<open>simp add: set_wnd_def\<close>)

lemma track_max_wnd_tx:
  assumes "conn_base W fin c"
  shows "tx W fin c (track_max_wnd c)"
proof (cases "c_snd c")
  case (Some s)
  then show ?thesis
    using tx_set [OF assms Some] snd_invD(5) [OF snd_inv_conn [OF assms Some]] by (simp add: track_max_wnd_def updateMaxWnd_def)
qed (use tx_refl [OF assms] in \<open>simp add: track_max_wnd_def\<close>)

section \<open>Steps that take data or change the state\<close>

definition adv :: "bytes \<Rightarrow> bool \<Rightarrow> TCPConn \<Rightarrow> TCPConn \<Rightarrow> bool" where
  "adv W fin c c' \<longleftrightarrow> c_flow c' = c_flow c \<and> c_iss c' = c_iss c \<and> ext_out (written W fin c) c c' \<and> conn_base W fin c' \<and>
     (c_snd c \<noteq> None \<longrightarrow> c_snd c' \<noteq> None)"

definition good :: "bytes \<Rightarrow> bool \<Rightarrow> TCPConn \<Rightarrow> TCPConn \<Rightarrow> bool" where
  "good W fin c c' \<longleftrightarrow> adv W fin c c' \<and> conn_inv W fin c'"

lemma adv_refl: "conn_base W fin c \<Longrightarrow> adv W fin c c"
  by (simp add: adv_def ext_out_refl)

lemma adv_trans:
  assumes "adv W fin a b" "adv W fin b c"
  shows "adv W fin a c"
proof -
  have "snd_base b = snd_base a"
    using assms(1) by (simp add: adv_def snd_base_def)
  then show ?thesis
    using assms ext_out_trans [of "written W fin a" a b c] by (simp add: adv_def)
qed

lemma tx_adv: "tx W fin c c' \<Longrightarrow> adv W fin c c'"
  by (simp add: tx_def adv_def frame_def)

lemma adv_base: "adv W fin c c' \<Longrightarrow> conn_base W fin c'"
  by (simp add: adv_def)

lemma conn_invD: "conn_inv W fin c \<Longrightarrow> conn_base W fin c"
  by (simp add: conn_inv_def)

lemma good_refl: "conn_inv W fin c \<Longrightarrow> good W fin c c"
  using adv_refl conn_invD by (auto simp: good_def)

lemma good_adv: "adv W fin a b \<Longrightarrow> good W fin b c \<Longrightarrow> good W fin a c"
  using adv_trans by (auto simp: good_def)

lemma goodI_live: "adv W fin a b \<Longrightarrow> rcv_live b \<Longrightarrow> good W fin a b"
  by (simp add: good_def conn_inv_def adv_base)

lemma goodI_quiet: "adv W fin a b \<Longrightarrow> rcv_quiet (c_state b) \<Longrightarrow> good W fin a b"
  by (simp add: good_def conn_inv_def adv_base)

lemma good_tx:
  assumes "conn_inv W fin c" "tx W fin c c'"
  shows "good W fin c c'"
  using assms(1) txD [OF assms(2)] tx_adv [OF assms(2)] conn_baseD(4) [OF conn_invD [OF assms(1)]] conn_baseD(4) [OF txD(3) [OF assms(2)]]
  by (auto simp: good_def conn_inv_def)

text \<open>Entering a state of an established or closed connection.\<close>

lemma adv_state:
  assumes "conn_base W fin c" "st \<noteq> stateSynRcvd" "c_snd c = None \<Longrightarrow> st = stateClosed"
  shows "adv W fin c (c\<lparr>c_state := st\<rparr>)"
proof -
  have "snd_side W fin (c\<lparr>c_state := st\<rparr>)"
    using conn_baseD(3) [OF assms(1)] snd_side_same [of "c\<lparr>c_state := st\<rparr>" c] by simp
  then have "conn_base W fin (c\<lparr>c_state := st\<rparr>)"
    using assms conn_rest_same [of "c\<lparr>c_state := st\<rparr>" c] by (simp add: conn_base_def)
  then show ?thesis
    by (simp add: adv_def ext_out_refl)
qed

lemma adv_aux: "conn_base W fin c \<Longrightarrow> same_aux c c' \<Longrightarrow> adv W fin c c'"
  using tx_aux tx_adv by blast

text \<open>Changing the receiver or the read buffer, as far as only the base of the invariant is concerned.\<close>

lemma adv_rcv:
  assumes "conn_base W fin c" "c_rcv c \<noteq> None"
  shows "adv W fin c (set_rcv r c)"
proof -
  have "conn_base W fin (set_rcv r c)"
    using assms snd_side_same [of "set_rcv r c" c] conn_rest_same [of "set_rcv r c" c] by (simp add: conn_base_def set_rcv_def)
  then show ?thesis
    by (simp add: adv_def set_rcv_def ext_out_refl)
qed

lemma adv_close:
  assumes "conn_base W fin c"
  shows "adv W fin c (c\<lparr>c_readBuf := CloseWrite (c_readBuf c)\<rparr>)"
proof -
  have "conn_base W fin (c\<lparr>c_readBuf := CloseWrite (c_readBuf c)\<rparr>)"
    using assms snd_side_same [of "c\<lparr>c_readBuf := CloseWrite (c_readBuf c)\<rparr>" c] 
      conn_rest_same [of "c\<lparr>c_readBuf := CloseWrite (c_readBuf c)\<rparr>" c] by (simp add: conn_base_def)
  then show ?thesis
    by (simp add: adv_def ext_out_refl)
qed

lemma closeDone_good:
  assumes "conn_inv W fin c"
  shows "good W fin c (closeDone c)"
proof (cases "c_done c")
  case True
  then show ?thesis
    using good_refl [OF assms] by (simp add: closeDone_def)
next
  case False
  let ?c = "c\<lparr>c_state := stateClosed\<rparr>"
  have 1: "adv W fin c ?c"
    by (rule adv_state [OF conn_invD [OF assms]]) auto
  have "same_aux ?c (closeDone c)"
    using False by (simp add: closeDone_def same_aux_def aux_def)
  then have "adv W fin c (closeDone c)"
    using adv_trans [OF 1 adv_aux [OF adv_base [OF 1]]] by blast
  moreover have "rcv_quiet (c_state (closeDone c))"
    using False by (simp add: closeDone_def rcv_quiet_def)
  ultimately show ?thesis
    by (rule goodI_quiet)
qed

lemma handleRST_good:
  assumes "conn_inv W fin c"
  shows "good W fin c (handleRST c)"
proof -
  let ?c = "tcp_count (\<lambda>st. st\<lparr>ts_ResetsReceived := ts_ResetsReceived st + 1\<rparr>) c"
  let ?d = "?c\<lparr>c_state := stateClosed\<rparr>"
  have 1: "adv W fin c ?c"
    by (rule adv_aux [OF conn_invD [OF assms]]) simp
  have "good W fin ?c ?d"
    by (rule goodI_quiet [OF adv_state [OF adv_base [OF 1]]]) (auto simp: rcv_quiet_def)
  then have "good W fin c ?d"
    by (rule good_adv [OF 1])
  then show ?thesis
    unfolding handleRST_def using closeDone_good [of W fin ?d] good_adv [of W fin c ?d] by (auto simp: good_def)
qed

text \<open>Taking data.\<close>

definition rx :: "bytes \<Rightarrow> bool \<Rightarrow> TCPConn \<Rightarrow> TCPConn \<Rightarrow> bool" where
  "rx W fin c c' \<longleftrightarrow> adv W fin c c' \<and> rcv_live c' \<and> (c_state c' = c_state c \<or> c_state c' = stateCloseWait)"

lemma handleData_rx:
  assumes base: "conn_base W fin c" and live: "rcv_live c" and d: "length d \<le> 2 ^ 30"
  shows "\<exists>c'. handleData e c seq d = Some c' \<and> rx W fin c c'"
proof -
  obtain c' where c': "handleData e c seq d = Some c'" "received (written W fin c) c c'"
    using handleData_safe [OF live d] by blast
  then have r: "same_rcv c c'" "ext_out (written W fin c) c c'" "rcv_live c'" "c_state c' = c_state c \<or> c_state c' = stateCloseWait"
    by (simp_all add: received_def)
  have f: "c_flow c' = c_flow c" "c_iss c' = c_iss c" "c_readShutdown c' = c_readShutdown c"
     "c_finPending c' = c_finPending c" "c_closeOnce c' = c_closeOnce c" "c_closeCh c' = c_closeCh c"
     "c_tsEnabled c' = c_tsEnabled c" "c_peerMSS c' = c_peerMSS c" "c_cfg c' = c_cfg c" "c_inbound c' = c_inbound c"
     "c_snd c' = c_snd c" "c_writeBuf c' = c_writeBuf c"
    by (rule same_rcvD [OF r(1)])+
  obtain s where s: "c_snd c = Some s"
    using live conn_baseD(4) [OF base] by (auto simp: rcv_live_def)
  have "rb_inv (c_readBuf c')" "Cap (c_readBuf c') \<le> 2 ^ 30" "c_rcv c' \<noteq> None"
    using r(3) by (auto simp: rcv_live_def)
  moreover have "snd_side W fin c'"
    using conn_baseD(3) [OF base] f snd_side_same [of c' c] by simp
  ultimately have "conn_base W fin c'"
    using base f s r(4) conn_rest_same [of c' c] by (auto simp: conn_base_def)
  then show ?thesis
    using c'(1) r f by (simp add: rx_def adv_def)
qed

end
