(* ===== verification/TcpConnSafe.thy ===== *)
theory TcpConnSafe
  imports TcpConnProps
begin

text \<open>
  Every event of a connection keeps the invariant of \<open>TcpConnProps\<close>: the segment handlers, the cases of the run loop
  and the calls of the application.
\<close>

lemma goodD: "good W fin a b \<Longrightarrow> adv W fin a b" "good W fin a b \<Longrightarrow> conn_inv W fin b"
  by (simp_all add: good_def)

lemma good_trans: "good W fin a b \<Longrightarrow> good W fin b c \<Longrightarrow> good W fin a c"
  using good_adv goodD(1) by blast

section \<open>The handshake\<close>

lemma emit_accept_adv:
  assumes "conn_base W fin c"
  shows "adv W fin c (emit OutAccept c)"
proof -
  have "conn_base W fin (emit OutAccept c)"
    by (rule conn_base_same [OF assms]) (simp_all add: emit_def frame_def)
  then show ?thesis
    by (simp add: adv_def emit_def ext_out_def)
qed

lemma emit_accept_live: "rcv_live c \<Longrightarrow> rcv_live (emit OutAccept c)"
  by (rule rcv_live_eq) (simp_all add: emit_def)

text \<open>The sender a completed handshake creates.\<close>

lemma newSender_ok:
  assumes env: "68 \<le> mtu" "mtu \<le> 1500" and cfg: "cfg_ok k" and peer: "ts \<longrightarrow> mss = 0 \<or> 12 < uint mss"
    and sc: "sc = \<lparr>sc_MinRTO = cc_minRTO k, sc_MaxRTO = cc_maxRTO k, sc_InitialRTO = cc_initialRTO k, sc_MaxRetries = cc_maxRetries k,
      sc_InitialSSThresh = cc_initialSSThresh k\<rparr>"
    and s: "s = newSender iss wnd scale mtu mss sc"
  shows "snd_ok base W False (if ts then s\<lparr>snd_mss := snd_mss s - 12\<rparr> else s)" "snd_nxt s = iss + 1"
proof -
  define m where "m = min (mtu - 40) (if mss = 0 then 536 else uint mss)"
  have "snd_mss s = m"
    using env unfolding s newSender_def Let_def m_def by (simp add: IPv4MinHeaderSize_def TCPMinHeaderSize_def uint_0_iff)
  moreover have "0 < m" "m \<le> 1460" "ts \<Longrightarrow> 12 < m"
  proof -
    have "0 < uint mss" if "mss \<noteq> 0"
      using that uint_nonnegative [of mss] uint_0_iff [of mss] by linarith
    then show "0 < m" "m \<le> 1460" "ts \<Longrightarrow> 12 < m"
      using env peer by (auto simp: m_def)
  qed
  moreover have "rto_ok s" "snd_ssthresh s \<noteq> 0" "snd_unacked s = []"
    using cfg unfolding s sc newSender_def Let_def by (simp_all add: rto_ok_def cfg_ok_def)
  ultimately show "snd_ok base W False (if ts then s\<lparr>snd_mss := snd_mss s - 12\<rparr> else s)"
    by (simp add: snd_ok_def rto_ok_def queue_ok_def)
  show "snd_nxt s = iss + 1"
    unfolding s by (simp add: newSender_def Let_def)
qed

text \<open>The receiver a completed handshake creates.\<close>

lemma newReceiver_live:
  assumes "rb_inv (c_readBuf c)" "Cap (c_readBuf c) \<le> 2 ^ 30" "cfg_ok k"
    and r: "r = newReceiver irs (c_readBuf c) (cc_readBufSize k) (cc_maxReadBufSize k)" "c_rcv c = Some r"
  shows "rcv_live c"
proof -
  have at: "at_readBufSize (rcv_autoTune r) \<le> 2 ^ 30" "at_maxBufSize (rcv_autoTune r) \<le> 2 ^ 30"
    using assms(3) by (simp_all add: r(1) newReceiver_def Let_def cfg_ok_def)
  define base where "base = irs + 1 - of_nat (2 ^ 31)"
  have n: "rcv_nxt r = seq_at base (2 ^ 31)" "rcv_ooo r = map (oo_seg base) []"
    by (simp_all add: r(1) newReceiver_def Let_def base_def seq_at_def)
  have "rcv_slots base (2 ^ 31) [] r"
    using n by (simp add: rcv_slots_def)
  moreover have "rcv_holds base (2 ^ 31) [] c r" if "\<not> c_readShutdown c" "\<not> rb_closed (c_readBuf c)"
    using n at assms(1,2) r(2) that by (simp add: rcv_holds_def rcv_open_def)
  ultimately show ?thesis
    unfolding rcv_live_def using assms(1,2) r(2) at by blast
qed

lemma establish_stats:
  obtains st act where "(case c_stats c of None \<Rightarrow> c | Some st \<Rightarrow> c\<lparr>c_stats := Some (f st), c_statsActive := True\<rparr>) =
    c\<lparr>c_stats := st, c_statsActive := act\<rparr>"
proof (cases "c_stats c")
  case None
  then show thesis
    using that [where st = None and act = "c_statsActive c"] by simp
next
  case (Some st)
  then show thesis
    using that [where st = "Some (f st)" and act = True] by simp
qed

lemma establish_adv:
  assumes base: "conn_base W fin c" and st: "c_state c = stateSynRcvd" and e: "env_ok e"
  shows "adv W fin c (establish e seg c)" "rcv_live (establish e seg c)"
proof -
  let ?c = "establish e seg c"
  define sc where "sc = \<lparr>sc_MinRTO = cc_minRTO (c_cfg c), sc_MaxRTO = cc_maxRTO (c_cfg c), sc_InitialRTO = cc_initialRTO (c_cfg c),
    sc_MaxRetries = cc_maxRetries (c_cfg c), sc_InitialSSThresh = cc_initialSSThresh (c_cfg c)\<rparr>"
  define s where "s = newSender (c_iss c) (sg_wnd seg) (c_sndWndScale c) (e_mtu e) (c_peerMSS c) sc"
  define s' where "s' = (if c_tsEnabled c then s\<lparr>snd_mss := snd_mss s - 12\<rparr> else s)"
  define r where "r = newReceiver (c_irs c) (c_readBuf c) (cc_readBufSize (c_cfg c)) (cc_maxReadBufSize (c_cfg c))"
  let ?c1 = "c\<lparr>c_state := stateEstablished\<rparr>"
  obtain st act where stats: "(case c_stats ?c1 of None \<Rightarrow> ?c1 | Some st \<Rightarrow> ?c1\<lparr>c_stats := Some (st\<lparr>ts_ActiveConns := ts_ActiveConns st + 1,
      ts_TotalAccepted := ts_TotalAccepted st + 1\<rparr>), c_statsActive := True\<rparr>) = ?c1\<lparr>c_stats := st, c_statsActive := act\<rparr>"
    by (rule establish_stats [of ?c1])
  obtain ts la where est: "?c = c\<lparr>c_state := stateEstablished, c_stats := st, c_statsActive := act, c_synRcvdTimer := None, c_snd := Some s',
      c_rcv := Some r, c_tsLastAckSent := la, c_tsRecent := ts, c_keepaliveProbes := 0,
      c_keepaliveTimer := Some (e_now e + cc_keepaliveIdle (c_cfg c))\<rparr>"
  proof -
    have "?c = c\<lparr>c_state := stateEstablished, c_stats := st, c_statsActive := act, c_synRcvdTimer := None, c_snd := Some s',
      c_rcv := Some r, c_tsLastAckSent := (if c_tsEnabled c then rcv_nxt r else c_tsLastAckSent c),
      c_tsRecent := (if c_tsEnabled c \<and> sg_hasTS seg then sg_tsVal seg else c_tsRecent c), c_keepaliveProbes := 0,
      c_keepaliveTimer := Some (e_now e + cc_keepaliveIdle (c_cfg c))\<rparr>"
      unfolding establish_def Let_def stats by (simp add: resetKeepalive_def set_rcv_def set_snd_def s'_def s_def sc_def r_def)
    then show thesis
      by (rule that)
  qed
  have f: "c_flow ?c = c_flow c" "c_iss ?c = c_iss c" "c_state ?c = stateEstablished" "c_readShutdown ?c = c_readShutdown c"
     "c_finPending ?c = c_finPending c" "c_closeOnce ?c = c_closeOnce c" "c_closeCh ?c = c_closeCh c"
     "c_tsEnabled ?c = c_tsEnabled c" "c_peerMSS ?c = c_peerMSS c" "c_cfg ?c = c_cfg c" "c_inbound ?c = c_inbound c"
     "c_snd ?c = Some s'" "c_rcv ?c = Some r" "c_readBuf ?c = c_readBuf c" "c_writeBuf ?c = c_writeBuf c" "c_out ?c = c_out c"
    unfolding est by simp_all
  have none: "c_snd c = None"
    using conn_baseD(6) [OF base] st by simp
  then have w: "contents (c_writeBuf c) = W" "\<not> fin" "rb_inv (c_writeBuf c)"
    using conn_baseD(3) [OF base] by (simp_all add: snd_side_def)
  have mtu: "68 \<le> e_mtu e" "e_mtu e \<le> 1500"
    using e by (simp_all add: env_ok_def)
  have peer: "c_tsEnabled c \<longrightarrow> c_peerMSS c = 0 \<or> 12 < uint (c_peerMSS c)"
    using conn_baseD(9) [OF base] by (simp add: peer_ok_def)
  note ns = newSender_ok [OF mtu conn_baseD(8) [OF base] peer sc_def s_def]
  have "snd_ok (snd_base c) W False s'" "snd_nxt s' = c_iss c + 1"
    using ns unfolding s'_def by simp_all
  moreover have "snd_stream (snd_base c) W False (c_writeBuf c) (c_iss c + 1)"
    using w unfolding snd_stream_def by (intro exI [of _ 0]) (simp add: snd_base_def)
  ultimately have "snd_side W fin ?c"
    using w f by (simp add: snd_side_def snd_base_def)
  then have "conn_base W fin ?c"
    using base f conn_rest_same [of ?c c] by (simp add: conn_base_def)
  then show "adv W fin c ?c"
    using f none by (simp add: adv_def ext_out_refl)
  show "rcv_live ?c"
    by (rule newReceiver_live [OF _ _ conn_baseD(8) [OF base]]) (use conn_baseD(1,2) [OF base] f in \<open>simp_all add: r_def\<close>)
qed

lemma rx_ack:
  assumes "rx W fin c c1"
  shows "\<exists>c2. sendACK e c1 = Some c2 \<and> rx W fin c c2"
proof -
  have a: "adv W fin c c1" "rcv_live c1" "c_state c1 = c_state c \<or> c_state c1 = stateCloseWait"
    using assms by (simp_all add: rx_def)
  obtain c2 where c2: "sendACK e c1 = Some c2" "tx W fin c1 c2"
    using sendACK_tx [OF adv_base [OF a(1)]] by blast
  then show ?thesis
    using adv_trans [OF a(1) tx_adv] txD(4,6) [OF c2(2)] a(2,3) by (auto simp: rx_def)
qed

lemma handleSynRcvd_good:
  assumes inv: "conn_inv W fin c" and st: "c_state c = stateSynRcvd" and e: "env_ok e" and d: "length (sg_payload seg) \<le> 2 ^ 30"
  shows "\<exists>c'. handleSynRcvd e seg c = Some c' \<and> good W fin c c'"
proof -
  note base = conn_invD [OF inv]
  let ?late = "sg_seq seg - (c_irs c + 1) \<ge> ucast (cc_rcvWndSize (c_cfg c))"
  consider (none) "\<not> Has (sg_flags seg) TCPFlagACK" | (late) "Has (sg_flags seg) TCPFlagACK" ?late
    | (bad) "Has (sg_flags seg) TCPFlagACK" "\<not> ?late" "sg_ack seg \<noteq> c_iss c + 1"
    | (ok) "Has (sg_flags seg) TCPFlagACK" "\<not> ?late" "sg_ack seg = c_iss c + 1"
    by blast
  then show ?thesis
  proof cases
    case none
    then show ?thesis
      using sendSYNACK_tx [OF base] good_tx [OF inv] good_refl [OF inv] by (auto simp: handleSynRcvd_def)
  next
    case late
    then show ?thesis
      using sendACK_tx [OF base] good_tx [OF inv] by (auto simp: handleSynRcvd_def)
  next
    case bad
    obtain c1 where c1: "sendRSTSegment e c (sg_ack seg) = Some c1" "tx W fin c c1"
      using sendRST_tx [OF base] by blast
    have g: "good W fin c c1"
      by (rule good_tx [OF inv c1(2)])
    have "good W fin c (handleRST c1)"
      by (rule good_trans [OF g handleRST_good [OF goodD(2) [OF g]]])
    then show ?thesis
      using bad c1(1) by (simp add: handleSynRcvd_def)
  next
    case ok
    let ?c = "establish e seg c"
    note est = establish_adv [OF base st e, of seg]
    obtain c1 where c1: "(if sg_payload seg \<noteq> [] then do { c \<leftarrow> handleData e ?c (sg_seq seg) (sg_payload seg); sendACK e c } else Some ?c) = Some c1"
        "rx W fin ?c c1"
    proof (cases "sg_payload seg = []")
      case True
      then show thesis
        using that [of ?c] est(2) adv_refl [OF adv_base [OF est(1)]] by (simp add: rx_def)
    next
      case False
      obtain c2 where c2: "handleData e ?c (sg_seq seg) (sg_payload seg) = Some c2" "rx W fin ?c c2"
        using handleData_rx [OF adv_base [OF est(1)] est(2) d] by blast
      obtain c3 where "sendACK e c2 = Some c3" "rx W fin ?c c3"
        using rx_ack [OF c2(2)] by blast
      then show thesis
        using that [of c3] c2(1) False by simp
    qed
    have a: "adv W fin ?c c1" "rcv_live c1"
      using c1(2) by (simp_all add: rx_def)
    have "good W fin c (emit OutAccept c1)"
      by (rule goodI_live [OF adv_trans [OF est(1) adv_trans [OF a(1) emit_accept_adv [OF adv_base [OF a(1)]]]] emit_accept_live [OF a(2)]])
    moreover have "handleSynRcvd e seg c = Some (emit OutAccept c1)"
      using ok c1(1) by (simp add: handleSynRcvd_def)
    ultimately show ?thesis
      by blast
  qed
qed

section \<open>ESTABLISHED\<close>

lemma established_sack_tx:
  assumes base: "conn_base W fin c" and snd: "c_snd c \<noteq> None"
  shows "\<exists>c'. established_sack e seg c = Some c' \<and> tx W fin c c'"
proof -
  obtain so where so: "ParseSegmentOptions (sg_options seg) = Some so"
    using ParseSegmentOptions_total by blast
  obtain s where s: "c_snd c = Some s"
    using snd by blast
  let ?c = "set_snd (processSACKBlocks (so_SACKBlocks so) (sg_ack seg) s) c"
  have t: "tx W fin c ?c"
    using tx_set [OF base s] processSACKBlocks_ok [OF snd_invD(5) [OF snd_inv_conn [OF base s]]] by blast
  obtain c' where "sackLossDetection e ?c = Some c'" "tx W fin ?c c'"
    using sackLossDetection_tx [OF txD(3) [OF t]] txD(5) [OF t] snd by blast
  then show ?thesis
    using so s tx_refl [OF base] tx_trans [OF t] by (auto simp: established_sack_def)
qed

lemma established_window_tx:
  assumes base: "conn_base W fin c" and snd: "c_snd c \<noteq> None" and e: "env_ok e"
  shows "\<exists>c'. established_window e c = Some c' \<and> tx W fin c c'"
proof -
  obtain s where s: "c_snd c = Some s"
    using snd by blast
  have t: "tx W fin c (cancelZeroWindowProbe c)"
    using tx_aux [OF base] by simp
  obtain c' where c': "sendPending e (cancelZeroWindowProbe c) = Some c'" "tx W fin c c'"
    using sendPending_tx [OF txD(3) [OF t] _ e] txD(5) [OF t] snd tx_trans [OF t] by blast
  have "Len (c_writeBuf c) = Some (length (contents (c_writeBuf c)))"
    using Len_eq conn_baseD(11) [OF base] by blast
  then show ?thesis
    using s c' checkZeroWindow_tx [OF base] tx_refl [OF base] by (simp add: established_window_def)
qed

lemma window_update_tx:
  assumes "conn_base W fin c"
  shows "tx W fin c (measureRTTM e seg (track_max_wnd (set_wnd seg c)))"
proof -
  have 1: "tx W fin c (set_wnd seg c)"
    by (rule set_wnd_tx [OF assms])
  have 2: "tx W fin c (track_max_wnd (set_wnd seg c))"
    by (rule tx_trans [OF 1 track_max_wnd_tx [OF txD(3) [OF 1]]])
  show ?thesis
    by (rule tx_trans [OF 2 measureRTTM_tx [OF txD(3) [OF 2]]])
qed

lemma established_ack_tx:
  assumes base: "conn_base W fin c" and snd: "c_snd c \<noteq> None" and e: "env_ok e"
  shows "\<exists>c'. established_ack e seg c = Some c' \<and> tx W fin c c'"
proof -
  obtain s where s: "c_snd c = Some s"
    using snd by blast
  let ?c = "measureRTTM e seg (track_max_wnd (set_wnd seg c))"
  have c: "tx W fin c ?c"
    by (rule window_update_tx [OF base])
  obtain c1 where c1: "established_sack e seg ?c = Some c1" "tx W fin c c1"
    using established_sack_tx [OF txD(3) [OF c]] txD(5) [OF c] snd tx_trans [OF c] by blast
  obtain c2 where c2: "handleACK e c1 (sg_ack seg) = Some c2" "tx W fin c c2"
    using handleACK_tx [OF txD(3) [OF c1(2)] _ e] txD(5) [OF c1(2)] snd tx_trans [OF c1(2)] by blast
  obtain s2 where s2: "c_snd c2 = Some s2"
    using txD(5) [OF c2(2)] snd by auto
  obtain c3 where c3: "(if sg_ack seg = snd_una s2 \<and> seg_window c2 seg > snd_wnd s then sendPending e c2 else Some c2) = Some c3" "tx W fin c c3"
    using sendPending_tx [OF txD(3) [OF c2(2)] _ e] s2 tx_trans [OF c2(2)] c2(2) by (cases "sg_ack seg = snd_una s2 \<and> seg_window c2 seg > snd_wnd s") auto
  obtain c4 where "established_window e c3 = Some c4" "tx W fin c c4"
    using established_window_tx [OF txD(3) [OF c3(2)] _ e] txD(5) [OF c3(2)] snd tx_trans [OF c3(2)] by blast
  then show ?thesis
    using s c1(1) c2(1) s2 c3(1) by (simp add: established_ack_def)
qed

lemma established_delack_tx:
  assumes base: "conn_base W fin c"
  shows "\<exists>c'. established_delack e seg c = Some c' \<and> tx W fin c c'"
proof (cases "sg_payload seg = []")
  case True
  then show ?thesis
    using tx_refl [OF base] by (simp add: established_delack_def)
next
  case False
  let ?c = "c\<lparr>c_unackedSegs := c_unackedSegs c + 1\<rparr>"
  have t1: "tx W fin c ?c"
    by (rule tx_aux [OF base]) simp
  note aux = tx_trans [OF _ tx_aux [OF txD(3)]]
  have t2: "tx W fin c (cancelDelayedACK ?c)"
    by (rule aux [OF t1 t1]) simp
  obtain c1 where c1: "sendACK e (cancelDelayedACK ?c) = Some c1" "tx W fin c c1"
    using sendACK_tx [OF txD(3) [OF t2]] tx_trans [OF t2] by blast
  have "tx W fin c (c1\<lparr>c_unackedSegs := 0\<rparr>)"
    by (rule aux [OF c1(2) c1(2)]) simp
  moreover have "tx W fin c (?c\<lparr>c_delayedACKTimer := Some (e_now e + cc_delayedACKTimeout (c_cfg c))\<rparr>)"
    by (rule aux [OF t1 t1]) simp
  ultimately show ?thesis
    using False c1(1) by (auto simp: established_delack_def Let_def)
qed

text \<open>The FIN of the peer: the read side ends.\<close>

lemma processFIN_good:
  assumes base: "conn_base W fin c" and rcv: "c_rcv c \<noteq> None"
  shows "\<exists>c'. processFIN e c = Some c' \<and> good W fin c c'"
proof -
  obtain r where r: "c_rcv c = Some r"
    using rcv by blast
  let ?c = "set_rcv (r\<lparr>rcv_nxt := rcv_nxt r + 1\<rparr>) c"
  have 1: "adv W fin c ?c"
    by (rule adv_rcv [OF base rcv])
  have 2: "adv W fin c (cancelDelayedACK ?c)"
    by (rule adv_trans [OF 1 adv_aux [OF adv_base [OF 1]]]) simp
  obtain c1 where c1: "sendACK e (cancelDelayedACK ?c) = Some c1" "tx W fin (cancelDelayedACK ?c) c1"
    using sendACK_tx [OF adv_base [OF 2]] by blast
  have 3: "adv W fin c c1"
    by (rule adv_trans [OF 2 tx_adv [OF c1(2)]])
  let ?d = "if \<not> c_readShutdown c1 then c1\<lparr>c_readBuf := CloseWrite (c_readBuf c1)\<rparr> else c1"
  have 4: "adv W fin c ?d"
    using adv_trans [OF 3 adv_close [OF adv_base [OF 3]]] 3 by simp
  have "c_snd c \<noteq> None"
    using conn_baseD(4) [OF base] rcv by simp
  then have "c_snd ?d \<noteq> None"
    using 4 by (simp add: adv_def)
  then have "adv W fin c (?d\<lparr>c_state := stateCloseWait\<rparr>)"
    by (intro adv_trans [OF 4 adv_state [OF adv_base [OF 4]]]) auto
  then have "good W fin c (?d\<lparr>c_state := stateCloseWait\<rparr>)"
    by (rule goodI_quiet) (simp add: rcv_quiet_def)
  moreover have "processFIN e c = Some (?d\<lparr>c_state := stateCloseWait\<rparr>)"
    using r c1(1) by (simp add: processFIN_def)
  ultimately show ?thesis
    by blast
qed

text \<open>The data of a segment, when there are any.\<close>

lemma take_payload:
  assumes base: "conn_base W fin c" and live: "rcv_live c" and d: "length (sg_payload seg) \<le> 2 ^ 30"
  shows "\<exists>c'. (if sg_payload seg \<noteq> [] \<and> c_rcv c \<noteq> None then handleData e c (sg_seq seg) (sg_payload seg) else Some c) = Some c' \<and> rx W fin c c'"
proof (cases "sg_payload seg = []")
  case True
  then show ?thesis
    using live adv_refl [OF base] by (simp add: rx_def)
next
  case False
  moreover have "c_rcv c \<noteq> None"
    using live by (auto simp: rcv_live_def)
  ultimately show ?thesis
    using handleData_rx [OF base live d] by simp
qed

lemma handleEstablished_good:
  assumes inv: "conn_inv W fin c" and st: "c_state c = stateEstablished" and e: "env_ok e" and d: "length (sg_payload seg) \<le> 2 ^ 30"
  shows "\<exists>c'. handleEstablished e seg c = Some c' \<and> good W fin c c'"
proof -
  note base = conn_invD [OF inv]
  have snd: "c_snd c \<noteq> None" and live: "rcv_live c"
    using inv st conn_baseD(4,5) [OF base] by (auto simp: conn_inv_def rcv_quiet_def)
  let ?c = "resetKeepalive e c"
  have t: "tx W fin c ?c"
    by (rule tx_aux [OF base]) simp
  obtain c1 where c1: "(if Has (sg_flags seg) TCPFlagACK \<and> c_snd ?c \<noteq> None then established_ack e seg ?c else Some ?c) = Some c1" "tx W fin c c1"
    using established_ack_tx [OF txD(3) [OF t] _ e] t tx_trans [OF t] by (cases "Has (sg_flags seg) TCPFlagACK \<and> c_snd ?c \<noteq> None") auto
  obtain c2 where c2: "(if sg_payload seg \<noteq> [] \<and> c_rcv c1 \<noteq> None then handleData e c1 (sg_seq seg) (sg_payload seg) else Some c1) = Some c2"
      "rx W fin c1 c2"
    using take_payload [OF txD(3) [OF c1(2)] txD(4) [OF c1(2) live] d] by blast
  have a: "adv W fin c c2" and live2: "rcv_live c2"
    using c2(2) adv_trans [OF tx_adv [OF c1(2)]] by (simp_all add: rx_def)
  obtain r where r: "c_rcv c2 = Some r"
    using live2 by (auto simp: rcv_live_def)
  have delack: "\<exists>c'. established_delack e seg c3 = Some c' \<and> good W fin c c'" if c3: "adv W fin c2 c3" "rcv_live c3" for c3
  proof -
    obtain c4 where "established_delack e seg c3 = Some c4" "tx W fin c3 c4"
      using established_delack_tx [OF adv_base [OF c3(1)]] by blast
    then show ?thesis
      using goodI_live [OF adv_trans [OF adv_trans [OF a c3(1)] tx_adv]] txD(4) c3(2) by blast
  qed
  let ?f = "r\<lparr>rcv_finReceived := True, rcv_finSeq := sg_seq seg + of_nat (length (sg_payload seg))\<rparr>"
  have "rcv_live (set_rcv ?f c2)"
    by (rule rcv_live_same [OF live2 r, where r' = ?f]) (simp_all add: set_rcv_def)
  then have later: "\<exists>c'. established_delack e seg (set_rcv ?f c2) = Some c' \<and> good W fin c c'"
    using delack adv_rcv [OF adv_base [OF a]] r by simp
  have fin: "\<exists>c'. processFIN e c2 = Some c' \<and> good W fin c c'"
    using processFIN_good [OF adv_base [OF a]] r good_adv [OF a] by auto
  show ?thesis
    using c1(1) c2(1) r later fin delack [OF adv_refl [OF adv_base [OF a]] live2] by (simp add: handleEstablished_def Let_def)
qed

section \<open>The closing states\<close>

lemma take_fin_adv:
  assumes base: "conn_base W fin c" and rcv: "c_rcv c \<noteq> None"
  shows "\<exists>c'. take_fin e c = Some c' \<and> adv W fin c c' \<and> c_snd c' \<noteq> None"
proof -
  obtain r where r: "c_rcv c = Some r"
    using rcv by blast
  let ?c = "set_rcv (r\<lparr>rcv_nxt := rcv_nxt r + 1\<rparr>) c"
  have 1: "adv W fin c ?c"
    by (rule adv_rcv [OF base rcv])
  obtain c1 where "sendACK e ?c = Some c1" "tx W fin ?c c1"
    using sendACK_tx [OF adv_base [OF 1]] by blast
  moreover have "c_snd c \<noteq> None"
    using conn_baseD(4) [OF base] rcv by simp
  ultimately show ?thesis
    using r adv_trans [OF 1 tx_adv] by (auto simp: take_fin_def adv_def)
qed

lemma enterTimeWait_good:
  assumes base: "conn_base W fin c" and snd: "c_snd c \<noteq> None"
  shows "good W fin c (enterTimeWait e c)"
proof -
  let ?c = "c\<lparr>c_state := stateTimeWait\<rparr>"
  have 1: "adv W fin c ?c"
    by (rule adv_state [OF base]) (use snd in auto)
  let ?d = "if \<not> c_readShutdown ?c then ?c\<lparr>c_readBuf := CloseWrite (c_readBuf ?c)\<rparr> else ?c"
  have 2: "adv W fin c ?d"
    using adv_trans [OF 1 adv_close [OF adv_base [OF 1]]] 1 by simp
  have "adv W fin c (?d\<lparr>c_timeWaitTimer := Some (e_now e + cc_timeWaitDuration (c_cfg ?d))\<rparr>)"
    by (rule adv_trans [OF 2 adv_aux [OF adv_base [OF 2]]]) simp
  moreover have "enterTimeWait e c = ?d\<lparr>c_timeWaitTimer := Some (e_now e + cc_timeWaitDuration (c_cfg ?d))\<rparr>"
    by (simp add: enterTimeWait_def)
  ultimately show ?thesis
    using goodI_quiet [of W fin c "enterTimeWait e c"] by (simp add: rcv_quiet_def)
qed

lemma good_state:
  assumes base: "conn_base W fin c" and snd: "c_snd c \<noteq> None" and st: "rcv_quiet st"
  shows "good W fin c (c\<lparr>c_state := st\<rparr>)"
proof -
  have "adv W fin c (c\<lparr>c_state := st\<rparr>)"
    by (rule adv_state [OF base]) (use snd st in \<open>auto simp: rcv_quiet_def\<close>)
  then show ?thesis
    by (rule goodI_quiet) (simp add: st)
qed

text \<open>The acknowledgement in a closing state, and whether everything sent is acknowledged now.\<close>

lemma closing_ack:
  assumes base: "conn_base W fin c" and snd: "c_snd c \<noteq> None" and e: "env_ok e" and t: "tx W fin c c0"
  shows "\<exists>c' b. (if Has (sg_flags seg) TCPFlagACK \<and> c_snd c \<noteq> None then do {
         c \<leftarrow> handleACK e c0 (sg_ack seg);
         s \<leftarrow> c_snd c;
         Some (c, \<not> hasUnacked s) }
       else Some (c, False)) = Some (c', b) \<and> tx W fin c c'"
proof -
  obtain c1 where c1: "handleACK e c0 (sg_ack seg) = Some c1" "tx W fin c c1"
    using handleACK_tx [OF txD(3) [OF t] _ e] txD(5) [OF t] snd tx_trans [OF t] by blast
  moreover obtain s where "c_snd c1 = Some s"
    using txD(5) [OF c1(2)] snd by auto
  ultimately show ?thesis
    using snd tx_refl [OF base] by auto
qed

lemma handleFinWait1_good:
  assumes inv: "conn_inv W fin c" and st: "c_state c = stateFinWait1" and e: "env_ok e" and d: "length (sg_payload seg) \<le> 2 ^ 30"
  shows "\<exists>c'. handleFinWait1 e seg c = Some c' \<and> good W fin c c'"
proof -
  note base = conn_invD [OF inv]
  have snd: "c_snd c \<noteq> None" and live: "rcv_live c"
    using inv st conn_baseD(4,5) [OF base] by (auto simp: conn_inv_def rcv_quiet_def)
  have t: "tx W fin c (measureRTTM e seg (set_wnd seg c))"
    using set_wnd_tx [OF base, of seg] measureRTTM_tx txD(3) tx_trans by blast
  obtain c1 b where c1: "(if Has (sg_flags seg) TCPFlagACK \<and> c_snd c \<noteq> None then do {
         c \<leftarrow> handleACK e (measureRTTM e seg (set_wnd seg c)) (sg_ack seg);
         s \<leftarrow> c_snd c;
         Some (c, \<not> hasUnacked s) }
       else Some (c, False)) = Some (c1, b)" "tx W fin c c1"
    using closing_ack [OF base snd e t] by blast
  obtain c2 where c2: "(if sg_payload seg \<noteq> [] \<and> c_rcv c1 \<noteq> None then handleData e c1 (sg_seq seg) (sg_payload seg) else Some c1) = Some c2"
      "rx W fin c1 c2"
    using take_payload [OF txD(3) [OF c1(2)] txD(4) [OF c1(2) live] d] by blast
  have a: "adv W fin c c2" and live2: "rcv_live c2"
    using c2(2) adv_trans [OF tx_adv [OF c1(2)]] by (simp_all add: rx_def)
  have rcv2: "c_rcv c2 \<noteq> None"
    using live2 by (auto simp: rcv_live_def)
  show ?thesis
  proof (cases "Has (sg_flags seg) TCPFlagFIN")
    case True
    obtain c3 where c3: "take_fin e c2 = Some c3" "adv W fin c c3" "c_snd c3 \<noteq> None"
      using take_fin_adv [OF adv_base [OF a] rcv2] adv_trans [OF a] by blast
    let ?d = "if \<not> c_readShutdown c3 then c3\<lparr>c_readBuf := CloseWrite (c_readBuf c3)\<rparr> else c3"
    have 4: "adv W fin c ?d" "c_snd ?d \<noteq> None"
      using adv_trans [OF c3(2) adv_close [OF adv_base [OF c3(2)]]] c3(2,3) by simp_all
    have "good W fin c (if b then enterTimeWait e ?d else ?d\<lparr>c_state := stateClosing\<rparr>)"
      using good_adv [OF 4(1) enterTimeWait_good [OF adv_base [OF 4(1)] 4(2)]]
        good_adv [OF 4(1) good_state [OF adv_base [OF 4(1)] 4(2)], of stateClosing] by (simp add: rcv_quiet_def)
    then show ?thesis
      using True c1(1) c2(1) c3(1) rcv2 by (simp add: handleFinWait1_def Let_def)
  next
    case False
    obtain c3 where c3: "(if sg_payload seg \<noteq> [] then sendACK e c2 else Some c2) = Some c3" "tx W fin c2 c3"
      using sendACK_tx [OF adv_base [OF a]] tx_refl [OF adv_base [OF a]] by (cases "sg_payload seg = []") auto
    have 3: "adv W fin c c3" "rcv_live c3"
      using adv_trans [OF a tx_adv [OF c3(2)]] txD(4) [OF c3(2) live2] by auto
    have snd3: "c_snd c3 \<noteq> None"
      using 3(1) snd by (simp add: adv_def)
    let ?d = "c3\<lparr>c_state := stateFinWait2\<rparr>"
    have 4: "adv W fin c ?d"
      by (rule adv_trans [OF 3(1) adv_state [OF adv_base [OF 3(1)]]]) (use snd3 in auto)
    let ?f = "?d\<lparr>c_finWait2Timer := Some (e_now e + cc_finWait2Timeout (c_cfg c3))\<rparr>"
    have "adv W fin c ?f"
      by (rule adv_trans [OF 4 adv_aux [OF adv_base [OF 4]]]) simp
    moreover have "rcv_live ?f"
      by (rule rcv_live_eq [OF 3(2)]) simp_all
    ultimately have "good W fin c (if b then ?f else c3)"
      using goodI_live 3 by simp
    moreover have "handleFinWait1 e seg c = Some (if b then ?f else c3)"
      using False c1(1) c2(1) c3(1) by (simp add: handleFinWait1_def Let_def)
    ultimately show ?thesis
      by blast
  qed
qed

lemma handleFinWait2_good:
  assumes inv: "conn_inv W fin c" and st: "c_state c = stateFinWait2" and d: "length (sg_payload seg) \<le> 2 ^ 30"
  shows "\<exists>c'. handleFinWait2 e seg c = Some c' \<and> good W fin c c'"
proof -
  note base = conn_invD [OF inv]
  have snd: "c_snd c \<noteq> None" and live: "rcv_live c"
    using inv st conn_baseD(4,5) [OF base] by (auto simp: conn_inv_def rcv_quiet_def)
  let ?c = "if Has (sg_flags seg) TCPFlagACK then set_wnd seg c else c"
  have t: "tx W fin c ?c"
    using set_wnd_tx [OF base] tx_refl [OF base] by simp
  obtain c2 where c2: "(if sg_payload seg \<noteq> [] \<and> c_rcv ?c \<noteq> None then do {
             c \<leftarrow> handleData e ?c (sg_seq seg) (sg_payload seg);
             Some (c\<lparr>c_finWait2Timer := Some (e_now e + cc_finWait2Timeout (c_cfg c))\<rparr>) }
           else Some ?c) = Some c2" and a: "adv W fin c c2" and live2: "rcv_live c2"
  proof -
    obtain c1 where c1: "(if sg_payload seg \<noteq> [] \<and> c_rcv ?c \<noteq> None then handleData e ?c (sg_seq seg) (sg_payload seg) else Some ?c) = Some c1"
        "rx W fin ?c c1"
      using take_payload [OF txD(3) [OF t] txD(4) [OF t live] d] by blast
    have 1: "adv W fin c c1" "rcv_live c1"
      using c1(2) adv_trans [OF tx_adv [OF t]] by (simp_all add: rx_def)
    let ?d = "c1\<lparr>c_finWait2Timer := Some (e_now e + cc_finWait2Timeout (c_cfg c1))\<rparr>"
    have "tx W fin c1 ?d"
      by (rule tx_aux [OF adv_base [OF 1(1)]]) simp
    then have 2: "adv W fin c ?d" "rcv_live ?d"
      using adv_trans [OF 1(1) tx_adv] txD(4) 1(2) by blast+
    show thesis
    proof (cases "sg_payload seg \<noteq> [] \<and> c_rcv ?c \<noteq> None")
      case True
      then show thesis
        using that [OF _ 2] c1(1) by simp
    next
      case False
      then show thesis
        using that [OF _ 1] c1(1) by auto
    qed
  qed
  have rcv2: "c_rcv c2 \<noteq> None"
    using live2 by (auto simp: rcv_live_def)
  show ?thesis
  proof (cases "Has (sg_flags seg) TCPFlagFIN")
    case True
    obtain c3 where c3: "take_fin e c2 = Some c3" "adv W fin c c3" "c_snd c3 \<noteq> None"
      using take_fin_adv [OF adv_base [OF a] rcv2] adv_trans [OF a] by blast
    then have "good W fin c (enterTimeWait e c3)"
      using good_adv [OF c3(2) enterTimeWait_good [OF adv_base [OF c3(2)]]] by blast
    then show ?thesis
      using True c2 c3(1) rcv2 by (simp add: handleFinWait2_def)
  next
    case False
    obtain c3 where "(if sg_payload seg \<noteq> [] then sendACK e c2 else Some c2) = Some c3" "tx W fin c2 c3"
      using sendACK_tx [OF adv_base [OF a]] tx_refl [OF adv_base [OF a]] by (cases "sg_payload seg = []") auto
    then show ?thesis
      using goodI_live [OF adv_trans [OF a tx_adv]] txD(4) live2 False c2 by (auto simp: handleFinWait2_def)
  qed
qed

lemma handleCloseWait_good:
  assumes inv: "conn_inv W fin c" and e: "env_ok e"
  shows "\<exists>c'. handleCloseWait e seg c = Some c' \<and> good W fin c c'"
proof (cases "Has (sg_flags seg) TCPFlagACK \<and> c_snd c \<noteq> None")
  case True
  note base = conn_invD [OF inv]
  have t: "tx W fin c (measureRTTM e seg (track_max_wnd (set_wnd seg c)))"
    by (rule window_update_tx [OF base])
  have "c_snd (measureRTTM e seg (track_max_wnd (set_wnd seg c))) \<noteq> None"
    using txD(5) [OF t] True by simp
  from handleACK_tx [OF txD(3) [OF t] this e]
  obtain c' where "handleACK e (measureRTTM e seg (track_max_wnd (set_wnd seg c))) (sg_ack seg) = Some c'" "tx W fin c c'"
    using tx_trans [OF t] by blast
  then show ?thesis
    using True good_tx [OF inv] unfolding handleCloseWait_def by simp
next
  case False
  then show ?thesis
    using good_refl [OF inv] by (simp only: handleCloseWait_def if_False) blast
qed

lemma handleClosing_good:
  assumes inv: "conn_inv W fin c" and st: "c_state c = stateClosing" and e: "env_ok e"
  shows "\<exists>c'. handleClosing e seg c = Some c' \<and> good W fin c c'"
proof -
  note base = conn_invD [OF inv]
  have snd: "c_snd c \<noteq> None"
    using st conn_baseD(5) [OF base] by auto
  obtain c1 b where c1: "(if Has (sg_flags seg) TCPFlagACK \<and> c_snd c \<noteq> None then do {
         c \<leftarrow> handleACK e (measureRTTM e seg c) (sg_ack seg);
         s \<leftarrow> c_snd c;
         Some (c, \<not> hasUnacked s) }
       else Some (c, False)) = Some (c1, b)" "tx W fin c c1"
    using closing_ack [OF base snd e measureRTTM_tx [OF base]] by blast
  have snd1: "c_snd c1 \<noteq> None"
    using txD(5) [OF c1(2)] snd by simp
  have g: "good W fin c (enterTimeWait e c1)" "good W fin c c1"
    using good_adv [OF tx_adv [OF c1(2)] enterTimeWait_good [OF txD(3) [OF c1(2)] snd1]] good_tx [OF inv c1(2)] by auto
  obtain c2 where "sendACK e c1 = Some c2" "good W fin c c2"
    using sendACK_tx [OF txD(3) [OF c1(2)]] good_tx [OF inv] tx_trans [OF c1(2)] by blast
  then show ?thesis
    using c1(1) g by (cases b) (auto simp: handleClosing_def)
qed

lemma handleLastAck_good:
  assumes inv: "conn_inv W fin c" and e: "env_ok e"
  shows "\<exists>c'. handleLastAck e seg c = Some c' \<and> good W fin c c'"
proof (cases "c_snd c")
  case None
  then show ?thesis
    using good_refl [OF inv] by (auto simp: handleLastAck_def)
next
  case (Some s)
  obtain c1 where c1: "handleACK e c (sg_ack seg) = Some c1" "good W fin c c1"
    using handleACK_tx [OF conn_invD [OF inv] _ e] Some good_tx [OF inv] by blast
  then show ?thesis
    using Some good_refl [OF inv] good_trans [OF c1(2) closeDone_good [OF goodD(2) [OF c1(2)]]] by (auto simp: handleLastAck_def)
qed

lemma handleTimeWait_good:
  assumes inv: "conn_inv W fin c"
  shows "\<exists>c'. handleTimeWait e seg c = Some c' \<and> good W fin c c'"
proof -
  obtain c1 where c1: "sendACK e c = Some c1" "tx W fin c c1"
    using sendACK_tx [OF conn_invD [OF inv]] by blast
  have "tx W fin c (c1\<lparr>c_timeWaitTimer := Some (e_now e + cc_timeWaitDuration (c_cfg c1))\<rparr>)"
    by (rule tx_trans [OF c1(2) tx_aux [OF txD(3) [OF c1(2)]]]) simp
  then show ?thesis
    using c1(1) good_tx [OF inv] good_refl [OF inv] by (simp add: handleTimeWait_def)
qed

section \<open>Segments\<close>

lemma handle_state_good:
  assumes "conn_inv W fin c" "env_ok e" "length (sg_payload seg) \<le> 2 ^ 30"
  shows "\<exists>c'. handle_state e seg c = Some c' \<and> good W fin c c'"
  using handleSynRcvd_good [OF assms(1) _ assms(2,3)] handleEstablished_good [OF assms(1) _ assms(2,3)]
    handleFinWait1_good [OF assms(1) _ assms(2,3)] handleFinWait2_good [OF assms(1) _ assms(3)] handleCloseWait_good [OF assms(1,2)]
    handleClosing_good [OF assms(1) _ assms(2)] handleLastAck_good [OF assms(1,2)] handleTimeWait_good [OF assms(1)] good_refl [OF assms(1)]
  by (cases "c_state c") (simp_all add: handle_state_def)

lemma rst_window_total:
  assumes "conn_base W fin c"
  shows "\<exists>n w. rst_window c = Some (n, w)"
  using Free_eq [OF conn_baseD(1) [OF assms]] by (cases "c_rcv c") (simp_all add: rst_window_def rcvWnd_def)

lemma handle_reset_good:
  assumes inv: "conn_inv W fin c"
  shows "\<exists>c'. handle_reset e seg c = Some c' \<and> good W fin c c'"
proof -
  obtain n w where "rst_window c = Some (n, w)"
    using rst_window_total [OF conn_invD [OF inv]] by blast
  moreover obtain c1 where "sendACK e c = Some c1" "good W fin c c1"
    using sendACK_tx [OF conn_invD [OF inv]] good_tx [OF inv] by blast
  ultimately show ?thesis
    using good_refl [OF inv] handleRST_good [OF inv] by (auto simp: handle_reset_def)
qed

lemma read_timestamp_total: "\<exists>seg'. read_timestamp c seg = Some seg' \<and> sg_payload seg' = sg_payload seg"
proof -
  obtain so where "ParseSegmentOptions (sg_options seg) = Some so"
    using ParseSegmentOptions_total by blast
  then show ?thesis
    by (auto simp: read_timestamp_def)
qed

lemma handle_parsed_good:
  assumes inv: "conn_inv W fin c" and e: "env_ok e" and d: "length (sg_payload seg) \<le> 2 ^ 30"
  shows "\<exists>c'. handle_parsed e seg c = Some c' \<and> good W fin c c'"
proof -
  obtain seg' where seg: "read_timestamp c seg = Some seg'" "length (sg_payload seg') \<le> 2 ^ 30"
    using read_timestamp_total [of c seg] d by auto
  note base = conn_invD [OF inv]
  have paws: "good W fin c (tcp_count (\<lambda>st. st\<lparr>ts_PAWSDrops := ts_PAWSDrops st + 1\<rparr>) c)"
    by (rule good_tx [OF inv tx_aux [OF base]]) simp
  have upd: "good W fin c (update_tsRecent seg' c)"
    by (rule good_tx [OF inv tx_aux [OF base]]) simp
  obtain c1 where c1: "handle_state e seg' (update_tsRecent seg' c) = Some c1" "good W fin c c1"
    using handle_state_good [OF goodD(2) [OF upd] e seg(2)] good_trans [OF upd] by blast
  obtain c2 where c2: "handle_reset e seg' c = Some c2" "good W fin c c2"
    using handle_reset_good [OF inv] by blast
  obtain c3 where "sendACK e c = Some c3" "good W fin c c3"
    using sendACK_tx [OF base] good_tx [OF inv] by blast
  then show ?thesis
    using seg(1) paws c1 c2 by (simp add: handle_parsed_def)
qed

lemma parseSeg_total:
  assumes "inbound_ok pb"
  shows "\<exists>seg. parseSeg pb = Some seg \<and> length (sg_payload seg) \<le> 65535"
proof -
  obtain d where d: "pb_bytes pb = Some d" "20 \<le> length d" "length d \<le> 65535"
    using assms by (auto simp: inbound_ok_def TCPMinHeaderSize_def split: option.splits)
  have "TCP_Options d \<noteq> None"
    using d(2) by (auto simp: TCP_Options_def TCP_DataOffset_def Let_def)
  then show ?thesis
    using d by (auto simp: parseSeg_def TCP_DataOffset_def TCP_Flags_def TCP_SequenceNumber_def TCP_AckNumber_def TCP_WindowSize_def Let_def)
qed

lemma handleSegment_good:
  assumes "conn_inv W fin c" "env_ok e" "inbound_ok pb"
  shows "\<exists>c'. handleSegment e pb c = Some c' \<and> good W fin c c'"
proof -
  obtain seg where "parseSeg pb = Some seg" "length (sg_payload seg) \<le> 65535"
    using parseSeg_total [OF assms(3)] by blast
  then show ?thesis
    using handle_parsed_good [OF assms(1,2), of seg] by (simp add: handleSegment_def)
qed

end
