(* ===== verification/TcpRun.thy ===== *)
theory TcpRun
  imports TcpConnSafe TcpHandler
begin

text \<open>
  The run loop of a connection, \<open>run\<close> of \<open>src/transport/tcp/conn.go\<close>, and the application's calls as steps of one
  system: what holds of a connection in every state it can reach.
\<close>

section \<open>The FIN\<close>

lemma of_written_more:
  assumes "of_written base W fin seq d f" "fin \<Longrightarrow> fin' \<and> x = []"
  shows "of_written base (W @ x) fin' seq d f"
proof -
  obtain k where k: "seq = seq_at base k" "k + length d \<le> length W" "d = take (length d) (drop k W)" "f \<longrightarrow> fin \<and> k = length W"
    using assms(1) unfolding of_written_def by blast
  have "take (length d) (drop k (W @ x)) = take (length d) (drop k W)"
    using k(2) by simp
  then show ?thesis
    unfolding of_written_def using k assms(2) by (intro exI [of _ k]) auto
qed

lemma queue_ok_more:
  assumes "queue_ok (of_written base W fin) us" "fin \<Longrightarrow> fin' \<and> x = []"
  shows "queue_ok (of_written base (W @ x) fin') us"
proof -
  have "unacked_ok (of_written base (W @ x) fin') u" if "unacked_ok (of_written base W fin) u" for u
    using that of_written_more [OF _ assms(2)] unfolding unacked_ok_def by (auto split: if_splits)
  then show ?thesis
    using assms(1) unfolding queue_ok_def by (auto simp: list_all_iff)
qed

text \<open>The connection \<open>c'\<close> follows \<open>c\<close>; the FIN may have been sent in between.\<close>

definition follows :: "bytes \<Rightarrow> bool \<Rightarrow> TCPConn \<Rightarrow> TCPConn \<Rightarrow> bool" where
  "follows W fin c c' \<longleftrightarrow> (\<exists>fin'. (fin \<longrightarrow> fin') \<and> good W fin' c c')"

lemma good_follows: "good W fin c c' \<Longrightarrow> follows W fin c c'"
  by (auto simp: follows_def)

lemma follows_good:
  assumes "good W fin a b" "follows W fin b c"
  shows "follows W fin a c"
proof -
  obtain fin' where f: "fin \<longrightarrow> fin'" "good W fin' b c"
    using assms(2) by (auto simp: follows_def)
  have ab: "c_flow b = c_flow a" "c_iss b = c_iss a" "ext_out (written W fin a) a b" "c_snd a \<noteq> None \<longrightarrow> c_snd b \<noteq> None"
    using goodD(1) [OF assms(1)] by (auto simp: adv_def)
  have "ext_out (written W fin' a) a b"
    by (rule ext_out_mono [OF ab(3)]) (use of_written_more [of _ W fin _ _ _ fin' "[]"] f(1) in auto)
  then have "adv W fin' a c"
    using ab goodD(1) [OF f(2)] ext_out_trans [of "written W fin' a" a b c] by (auto simp: adv_def snd_base_def)
  then show ?thesis
    using f goodD(2) [OF f(2)] by (auto simp: follows_def good_def)
qed

lemma follows_tx: "conn_inv W fin a \<Longrightarrow> tx W fin a b \<Longrightarrow> follows W fin b c \<Longrightarrow> follows W fin a c"
  using follows_good good_tx by blast

lemma sendFIN_tx:
  assumes base: "conn_base W False c" and snd: "c_snd c = Some s" and empty: "contents (c_writeBuf c) = []"
    and due: "c_closeOnce c" "\<not> c_closeCh c" "\<not> c_finPending c"
  shows "\<exists>c'. sendFIN e c = Some c' \<and> tx W True c c'"
proof -
  note inv = snd_inv_conn [OF base snd]
  obtain m where "m \<le> length W" "drop m W = []" "snd_nxt s = seq_at (snd_base c) m"
    using snd_invD(6) [OF inv] empty by (auto simp: snd_stream_def)
  then have nxt: "snd_nxt s = seq_at (snd_base c) (length W)"
    by simp
  then have D: "written W True c (snd_nxt s) [] True"
    by (auto simp: of_written_def)
  obtain c1 where c1: "sendFINSegment e c (snd_nxt s) = Some c1" "sends (written W True c) c c1"
    using sends_FIN [of c "written W True c" "snd_nxt s" e] conn_baseD(1) [OF base] D by blast
  have so: "same_out c c1" and ext: "ext_out (written W True c) c c1"
    using c1(2) by (simp_all add: sends_def)
  have f: "c_snd c1 = c_snd c" "c_rcv c1 = c_rcv c" "c_readBuf c1 = c_readBuf c" "c_writeBuf c1 = c_writeBuf c"
    by (rule same_outD [OF so])+
  note fr = same_out_frame [OF so]
  let ?s = "s\<lparr>snd_unacked := snd_unacked s @ [sent_segment (e_now e) (snd_nxt s) None True], snd_nxt := snd_nxt s + 1\<rparr>"
  let ?c = "set_snd ?s c1"
  have q: "queue_ok (written W True c) (snd_unacked s)"
    using queue_ok_more [OF snd_okD(5) [OF snd_invD(5) [OF inv]], of True "[]"] by simp
  have "queue_ok (written W True c) (snd_unacked ?s)"
    using queue_ok_snoc [OF q, of "sent_segment (e_now e) (snd_nxt s) None True"] snd_okD(6) [OF snd_invD(5) [OF inv]] D
    by (simp add: unacked_ok_def sent_segment_def)
  then have ok: "snd_ok (snd_base c) W True ?s"
    using snd_okD [OF snd_invD(5) [OF inv]] unfolding snd_ok_def rto_ok_def by simp
  have str: "snd_stream (snd_base c) W True (c_writeBuf c) (snd_nxt s + 1)"
    using empty nxt unfolding snd_stream_def by (intro exI [of _ "length W"]) (simp add: seq_at_Suc)
  have "snd_side W True ?c"
    using ok str f fr conn_baseD(11) [OF base] by (simp add: snd_side_def set_snd_def snd_base_def frame_def)
  moreover have "conn_rest True ?c"
    using conn_baseD(12) [OF base] due f fr by (simp add: conn_rest_def closing_ok_def peer_ok_def set_snd_def frame_def)
  ultimately have "conn_base W True ?c"
    using conn_baseD(1,2,4,6) [OF base] snd f fr by (simp add: conn_base_def set_snd_def frame_def)
  moreover have "frame c ?c"
    using fr by (simp add: frame_def set_snd_def)
  moreover have "rcv_live ?c" if "rcv_live c"
    by (rule rcv_live_eq [OF that]) (use f fr in \<open>simp_all add: set_snd_def frame_def\<close>)
  ultimately have "tx W True c ?c"
    using ext snd by (simp add: tx_def ext_out_def set_snd_def)
  moreover have "sendFIN e c = Some ?c"
    using c1(1) snd f by (simp add: sendFIN_def recordSentFIN_def)
  ultimately show ?thesis
    by blast
qed

text \<open>Changing what says that a FIN is due.\<close>

lemma adv_due:
  assumes base: "conn_base W fin c" and rest: "conn_rest fin c'"
    and c': "c' = c\<lparr>c_finPending := p, c_closeCh := q\<rparr>"
  shows "adv W fin c c'" "rcv_live c \<Longrightarrow> rcv_live c'"
proof -
  have "snd_side W fin c' = snd_side W fin c"
    by (rule snd_side_same) (simp_all add: c')
  then have "conn_base W fin c'"
    using base rest by (simp add: conn_base_def c')
  then show "adv W fin c c'"
    by (simp add: adv_def c' ext_out_refl)
  show "rcv_live c'" if "rcv_live c"
    by (rule rcv_live_eq [OF that]) (simp_all add: c')
qed

lemma good_due:
  assumes inv: "conn_inv W fin c" and rest: "conn_rest fin c'"
    and c': "c' = c\<lparr>c_finPending := p, c_closeCh := q\<rparr>"
  shows "good W fin c c'"
  using inv adv_due [OF conn_invD [OF inv] rest c'] adv_base [of W fin c c'] by (auto simp: good_def conn_inv_def c')

lemma finalizeFIN_follows:
  assumes inv: "conn_inv W False c" and empty: "contents (c_writeBuf c) = []" and due: "c_closeOnce c" "\<not> c_closeCh c"
  shows "\<exists>c'. finalizeFIN e c = Some c' \<and> follows W False c c'"
proof -
  let ?c = "c\<lparr>c_finPending := False\<rparr>"
  have "conn_rest False ?c"
    using conn_baseD(12) [OF conn_invD [OF inv]] by (simp add: conn_rest_def closing_ok_def peer_ok_def)
  then have g: "good W False c ?c"
    by (rule good_due [OF inv, where q = "c_closeCh c"]) simp
  note base = conn_invD [OF goodD(2) [OF g]]
  have sent: "\<exists>c'. (do { c \<leftarrow> sendFIN e ?c; Some (c\<lparr>c_state := st'\<rparr>) }) = Some c' \<and> follows W False ?c c'"
    if st: "c_state c = st" "st \<in> {stateEstablished, stateCloseWait}" "st' = (if st = stateEstablished then stateFinWait1 else stateLastAck)" for st st'
  proof -
    obtain s where s: "c_snd ?c = Some s"
      using conn_baseD(5) [OF base] st by auto
    obtain c1 where c1: "sendFIN e ?c = Some c1" "tx W True ?c c1"
      using sendFIN_tx [OF base s] empty due by auto
    have snd1: "c_snd c1 \<noteq> None"
      using txD(5) [OF c1(2)] s by simp
    have a: "adv W True ?c (c1\<lparr>c_state := st'\<rparr>)"
      by (rule adv_trans [OF tx_adv [OF c1(2)] adv_state [OF txD(3) [OF c1(2)]]]) (use snd1 st(3) in \<open>auto split: if_splits\<close>)
    have "good W True ?c (c1\<lparr>c_state := st'\<rparr>)"
    proof (cases "st = stateEstablished")
      case True
      have "rcv_live ?c"
        using goodD(2) [OF g] st(1) True conn_baseD(4) [OF base] s by (auto simp: conn_inv_def rcv_quiet_def)
      then have "rcv_live (c1\<lparr>c_state := st'\<rparr>)"
        using rcv_live_eq [OF txD(4) [OF c1(2)], of "c1\<lparr>c_state := st'\<rparr>"] by simp
      then show ?thesis
        by (rule goodI_live [OF a])
    next
      case False
      then show ?thesis
        using goodI_quiet [OF a] st(3) by (simp add: rcv_quiet_def)
    qed
    then show ?thesis
      using c1(1) by (auto simp: follows_def)
  qed
  consider "c_state c = stateEstablished" | "c_state c = stateCloseWait" | "c_state c \<noteq> stateEstablished" "c_state c \<noteq> stateCloseWait"
    by blast
  then have "\<exists>c'. finalizeFIN e c = Some c' \<and> follows W False ?c c'"
  proof cases
    case 1
    then show ?thesis
      using sent [OF 1] by (simp add: finalizeFIN_def)
  next
    case 2
    then show ?thesis
      using sent [OF 2] by (simp add: finalizeFIN_def)
  next
    case 3
    then have "finalizeFIN e c = Some ?c"
      by (cases "c_state c") (simp_all add: finalizeFIN_def)
    then show ?thesis
      using good_follows [OF good_refl [OF goodD(2) [OF g]]] by blast
  qed
  then show ?thesis
    using follows_good [OF g] by blast
qed

text \<open>Sending what is left, and the FIN after it: in \<open>handleClose\<close> and after a segment.\<close>

lemma flush_FIN:
  assumes inv: "conn_inv W False c" and snd: "c_snd c \<noteq> None" and e: "env_ok e" and due: "c_closeOnce c" "\<not> c_closeCh c"
    and h: "\<And>c1. conn_inv W False c1 \<Longrightarrow> frame c c1 \<Longrightarrow> \<exists>c'. h c1 = Some c' \<and> follows W False c1 c'"
  shows "\<exists>c'. (do { c \<leftarrow> sendPending e c; n \<leftarrow> Len (c_writeBuf c); if n = 0 then finalizeFIN e c else h c }) = Some c' \<and> follows W False c c'"
proof -
  obtain c1 where c1: "sendPending e c = Some c1" "tx W False c c1"
    using sendPending_tx [OF conn_invD [OF inv] snd e] by blast
  have inv1: "conn_inv W False c1"
    using goodD(2) [OF good_tx [OF inv c1(2)]] .
  have fr: "frame c c1"
    by (rule txD(1) [OF c1(2)])
  have len: "Len (c_writeBuf c1) = Some (length (contents (c_writeBuf c1)))"
    using Len_eq conn_baseD(11) [OF conn_invD [OF inv1]] by blast
  show ?thesis
  proof (cases "contents (c_writeBuf c1) = []")
    case True
    then show ?thesis
      using finalizeFIN_follows [OF inv1 True] due fr c1 len follows_tx [OF inv c1(2)] by (auto simp: frame_def)
  next
    case False
    then show ?thesis
      using h [OF inv1 fr] c1 len follows_tx [OF inv c1(2)] by auto
  qed
qed

lemma handleClose_follows:
  assumes inv: "conn_inv W False c" and e: "env_ok e" and due: "c_closeOnce c" "\<not> c_closeCh c"
  shows "\<exists>c'. handleClose e c = Some c' \<and> follows W False c c'"
proof (cases "c_state c = stateEstablished \<or> c_state c = stateCloseWait")
  case True
  then have snd: "c_snd c \<noteq> None"
    using conn_baseD(5) [OF conn_invD [OF inv]] by auto
  have pend: "\<exists>c'. Some (c1\<lparr>c_finPending := True\<rparr>) = Some c' \<and> follows W False c1 c'"
    if c1: "conn_inv W False c1" "frame c c1" for c1
  proof -
    have "conn_rest False (c1\<lparr>c_finPending := True\<rparr>)"
      using conn_baseD(12) [OF conn_invD [OF c1(1)]] due c1(2) by (simp add: conn_rest_def closing_ok_def peer_ok_def frame_def)
    then show ?thesis
      using good_follows [OF good_due [OF c1(1), where q = "c_closeCh c1"]] by simp
  qed
  have "handleClose e c = (do { c \<leftarrow> sendPending e c; n \<leftarrow> Len (c_writeBuf c);
      if n = 0 then finalizeFIN e c else Some (c\<lparr>c_finPending := True\<rparr>) })"
    using True snd by (auto simp: handleClose_def intro!: bind_option_cong)
  then show ?thesis
    using flush_FIN [OF inv snd e due pend] by simp
next
  case False
  then show ?thesis
    using good_follows [OF good_refl [OF inv]] by (simp add: handleClose_def)
qed

section \<open>The cases of the run loop\<close>

text \<open>\<open>updateSnapshot\<close> and the timers at the end of a case.\<close>

lemma follows_end:
  assumes "follows W fin a b"
  shows "\<exists>c. updateSnapshot b = Some c \<and> (\<forall>d. same_aux c d \<longrightarrow> follows W fin a d)"
proof -
  obtain fin' where f: "fin \<longrightarrow> fin'" "good W fin' a b"
    using assms by (auto simp: follows_def)
  note inv = goodD(2) [OF f(2)]
  obtain c where c: "updateSnapshot b = Some c" "tx W fin' b c"
    using updateSnapshot_tx [OF conn_invD [OF inv]] by blast
  have "good W fin' a d" if "same_aux c d" for d
    by (rule good_trans [OF f(2) good_tx [OF inv tx_trans [OF c(2) tx_aux [OF txD(3) [OF c(2)] that]]]])
  then show ?thesis
    using c(1) f(1) by (auto simp: follows_def)
qed

lemma inbound_tl:
  assumes inv: "conn_inv W fin c"
  shows "good W fin c (c\<lparr>c_inbound := tl (c_inbound c)\<rparr>)"
proof -
  let ?c = "c\<lparr>c_inbound := tl (c_inbound c)\<rparr>"
  have "list_all inbound_ok (tl (c_inbound c))"
    using conn_baseD(10) [OF conn_invD [OF inv]] by (cases "c_inbound c") auto
  then have "conn_rest fin ?c"
    using conn_baseD(12) [OF conn_invD [OF inv]] by (simp add: conn_rest_def closing_ok_def peer_ok_def)
  moreover have "snd_side W fin ?c"
    using conn_baseD(3) [OF conn_invD [OF inv]] snd_side_same [of ?c c] by simp
  ultimately have "conn_base W fin ?c"
    using conn_invD [OF inv] by (simp add: conn_base_def)
  moreover have "rcv_live ?c" if "rcv_live c"
    by (rule rcv_live_eq [OF that]) simp_all
  ultimately show ?thesis
    using inv by (auto simp: good_def conn_inv_def adv_def ext_out_refl)
qed

lemma on_inbound_follows:
  assumes inv: "conn_inv W fin c" and e: "env_ok e" and pb: "c_inbound c \<noteq> []"
  shows "\<exists>c'. on_inbound e c = Some c' \<and> follows W fin c c'"
proof -
  have hd: "inbound_ok (hd (c_inbound c))"
    using conn_baseD(10) [OF conn_invD [OF inv]] pb by (cases "c_inbound c") auto
  note g0 = inbound_tl [OF inv]
  obtain c1 where c1: "handleSegment e (hd (c_inbound c)) (c\<lparr>c_inbound := tl (c_inbound c)\<rparr>) = Some c1" "good W fin c c1"
    using handleSegment_good [OF goodD(2) [OF g0] e hd] good_trans [OF g0] by blast
  obtain c2 where c2: "updateSnapshot c1 = Some c2" "tx W fin c1 c2"
    using updateSnapshot_tx [OF conn_invD [OF goodD(2) [OF c1(2)]]] by blast
  let ?c = "stop_or_arm_rto e c2"
  have t: "tx W fin c1 ?c"
    by (rule tx_trans [OF c2(2) tx_aux [OF txD(3) [OF c2(2)]]]) simp
  have g: "good W fin c ?c"
    by (rule good_trans [OF c1(2) good_tx [OF goodD(2) [OF c1(2)] t]])
  have start: "on_inbound e c = (if c_finPending ?c \<and> c_snd ?c \<noteq> None then do {
       c \<leftarrow> sendPending e ?c;
       n \<leftarrow> Len (c_writeBuf c);
       if n = 0 then finalizeFIN e c else Some c } else Some ?c)"
    using c1(1) c2(1) by (simp add: on_inbound_def Let_def)
  show ?thesis
  proof (cases "c_finPending ?c \<and> c_snd ?c \<noteq> None")
    case True
    note inv' = goodD(2) [OF g]
    have due: "c_closeOnce ?c" "\<not> c_closeCh ?c" "\<not> fin"
      using True conn_baseD(7) [OF conn_invD [OF inv']] by (auto simp: closing_ok_def)
    have "\<exists>c'. (do { c \<leftarrow> sendPending e ?c; n \<leftarrow> Len (c_writeBuf c); if n = 0 then finalizeFIN e c else Some c }) = Some c' \<and>
        follows W False ?c c'"
      using flush_FIN [where c = ?c and h = Some, OF _ _ e due(1,2)] inv' due(3) True good_follows good_refl by auto
    then show ?thesis
      using start True follows_good [OF g] due(3) by auto
  next
    case False
    then have "on_inbound e c = Some ?c"
      using start by (simp only: if_False)
    then show ?thesis
      using good_follows [OF g] by blast
  qed
qed

lemma on_rto_follows:
  assumes inv: "conn_inv W fin c"
  shows "\<exists>c'. on_rto e c = Some c' \<and> follows W fin c c'"
proof -
  let ?c = "c\<lparr>c_rtoTimer := None\<rparr>"
  have g: "good W fin c ?c"
    by (rule good_tx [OF inv tx_aux [OF conn_invD [OF inv]]]) simp
  note inv' = goodD(2) [OF g]
  show ?thesis
  proof (cases "c_snd ?c")
    case None
    then show ?thesis
      using good_follows [OF g] by (simp add: on_rto_def)
  next
    case (Some s)
    obtain c1 where c1: "handleRTO e ?c = Some c1 \<or> handleRTO e ?c = Some (closeDone c1)" "snd_step (snd_base ?c) W fin ?c c1"
      using handleRTO_step [OF snd_inv_conn [OF conn_invD [OF inv'] Some]] by blast
    have "tx W fin ?c c1"
      by (rule tx_snd [OF conn_invD [OF inv'] c1(2)]) (simp add: Some)
    then have g1: "good W fin c c1"
      by (rule good_trans [OF g good_tx [OF inv']])
    then have "good W fin c (closeDone c1)"
      using good_trans [OF g1 closeDone_good [OF goodD(2) [OF g1]]] by blast
    with c1(1) g1 obtain c2 where c2: "handleRTO e ?c = Some c2" "good W fin c c2"
      by blast
    obtain c3 where c3: "updateSnapshot c2 = Some c3" "\<And>d. same_aux c3 d \<Longrightarrow> follows W fin c d"
      using follows_end [OF good_follows [OF c2(2)]] by blast
    have "follows W fin c (if c_state c3 \<noteq> stateClosed then arm_rto e c3 else c3)"
      by (rule c3(2)) simp
    then show ?thesis
      using Some c2(1) c3(1) by (simp add: on_rto_def)
  qed
qed

lemma on_zero_window_follows:
  assumes inv: "conn_inv W fin c" and e: "env_ok e"
  shows "\<exists>c'. on_zero_window e c = Some c' \<and> follows W fin c c'"
proof -
  let ?c = "c\<lparr>c_zeroWindowTimer := None\<rparr>"
  have t: "tx W fin c ?c"
    by (rule tx_aux [OF conn_invD [OF inv]]) simp
  show ?thesis
  proof (cases "c_snd ?c \<noteq> None \<and> c_zeroWindowProbing ?c")
    case True
    obtain c1 where c1: "sendZeroWindowProbe e ?c = Some c1" "tx W fin c c1"
      using sendZeroWindowProbe_tx [OF txD(3) [OF t] _ e] True tx_trans [OF t] by blast
    have "tx W fin c (c1\<lparr>c_probeInterval := n, c_zeroWindowTimer := z\<rparr>)" for n z
      by (rule tx_trans [OF c1(2) tx_aux [OF txD(3) [OF c1(2)]]]) simp
    then show ?thesis
      using True c1(1) good_follows [OF good_tx [OF inv]] by (simp add: on_zero_window_def Let_def)
  next
    case False
    then have "on_zero_window e c = Some ?c"
      by (auto simp: on_zero_window_def Let_def)
    then show ?thesis
      using good_follows [OF good_tx [OF inv t]] by blast
  qed
qed

lemma on_write_follows:
  assumes inv: "conn_inv W fin c" and e: "env_ok e"
  shows "\<exists>c'. on_write e c = Some c' \<and> follows W fin c c'"
proof -
  let ?c = "c\<lparr>c_writeNotify := False\<rparr>"
  have t: "tx W fin c ?c"
    by (rule tx_aux [OF conn_invD [OF inv]]) simp
  show ?thesis
  proof (cases "c_snd ?c")
    case None
    then show ?thesis
      using good_follows [OF good_tx [OF inv t]] by (simp add: on_write_def)
  next
    case (Some s)
    obtain c1 where c1: "sendPending e ?c = Some c1" "tx W fin c c1"
      using sendPending_tx [OF txD(3) [OF t] _ e] Some tx_trans [OF t] by auto
    obtain c2 where c2: "updateSnapshot c1 = Some c2" "tx W fin c c2"
      using updateSnapshot_tx [OF txD(3) [OF c1(2)]] tx_trans [OF c1(2)] by blast
    have t2: "tx W fin c (resetKeepalive e c2)"
      by (rule tx_trans [OF c2(2) tx_aux [OF txD(3) [OF c2(2)]]]) simp
    obtain c3 where c3: "checkZeroWindow e (resetKeepalive e c2) = Some c3" "tx W fin c c3"
      using checkZeroWindow_tx [OF txD(3) [OF t2]] tx_trans [OF t2] by blast
    let ?d = "if c_unackedSegs c3 > 0 then c3\<lparr>c_delayedACKTimer := None, c_unackedSegs := 0\<rparr> else c3"
    have t3: "tx W fin c ?d"
      by (rule tx_trans [OF c3(2) tx_aux [OF txD(3) [OF c3(2)]]]) simp
    have t4: "tx W fin c (arm_rto e ?d)"
      by (rule tx_trans [OF t3 tx_aux [OF txD(3) [OF t3]]]) simp
    let ?f = "arm_rto e ?d"
    note g = good_tx [OF inv t4]
    have len: "Len (c_writeBuf ?f) = Some (length (contents (c_writeBuf ?f)))"
      using Len_eq conn_baseD(11) [OF txD(3) [OF t4]] by blast
    have start: "on_write e c = (do { n \<leftarrow> (if c_finPending ?f then Len (c_writeBuf ?f) else Some 1);
        if c_finPending ?f \<and> n = 0 then finalizeFIN e ?f else Some ?f })"
      using Some c1(1) c2(1) c3(1) by (simp add: on_write_def Let_def)
    show ?thesis
    proof (cases "c_finPending ?f \<and> contents (c_writeBuf ?f) = []")
      case True
      have due: "c_closeOnce ?f" "\<not> c_closeCh ?f" "\<not> fin"
        using True conn_baseD(7) [OF txD(3) [OF t4]] by (auto simp: closing_ok_def)
      have "\<exists>c'. finalizeFIN e ?f = Some c' \<and> follows W fin ?f c'"
        using finalizeFIN_follows [of W ?f e] goodD(2) [OF g] True due by auto
      then show ?thesis
        using start True len follows_good [OF g] by auto
    next
      case False
      have "on_write e c = Some ?f"
        unfolding start len using False by (auto simp del: bind_eq_Some_conv)
      then show ?thesis
        using good_follows [OF g] by blast
    qed
  qed
qed

lemma on_window_follows:
  assumes inv: "conn_inv W fin c"
  shows "\<exists>c'. on_window e c = Some c' \<and> follows W fin c c'"
proof -
  let ?c = "c\<lparr>c_windowNotify := False\<rparr>"
  have t: "tx W fin c ?c"
    by (rule tx_aux [OF conn_invD [OF inv]]) simp
  have t1: "tx W fin c (?c\<lparr>c_lastWndZero := False\<rparr>)"
    by (rule tx_trans [OF t tx_aux [OF txD(3) [OF t]]]) simp
  obtain w where w: "rcv_wnd ?c = Some w"
    using rcv_wnd_total [OF conn_baseD(1) [OF txD(3) [OF t]]] by blast
  obtain c1 where c1: "sendACK e (?c\<lparr>c_lastWndZero := False\<rparr>) = Some c1" "tx W fin c c1"
    using sendACK_tx [OF txD(3) [OF t1]] tx_trans [OF t1] by blast
  have "tx W fin c (c1\<lparr>c_unackedSegs := 0\<rparr>)"
    by (rule tx_trans [OF c1(2) tx_aux [OF txD(3) [OF c1(2)]]]) simp
  then show ?thesis
    using w c1(1) good_follows [OF good_tx [OF inv]] t by (auto simp: on_window_def Let_def)
qed

lemma on_close_follows:
  assumes inv: "conn_inv W fin c" and e: "env_ok e" and ch: "c_closeCh c"
  shows "\<exists>c'. on_close e c = Some c' \<and> follows W fin c c'"
proof -
  have due: "c_closeOnce c" "\<not> fin" "\<not> c_finPending c"
    using ch conn_baseD(7) [OF conn_invD [OF inv]] by (auto simp: closing_ok_def)
  let ?c = "c\<lparr>c_closeCh := False\<rparr>"
  have "conn_rest fin ?c"
    using conn_baseD(12) [OF conn_invD [OF inv]] due by (simp add: conn_rest_def closing_ok_def peer_ok_def)
  then have g: "good W fin c ?c"
    by (rule good_due [OF inv, where p = "c_finPending c"]) simp
  obtain c1 where c1: "handleClose e ?c = Some c1" "follows W fin c c1"
    using handleClose_follows [of W ?c e] goodD(2) [OF g] e due follows_good [OF g] by auto
  obtain c2 where c2: "updateSnapshot c1 = Some c2" "\<And>d. same_aux c2 d \<Longrightarrow> follows W fin c d"
    using follows_end [OF c1(2)] by blast
  have "follows W fin c (arm_rto e c2)"
    by (rule c2(2)) simp
  then show ?thesis
    using c1(1) c2(1) by (simp add: on_close_def)
qed

text \<open>The connection after the last round of the loop.\<close>

definition ended :: "bytes \<Rightarrow> bool \<Rightarrow> TCPConn \<Rightarrow> TCPConn \<Rightarrow> bool" where
  "ended W fin c c' \<longleftrightarrow> c_flow c' = c_flow c \<and> c_iss c' = c_iss c \<and> ext_out (written W fin c) c c' \<and> rb_inv (c_readBuf c') \<and>
     rb_inv (c_writeBuf c') \<and> (fin \<longrightarrow> rb_closed (c_writeBuf c'))"

lemma good_ended:
  assumes "good W fin c c'"
  shows "ended W fin c c'"
  using goodD(1) [OF assms] conn_baseD(1,7,11) [OF conn_invD [OF goodD(2) [OF assms]]]
  by (auto simp: ended_def adv_def closing_ok_def)

definition round_ok :: "bytes \<Rightarrow> bool \<Rightarrow> TCPConn \<Rightarrow> TCPConn \<Rightarrow> bool \<Rightarrow> bool" where
  "round_ok W fin c c' again \<longleftrightarrow> (if again then follows W fin c c' else ended W fin c c')"

lemma on_timeout_ok:
  assumes inv: "conn_inv W fin c" and t: "tx W fin c c0"
  shows "\<exists>c' again. on_timeout st f c0 = Some (c', again) \<and> round_ok W fin c c' again"
proof (cases "c_state c0 = st")
  case True
  have 1: "good W fin c c0"
    by (rule good_tx [OF inv t])
  have 2: "good W fin c (tcp_count f c0)"
    by (rule good_trans [OF 1 good_tx [OF goodD(2) [OF 1] tx_aux [OF txD(3) [OF t]]]]) simp
  have 3: "good W fin c (closeDone (tcp_count f c0))"
    by (rule good_trans [OF 2 closeDone_good [OF goodD(2) [OF 2]]])
  obtain c1 where c1: "updateSnapshot (closeDone (tcp_count f c0)) = Some c1" "tx W fin (closeDone (tcp_count f c0)) c1"
    using updateSnapshot_tx [OF conn_invD [OF goodD(2) [OF 3]]] by blast
  have "good W fin c c1"
    by (rule good_trans [OF 3 good_tx [OF goodD(2) [OF 3] c1(2)]])
  then show ?thesis
    using True c1(1) good_ended by (auto simp: on_timeout_def round_ok_def)
next
  case False
  then show ?thesis
    using good_follows [OF good_tx [OF inv t]] by (auto simp: on_timeout_def round_ok_def)
qed

lemma on_keepalive_ok:
  assumes inv: "conn_inv W fin c"
  shows "\<exists>c' again. on_keepalive e c = Some (c', again) \<and> round_ok W fin c c' again"
proof -
  let ?c = "c\<lparr>c_keepaliveTimer := None\<rparr>"
  note base = conn_invD [OF inv]
  have aux: "tx W fin c d" if "tx W fin c b" "same_aux b d" for b d
    by (rule tx_trans [OF that(1) tx_aux [OF txD(3) [OF that(1)] that(2)]])
  have t: "tx W fin c ?c"
    by (rule tx_aux [OF base]) simp
  have cont: "round_ok W fin c c' True" if "tx W fin c c'" for c'
    using good_follows [OF good_tx [OF inv that]] by (simp add: round_ok_def)
  let ?d = "?c\<lparr>c_keepaliveProbes := c_keepaliveProbes c + 1\<rparr>"
  have td: "tx W fin c ?d"
    by (rule aux [OF t]) simp
  let ?g = "tcp_count (\<lambda>st. st\<lparr>ts_TimeoutKeepalive := ts_TimeoutKeepalive st + 1, ts_TotalReset := ts_TotalReset st + 1\<rparr>) ?d"
  have tg: "tx W fin c ?g"
    by (rule aux [OF td]) simp
  have give_up: "\<exists>c' . (do { c \<leftarrow> sendRSTSegment e ?g (snd_nxt s); c \<leftarrow> updateSnapshot (closeDone c); Some (c, False) }) = Some (c', False) \<and>
      ended W fin c c'" for s
  proof -
    obtain c1 where c1: "sendRSTSegment e ?g (snd_nxt s) = Some c1" "tx W fin c c1"
      using sendRST_tx [OF txD(3) [OF tg]] tx_trans [OF tg] by blast
    have g: "good W fin c (closeDone c1)"
      by (rule good_trans [OF good_tx [OF inv c1(2)] closeDone_good [OF goodD(2) [OF good_tx [OF inv c1(2)]]]])
    obtain c2 where c2: "updateSnapshot (closeDone c1) = Some c2" "tx W fin (closeDone c1) c2"
      using updateSnapshot_tx [OF conn_invD [OF goodD(2) [OF g]]] by blast
    have "ended W fin c c2"
      by (rule good_ended [OF good_trans [OF g good_tx [OF goodD(2) [OF g] c2(2)]]])
    then show ?thesis
      using c1(1) c2(1) by simp
  qed
  obtain c3 where c3: "sendKeepaliveProbe e ?d = Some c3" "tx W fin c c3"
    using sendKeepalive_tx [OF txD(3) [OF td]] tx_trans [OF td] by blast
  have p: "round_ok W fin c (c3\<lparr>c_keepaliveTimer := z\<rparr>) True" "round_ok W fin c (?c\<lparr>c_keepaliveTimer := z\<rparr>) True" for z
    by (rule cont [OF aux [OF c3(2)]], simp) (rule cont [OF aux [OF t]], rule same_aux_fields)
  show ?thesis
  proof (cases "c_snd ?c")
    case None
    then show ?thesis
      using cont [OF t] by (auto simp: on_keepalive_def)
  next
    case (Some s)
    have "on_keepalive e c = (if c_state c \<noteq> stateEstablished then Some (?c, True)
          else if hasUnacked s then Some (?c\<lparr>c_keepaliveTimer := Some (e_now e + cc_keepaliveIdle (c_cfg c))\<rparr>, True)
          else if c_keepaliveProbes ?d > cc_keepaliveCount (c_cfg ?d)
          then do { c \<leftarrow> sendRSTSegment e ?g (snd_nxt s); c \<leftarrow> updateSnapshot (closeDone c); Some (c, False) }
          else Some (c3\<lparr>c_keepaliveTimer := Some (e_now e + cc_keepaliveInterval (c_cfg c3))\<rparr>, True))"
      using Some c3(1) by (simp add: on_keepalive_def Let_def)
    then show ?thesis
      using cont [OF t] p give_up [of s] by (auto simp: round_ok_def simp del: bind_eq_Some_conv)
  qed
qed

lemma updateSnapshot_eq:
  assumes "rb_inv (c_readBuf c)" "rb_inv (c_writeBuf c)"
  shows "\<exists>sn. updateSnapshot c = Some (c\<lparr>c_snapshotData := sn\<rparr>)"
  using Len_eq [OF assms(1)] Len_eq [OF assms(2)] Free_eq [OF assms(1)] rcv_wnd_total [OF assms(1)]
  by (auto simp: updateSnapshot_def Let_def split: option.split)

lemma forceClose_ok:
  assumes inv: "conn_inv W fin c"
  shows "\<exists>c'. (do { c \<leftarrow> forceCloseFromRun e c; c \<leftarrow> updateSnapshot c; Some (c, False) }) = Some (c', False) \<and> ended W fin c c'"
proof -
  note base = conn_invD [OF inv]
  obtain c1 where c1: "(case c_snd c of Some s \<Rightarrow> if c_state c = stateEstablished then sendRSTSegment e c (snd_nxt s) else Some c
      | None \<Rightarrow> Some c) = Some c1" "tx W fin c c1"
    using sendRST_tx [OF base] tx_refl [OF base] by (cases "c_snd c"; cases "c_state c = stateEstablished") fastforce+
  let ?d = "c1\<lparr>c_writeBuf := CloseWrite (c_writeBuf c1), c_readBuf := CloseWrite (c_readBuf c1)\<rparr>"
  let ?f = "closeDone ?d"
  have f: "c_flow ?f = c_flow c1" "c_iss ?f = c_iss c1" "c_out ?f = c_out c1" "c_readBuf ?f = c_readBuf ?d" "c_writeBuf ?f = c_writeBuf ?d"
    by (simp_all add: closeDone_def)
  have rb: "rb_inv (c_readBuf ?f)" "rb_inv (c_writeBuf ?f)"
    using conn_baseD(1,11) [OF txD(3) [OF c1(2)]] f by simp_all
  obtain sn where sn: "updateSnapshot ?f = Some (?f\<lparr>c_snapshotData := sn\<rparr>)"
    using updateSnapshot_eq [OF rb] by blast
  have "ended W fin c (?f\<lparr>c_snapshotData := sn\<rparr>)"
    using f rb txD(1,2) [OF c1(2)] by (simp add: ended_def ext_out_def frame_def)
  moreover have "forceCloseFromRun e c = Some ?f"
    unfolding forceCloseFromRun_def c1(1) by simp
  ultimately show ?thesis
    using sn by (simp only: bind.bind_lunit) blast
qed

lemma round_go:
  assumes "\<exists>c'. m = Some c' \<and> follows W fin c c'"
  shows "\<exists>c' again. (do { c \<leftarrow> m; Some (c, True) }) = Some (c', again) \<and> round_ok W fin c c' again"
proof -
  obtain c' where "m = Some c'" "follows W fin c c'"
    using assms by blast
  then show ?thesis
    by (intro exI [of _ c'] exI [of _ True]) (simp add: round_ok_def)
qed

lemma run_round_ok:
  assumes inv: "conn_inv W fin c" and e: "env_ok e" and ready: "run_ready e c ev"
  shows "\<exists>c' again. run_round e ev c = Some (c', again) \<and> round_ok W fin c c' again"
proof (cases ev)
  case EvInbound
  then have "c_inbound c \<noteq> []"
    using ready by simp
  from round_go [OF on_inbound_follows [OF inv e this]] show ?thesis
    using EvInbound by (simp only: run_round.simps)
next
  case EvRTO
  then show ?thesis
    using round_go [OF on_rto_follows [OF inv]] by (simp only: run_round.simps)
next
  case EvDelayedACK
  let ?c = "c\<lparr>c_delayedACKTimer := None\<rparr>"
  have t: "tx W fin c ?c"
    by (rule tx_aux [OF conn_invD [OF inv]]) simp
  obtain c1 where c1: "sendACK e ?c = Some c1" "tx W fin c c1"
    using sendACK_tx [OF txD(3) [OF t]] tx_trans [OF t] by blast
  have "tx W fin c (c1\<lparr>c_unackedSegs := 0\<rparr>)"
    by (rule tx_trans [OF c1(2) tx_aux [OF txD(3) [OF c1(2)]]]) simp
  then have "round_ok W fin c (c1\<lparr>c_unackedSegs := 0\<rparr>) True"
    using good_follows [OF good_tx [OF inv]] by (simp add: round_ok_def)
  then show ?thesis
    using EvDelayedACK c1(1) by auto
next
  case EvZeroWindow
  then show ?thesis
    using round_go [OF on_zero_window_follows [OF inv e]] by (simp only: run_round.simps)
next
  case EvKeepalive
  then show ?thesis
    using on_keepalive_ok [OF inv] by (simp only: run_round.simps)
next
  case EvWrite
  then show ?thesis
    using round_go [OF on_write_follows [OF inv e]] by (simp only: run_round.simps)
next
  case EvWindow
  then show ?thesis
    using round_go [OF on_window_follows [OF inv]] by (simp only: run_round.simps)
next
  case EvClose
  then have "c_closeCh c"
    using ready by simp
  from round_go [OF on_close_follows [OF inv e this]] show ?thesis
    using EvClose by (simp only: run_round.simps)
next
  case EvForceClose
  obtain c' where "run_round e ev c = Some (c', False)" "ended W fin c c'"
    using forceClose_ok [OF inv, of e] EvForceClose by (simp only: run_round.simps) blast
  then show ?thesis
    by (auto simp: round_ok_def)
next
  case EvSynRcvd
  have "tx W fin c (c\<lparr>c_synRcvdTimer := None\<rparr>)"
    by (rule tx_aux [OF conn_invD [OF inv]]) simp
  from on_timeout_ok [OF inv this] show ?thesis
    using EvSynRcvd by (simp only: run_round.simps)
next
  case EvFinWait2
  have "tx W fin c (c\<lparr>c_finWait2Timer := None\<rparr>)"
    by (rule tx_aux [OF conn_invD [OF inv]]) simp
  from on_timeout_ok [OF inv this] show ?thesis
    using EvFinWait2 by (simp only: run_round.simps)
next
  case EvTimeWait
  have "tx W fin c (c\<lparr>c_timeWaitTimer := None\<rparr>)"
    by (rule tx_aux [OF conn_invD [OF inv]]) simp
  then show ?thesis
    using good_ended [OF good_tx [OF inv]] EvTimeWait by (auto simp: round_ok_def)
next
  case EvDone
  then show ?thesis
    using good_ended [OF good_refl [OF inv]] by (auto simp: round_ok_def)
qed

end
