(* ===== verification/Spec2Isabelle.thy ===== *)
theory Spec2Isabelle
  imports IPv4 UDPHeader TCPHeader Ringbuf FragRoundtrip Channel StackProps UdpHandler TcpDelivery TcpRun
begin

text \<open>
  A verification of the user-space network stack.
\<close>

end
